(* ===== verification/Wire_Prelude.thy ===== *)
theory Wire_Prelude
  imports Main "HOL-Library.Word" "HOL-Library.Sublist" "HOL-Library.Multiset"
begin

text \<open>
  Shared vocabulary of the development: names for the machine types of the C
  sources, the ASCII helpers that several translation units define for
  themselves, and generic facts on lists used by more than one component.

  A C buffer \<open>(const char *p, size_t len)\<close> is a \<^typ>\<open>string\<close>: a list of 8-bit
  characters whose length is \<open>len\<close>.  A buffer of \<open>uint8_t\<close> that is used
  arithmetically is a list of \<open>8 word\<close>.
\<close>

type_synonym u8 = "8 word"
type_synonym u32 = "32 word"
type_synonym u64 = "64 word"

named_theorems wire_simps \<open>unfolding of the scanners shared by the text components\<close>
named_theorems inv_intros \<open>preservation lemmas of component invariants\<close>

section \<open>Lists\<close>

lemma takeWhile_dropWhile_split [wire_simps]:
  "takeWhile P xs @ dropWhile P xs = xs"
  by simp

lemma length_dropWhile_less:
  "xs \<noteq> [] \<Longrightarrow> P (hd xs) \<Longrightarrow> length (dropWhile P xs) < length xs"
  by (cases xs) (auto simp: le_imp_less_Suc length_dropWhile_le)

lemma length_tl_dropWhile:
  "xs \<noteq> [] \<Longrightarrow> length (tl (dropWhile P xs)) < length xs"
proof -
  assume "xs \<noteq> []"
  then have "0 < length xs" by simp
  moreover have "length (dropWhile P xs) \<le> length xs" by (rule length_dropWhile_le)
  ultimately show ?thesis unfolding length_tl by linarith
qed

lemma dropWhile_Cons_neg: "dropWhile P xs = y # ys \<Longrightarrow> \<not> P y"
  by (metis hd_dropWhile list.discI list.sel(1))

lemma takeWhile_all_append:
  "\<forall>x\<in>set xs. P x \<Longrightarrow> takeWhile P (xs @ ys) = xs @ takeWhile P ys"
  by (induction xs) auto

lemma dropWhile_all_append:
  "\<forall>x\<in>set xs. P x \<Longrightarrow> dropWhile P (xs @ ys) = dropWhile P ys"
  by (induction xs) auto

lemma set_update_subset_insert': "set (xs[i := x]) \<subseteq> insert x (set xs)"
  by (rule set_update_subset_insert)

section \<open>ASCII\<close>

text \<open>Byte value of a character, as the C code compares it.\<close>

abbreviation code :: "char \<Rightarrow> nat" where
  "code c \<equiv> of_char c"

definition is_ws :: "char \<Rightarrow> bool" where
  "is_ws c \<longleftrightarrow> c = CHR '' '' \<or> c = CHR 0x09"

definition is_digit :: "char \<Rightarrow> bool" where
  "is_digit c \<longleftrightarrow> 48 \<le> code c \<and> code c \<le> 57"

definition digit_val :: "char \<Rightarrow> nat" where
  "digit_val c = code c - 48"

definition ascii_lower :: "char \<Rightarrow> char" where
  "ascii_lower c = (if 65 \<le> code c \<and> code c \<le> 90 then char_of (code c + 32) else c)"

text \<open>\<open>strncasecmp(a, b, n) == 0\<close> on buffers already known to have \<open>n\<close> bytes.\<close>

definition eq_ci :: "string \<Rightarrow> string \<Rightarrow> bool" where
  "eq_ci a b \<longleftrightarrow> map ascii_lower a = map ascii_lower b"

text \<open>The two trimming loops \<open>while (len > 0 && ws(s[0]))\<close> and
  \<open>while (len > 0 && ws(s[len-1]))\<close> that recur through the text parsers.\<close>

definition ltrim :: "string \<Rightarrow> string" where
  "ltrim s = dropWhile is_ws s"

definition rtrim :: "string \<Rightarrow> string" where
  "rtrim s = rev (dropWhile is_ws (rev s))"

lemma ascii_lower_idem [simp]: "ascii_lower (ascii_lower c) = ascii_lower c"
  by (simp add: ascii_lower_def)

lemma rtrim_Nil [simp]: "rtrim [] = []"
  by (simp add: rtrim_def)

lemma ltrim_Nil [simp]: "ltrim [] = []"
  by (simp add: ltrim_def)

lemma rtrim_id: "s = [] \<or> \<not> is_ws (last s) \<Longrightarrow> rtrim s = s"
  by (cases s rule: rev_cases) (auto simp: rtrim_def)

lemma ltrim_id: "s = [] \<or> \<not> is_ws (hd s) \<Longrightarrow> ltrim s = s"
  by (cases s) (auto simp: ltrim_def)

lemma length_ltrim: "length (ltrim s) \<le> length s"
  by (simp add: ltrim_def length_dropWhile_le)

lemma length_rtrim: "length (rtrim s) \<le> length s"
  using length_dropWhile_le [of is_ws "rev s"] by (simp add: rtrim_def)

lemma set_ltrim: "set (ltrim s) \<subseteq> set s"
  by (auto simp: ltrim_def dest: set_dropWhileD)

lemma set_rtrim: "set (rtrim s) \<subseteq> set s"
  by (auto simp: rtrim_def dest: set_dropWhileD)

text \<open>Changing one cell of a list of lists changes the bag of all elements by that cell.\<close>

lemma mset_concat_update:
  assumes "i < length xs"
  obtains M where "mset (concat (map g xs)) = mset (g (xs ! i)) + M"
    and "\<And>x. mset (concat (map g (xs[i := x]))) = mset (g x) + M"
proof
  let ?M = "mset (concat (map g (take i xs @ drop (Suc i) xs)))"
  show "mset (concat (map g xs)) = mset (g (xs ! i)) + ?M"
    by (subst id_take_nth_drop [OF assms]) simp
  show "mset (concat (map g (xs[i := x]))) = mset (g x) + ?M" for x
    using assms by (simp add: upd_conv_take_nth_drop)
qed

end
