(* ===== verification/Topic_Filter.thy ===== *)
theory Topic_Filter
  imports Wire_Prelude
begin

text \<open>
  Topic names and MQTT topic filters (\<open>src/websocket/ws_topic_tree.c\<close>, section
  \<open>parsing\<close>): splitting at \<open>'/'\<close>, the validity checks for subscribe filters and
  publish names, and the two halves of the interest claim, the leading literal
  prefix of a filter and the level-prefixes of a topic.

  \<open>ws_topic_levels_t\<close> holds pointers into the topic with lengths; here it is the list
  of pairs of a byte offset and the level's bytes.
\<close>

definition WS_TOPIC_MAX_LEVELS :: nat where
  "WS_TOPIC_MAX_LEVELS = 128"

type_synonym ws_topic_levels = "(nat \<times> string) list"

text \<open>The scan of \<open>ws_topic_split\<close>: \<open>start\<close> is the offset of the current level, \<open>cur\<close>
  the bytes between \<open>start\<close> and \<open>p\<close>, the third argument the bytes from \<open>p\<close> on; the
  empty rest is the iteration with \<open>p == end\<close>.\<close>

fun ws_topic_split_loop ::
    "nat \<Rightarrow> string \<Rightarrow> string \<Rightarrow> ws_topic_levels \<Rightarrow> ws_topic_levels option" where
  "ws_topic_split_loop start cur [] out =
     (if length out = WS_TOPIC_MAX_LEVELS then None else Some (out @ [(start, cur)]))"
| "ws_topic_split_loop start cur (c # cs) out =
     (if c \<noteq> CHR ''/'' then ws_topic_split_loop start (cur @ [c]) cs out
      else if length out = WS_TOPIC_MAX_LEVELS then None
      else ws_topic_split_loop (start + length cur + 1) [] cs (out @ [(start, cur)]))"

definition ws_topic_split :: "string \<Rightarrow> ws_topic_levels option" where
  "ws_topic_split topic = (if topic = [] then None else ws_topic_split_loop 0 [] topic [])"

definition is_plus :: "string \<Rightarrow> bool" where
  "is_plus level \<longleftrightarrow> level = ''+''"

definition is_hash :: "string \<Rightarrow> bool" where
  "is_hash level \<longleftrightarrow> level = ''#''"

text \<open>The loop of \<open>ws_topic_check\<close>; \<open>i != levels.count - 1\<close> is \<open>ls \<noteq> []\<close>.\<close>

fun ws_topic_check_loop :: "bool \<Rightarrow> ws_topic_levels \<Rightarrow> bool" where
  "ws_topic_check_loop wildcards_ok [] = True"
| "ws_topic_check_loop wildcards_ok ((_, level) # ls) =
     (if is_plus level \<or> is_hash level then
        (if \<not> wildcards_ok then False
         else if is_hash level \<and> ls \<noteq> [] then False
         else ws_topic_check_loop wildcards_ok ls)
      else if CHR ''+'' \<in> set level \<or> CHR ''#'' \<in> set level then False
      else ws_topic_check_loop wildcards_ok ls)"

definition ws_topic_check :: "string \<Rightarrow> bool \<Rightarrow> bool" where
  "ws_topic_check topic wildcards_ok =
     (case ws_topic_split topic of None \<Rightarrow> False
      | Some levels \<Rightarrow> ws_topic_check_loop wildcards_ok levels)"

definition ws_topic_is_valid_filter :: "string \<Rightarrow> bool" where
  "ws_topic_is_valid_filter topic = ws_topic_check topic True"

definition ws_topic_is_valid_name :: "string \<Rightarrow> bool" where
  "ws_topic_is_valid_name topic = ws_topic_check topic False"

fun ws_topic_interest_prefix_loop :: "nat \<Rightarrow> ws_topic_levels \<Rightarrow> nat" where
  "ws_topic_interest_prefix_loop pre [] = pre"
| "ws_topic_interest_prefix_loop pre ((off, level) # ls) =
     (if is_plus level \<or> is_hash level then pre
      else ws_topic_interest_prefix_loop (off + length level) ls)"

definition ws_topic_interest_prefix :: "string \<Rightarrow> nat" where
  "ws_topic_interest_prefix flt =
     (case ws_topic_split flt of None \<Rightarrow> 0
      | Some levels \<Rightarrow> ws_topic_interest_prefix_loop 0 levels)"

definition ws_topic_prefixes :: "string \<Rightarrow> nat list option" where
  "ws_topic_prefixes topic =
     (case ws_topic_split topic of None \<Rightarrow> None
      | Some levels \<Rightarrow> Some (0 # map (\<lambda>(off, level). off + length level) levels))"

section \<open>Splitting\<close>

text \<open>Reference definitions: the levels of a topic, and joining them back.\<close>

fun split_slash :: "string \<Rightarrow> string list" where
  "split_slash [] = [[]]"
| "split_slash (c # cs) =
     (if c = CHR ''/'' then [] # split_slash cs
      else case split_slash cs of [] \<Rightarrow> [[c]] | l # ls \<Rightarrow> (c # l) # ls)"

fun join_slash :: "string list \<Rightarrow> string" where
  "join_slash [] = []"
| "join_slash [l] = l"
| "join_slash (l # ls) = l @ CHR ''/'' # join_slash ls"

text \<open>The offsets that levels laid out from \<open>n\<close> with one separator each must have.\<close>

fun with_offsets :: "nat \<Rightarrow> string list \<Rightarrow> ws_topic_levels" where
  "with_offsets n [] = []"
| "with_offsets n (l # ls) = (n, l) # with_offsets (n + length l + 1) ls"

lemma split_slash_nonempty [simp]: "split_slash s \<noteq> []"
  by (induction s) (auto split: list.splits)

lemma map_snd_with_offsets [simp]: "map snd (with_offsets n ls) = ls"
  by (induction ls arbitrary: n) auto

lemma length_with_offsets [simp]: "length (with_offsets n ls) = length ls"
  by (induction ls arbitrary: n) auto

lemma with_offsets_memD: "(a, b) \<in> set (with_offsets n ls) \<Longrightarrow> b \<in> set ls"
  by (induction ls arbitrary: n) auto

lemma join_split_slash: "join_slash (split_slash s) = s"
proof (induction s)
  case Nil
  show ?case by simp
next
  case (Cons c cs)
  obtain l ls where s: "split_slash cs = l # ls"
    by (meson list.exhaust split_slash_nonempty)
  show ?case
    using Cons s by (cases ls) auto
qed

lemma split_slash_no_slash: "l \<in> set (split_slash s) \<Longrightarrow> CHR ''/'' \<notin> set l"
  by (induction s arbitrary: l) (auto split: list.splits if_splits)

lemma split_slash_append_plain:
  "CHR ''/'' \<notin> set l \<Longrightarrow> split_slash (l @ s) =
     (l @ hd (split_slash s)) # tl (split_slash s)"
proof (induction l)
  case Nil
  show ?case by (cases "split_slash s") auto
qed auto

lemma split_slash_plain: "CHR ''/'' \<notin> set l \<Longrightarrow> split_slash l = [l]"
  using split_slash_append_plain [of l "[]"] by simp

lemma split_join_slash:
  "ls \<noteq> [] \<Longrightarrow> \<forall>l\<in>set ls. CHR ''/'' \<notin> set l \<Longrightarrow> split_slash (join_slash ls) = ls"
  by (induction ls rule: join_slash.induct)
     (auto simp: split_slash_plain split_slash_append_plain)

lemma ws_topic_split_loop_eq:
  assumes "CHR ''/'' \<notin> set cur" "length out \<le> WS_TOPIC_MAX_LEVELS"
  shows "ws_topic_split_loop start cur s out =
    (let ls = split_slash (cur @ s)
     in if length out + length ls \<le> WS_TOPIC_MAX_LEVELS
        then Some (out @ with_offsets start ls) else None)"
  using assms
proof (induction start cur s out rule: ws_topic_split_loop.induct)
  case (1 start cur out)
  then show ?case by (auto simp: split_slash_plain Let_def)
next
  case (2 start cur c cs out)
  show ?case
  proof (cases "c = CHR ''/''")
    case True
    show ?thesis
    proof (cases "length out = WS_TOPIC_MAX_LEVELS")
      case True
      with \<open>c = CHR ''/''\<close> "2.prems" show ?thesis
        by (simp add: split_slash_append_plain Let_def)
    next
      case False
      with \<open>c = CHR ''/''\<close> "2.prems" have
        "ws_topic_split_loop (start + length cur + 1) [] cs (out @ [(start, cur)]) =
          (let ls = split_slash ([] @ cs)
           in if length (out @ [(start, cur)]) + length ls \<le> WS_TOPIC_MAX_LEVELS
              then Some ((out @ [(start, cur)]) @ with_offsets (start + length cur + 1) ls)
              else None)"
        by (intro "2.IH"(2)) auto
      with False \<open>c = CHR ''/''\<close> "2.prems" show ?thesis
        by (simp add: split_slash_append_plain Let_def)
    qed
  next
    case False
    with "2.prems" have "CHR ''/'' \<notin> set (cur @ [c])" by auto
    with "2.IH"(1) False "2.prems" show ?thesis by simp
  qed
qed

lemma ws_topic_split_eq:
  "ws_topic_split t =
     (if t \<noteq> [] \<and> length (split_slash t) \<le> WS_TOPIC_MAX_LEVELS
      then Some (with_offsets 0 (split_slash t)) else None)"
  by (simp add: ws_topic_split_def ws_topic_split_loop_eq Let_def)

lemma ws_topic_split_SomeD:
  assumes "ws_topic_split t = Some ls"
  shows "map snd ls = split_slash t" "t \<noteq> []" "length ls \<le> WS_TOPIC_MAX_LEVELS"
  using assms by (auto simp: ws_topic_split_eq split: if_splits)

lemma ws_topic_split_inj:
  assumes "ws_topic_split f = Some ls" "ws_topic_split g = Some ls'" "map snd ls = map snd ls'"
  shows "f = g"
  using assms by (metis join_split_slash ws_topic_split_SomeD(1))

lemma length_split_slash: "length (split_slash s) = count_list s (CHR ''/'') + 1"
  by (induction s) (auto split: list.splits)

lemma mem_split_slash:
  "c \<noteq> CHR ''/'' \<Longrightarrow> (\<exists>l\<in>set (split_slash s). c \<in> set l) \<longleftrightarrow> c \<in> set s"
proof (induction s)
  case (Cons d cs)
  obtain l ls where "split_slash cs = l # ls"
    by (meson list.exhaust split_slash_nonempty)
  with Cons show ?case by (simp add: disj_assoc)
qed simp

text \<open>
  C8. \<open>ws_topic_split\<close> agrees with splitting at every \<open>'/'\<close>: it succeeds exactly on the
  non-empty topics with fewer than 128 separators, joining the levels it returns gives
  the topic back, no level contains a separator, and every level is found in the
  topic at its recorded offset.
\<close>

theorem ws_topic_split_correct:
  "ws_topic_split t = Some ls \<longleftrightarrow>
     t \<noteq> [] \<and> count_list t (CHR ''/'') < WS_TOPIC_MAX_LEVELS \<and>
     join_slash (map snd ls) = t \<and> ls \<noteq> [] \<and> list_all (\<lambda>l. CHR ''/'' \<notin> set (snd l)) ls \<and>
     ls = with_offsets 0 (map snd ls)"
proof
  assume "ws_topic_split t = Some ls"
  then show "t \<noteq> [] \<and> count_list t (CHR ''/'') < WS_TOPIC_MAX_LEVELS \<and>
     join_slash (map snd ls) = t \<and> ls \<noteq> [] \<and> list_all (\<lambda>l. CHR ''/'' \<notin> set (snd l)) ls \<and>
     ls = with_offsets 0 (map snd ls)"
    by (auto simp: ws_topic_split_eq length_split_slash join_split_slash list_all_iff split: if_splits
      dest: split_slash_no_slash dest!: with_offsets_memD)
       (metis length_with_offsets list.size(3) nat.distinct(1) length_split_slash Suc_eq_plus1)?
next
  assume A: "t \<noteq> [] \<and> count_list t (CHR ''/'') < WS_TOPIC_MAX_LEVELS \<and>
     join_slash (map snd ls) = t \<and> ls \<noteq> [] \<and> list_all (\<lambda>l. CHR ''/'' \<notin> set (snd l)) ls \<and>
     ls = with_offsets 0 (map snd ls)"
  then have "split_slash t = map snd ls"
    using split_join_slash [of "map snd ls"] by (auto simp: list_all_iff)
  with A show "ws_topic_split t = Some ls"
    by (simp add: ws_topic_split_eq flip: length_split_slash)
       (metis One_nat_def Suc_eq_plus1 Suc_leI length_map length_split_slash)
qed

section \<open>Validity\<close>

definition plain_level :: "string \<Rightarrow> bool" where
  "plain_level l \<longleftrightarrow> CHR ''+'' \<notin> set l \<and> CHR ''#'' \<notin> set l"

lemma plain_level_not_wild: "plain_level l \<Longrightarrow> \<not> is_plus l \<and> \<not> is_hash l"
  by (auto simp: plain_level_def is_plus_def is_hash_def)

lemma ws_topic_check_loop_name:
  "ws_topic_check_loop False ls \<longleftrightarrow> (\<forall>l\<in>set ls. plain_level (snd l))"
  by (induction "False" ls rule: ws_topic_check_loop.induct)
     (auto simp: plain_level_def is_plus_def is_hash_def)

lemma ws_topic_check_loop_filter:
  "ws_topic_check_loop True ls \<longleftrightarrow>
     (\<forall>i<length ls. is_plus (snd (ls ! i)) \<or> plain_level (snd (ls ! i)) \<or>
        is_hash (snd (ls ! i)) \<and> Suc i = length ls)"
proof (induction "True" ls rule: ws_topic_check_loop.induct)
  case (2 off level ls)
  have all: "(\<forall>i<length ((off, level) # ls). P i) \<longleftrightarrow> P 0 \<and> (\<forall>i<length ls. P (Suc i))" for P
    by (auto simp: less_Suc_eq_0_disj)
  show ?case
    unfolding all using 2
    by (auto simp: plain_level_def is_plus_def is_hash_def)
qed simp

text \<open>
  A publish name is accepted exactly when it is non-empty, has fewer than 128
  separators and contains no wildcard byte anywhere.
\<close>

theorem ws_topic_is_valid_name_iff:
  "ws_topic_is_valid_name t \<longleftrightarrow>
     t \<noteq> [] \<and> count_list t (CHR ''/'') < WS_TOPIC_MAX_LEVELS \<and>
     CHR ''+'' \<notin> set t \<and> CHR ''#'' \<notin> set t"
proof -
  have "(\<forall>l\<in>set (split_slash t). plain_level l) \<longleftrightarrow> CHR ''+'' \<notin> set t \<and> CHR ''#'' \<notin> set t"
    using mem_split_slash [of "CHR ''+''" t] mem_split_slash [of "CHR ''#''" t]
    unfolding plain_level_def by simp blast
  moreover have "(\<forall>l\<in>set (with_offsets 0 (split_slash t)). plain_level (snd l)) \<longleftrightarrow>
      (\<forall>l\<in>set (map snd (with_offsets 0 (split_slash t))). plain_level l)"
    by (simp only: set_map ball_simps)
  ultimately have wild: "(\<forall>l\<in>set (with_offsets 0 (split_slash t)). plain_level (snd l)) \<longleftrightarrow>
      CHR ''+'' \<notin> set t \<and> CHR ''#'' \<notin> set t"
    by (simp only: map_snd_with_offsets)
  show ?thesis
    by (simp add: ws_topic_is_valid_name_def ws_topic_check_def ws_topic_split_eq
        ws_topic_check_loop_name length_split_slash wild Suc_le_eq)
qed

text \<open>
  C9. A subscribe filter is accepted exactly when it splits and every level is a lone
  \<open>+\<close>, a level with no wildcard byte, or a lone \<open>#\<close> in last position.
\<close>

theorem ws_topic_is_valid_filter_iff:
  "ws_topic_is_valid_filter t \<longleftrightarrow>
     t \<noteq> [] \<and> length (split_slash t) \<le> WS_TOPIC_MAX_LEVELS \<and>
     (\<forall>i<length (split_slash t). let l = split_slash t ! i in
        l = ''+'' \<or> plain_level l \<or> l = ''#'' \<and> Suc i = length (split_slash t))"
proof -
  have nth: "snd (with_offsets 0 xs ! i) = xs ! i" if "i < length xs" for xs i
    using that by (metis length_with_offsets map_snd_with_offsets nth_map)
  show ?thesis
    by (auto simp: ws_topic_is_valid_filter_def ws_topic_check_def ws_topic_split_eq Let_def
        ws_topic_check_loop_filter nth is_plus_def is_hash_def)
qed

theorem ws_topic_is_valid_filter_iff_witness:
  "ws_topic_is_valid_filter ''a/+/#'' \<and> \<not> ws_topic_is_valid_filter ''a/#/b''"
  by (simp only: ws_topic_is_valid_filter_iff)
     (simp add: WS_TOPIC_MAX_LEVELS_def plain_level_def less_Suc_eq numeral_2_eq_2 numeral_3_eq_3 All_less_Suc2 Let_def)

section \<open>Matching and interest\<close>

text \<open>MQTT matching of filter levels against topic levels: \<open>+\<close> stands for one level, a
  final \<open>#\<close> for any number of levels, anything else for itself.\<close>

fun mqtt_match :: "string list \<Rightarrow> string list \<Rightarrow> bool" where
  "mqtt_match [] ts \<longleftrightarrow> ts = []"
| "mqtt_match (f # fs) ts \<longleftrightarrow>
     (if is_hash f then fs = []
      else case ts of [] \<Rightarrow> False
        | t # ts' \<Rightarrow> (is_plus f \<or> f = t) \<and> mqtt_match fs ts')"

definition topic_matches :: "string \<Rightarrow> string \<Rightarrow> bool" where
  "topic_matches flt topic \<longleftrightarrow>
     (case (ws_topic_split flt, ws_topic_split topic) of
        (Some fs, Some ts) \<Rightarrow> mqtt_match (map snd fs) (map snd ts)
      | _ \<Rightarrow> False)"

abbreviation literal_level :: "string \<Rightarrow> bool" where
  "literal_level l \<equiv> \<not> is_plus l \<and> \<not> is_hash l"

lemma mqtt_match_literal_prefix:
  "mqtt_match fs ts \<Longrightarrow>
     takeWhile literal_level fs = take (length (takeWhile literal_level fs)) ts"
  by (induction fs ts rule: mqtt_match.induct) (auto split: list.splits if_splits)

lemma ws_topic_interest_prefix_loop_eq:
  "ws_topic_interest_prefix_loop pre (with_offsets n fs) =
     (let k = takeWhile literal_level fs in if k = [] then pre else n + length (join_slash k))"
proof (induction fs arbitrary: n pre)
  case (Cons f fs)
  then show ?case by (cases "takeWhile literal_level fs") (auto simp: Let_def)
qed simp

lemma level_ends_eq:
  "map (\<lambda>(off, l). off + length l) (with_offsets n ts) =
     map (\<lambda>i. n + length (join_slash (take (Suc i) ts))) [0..<length ts]"
proof (induction ts arbitrary: n)
  case (Cons t ts)
  have shift: "map f [Suc 0..<Suc m] = map (\<lambda>i. f (Suc i)) [0..<m]" for f :: "nat \<Rightarrow> nat" and m
    by (simp add: map_Suc_upt [symmetric] del: upt_Suc)
  have "n + length (join_slash (take (Suc (Suc i)) (t # ts))) =
      Suc (n + length t) + length (join_slash (take (Suc i) ts))" if "i < length ts" for i
    using that by (cases ts) auto
  then show ?case
    by (simp add: Cons.IH upt_conv_Cons [of 0 "Suc (length ts)"] shift del: upt_Suc)
qed simp

lemma join_slash_take_prefix: "prefix (join_slash (take k ls)) (join_slash ls)"
proof (induction ls arbitrary: k rule: join_slash.induct)
  case (2 l)
  then show ?case by (cases k) auto
next
  case (3 l v va)
  show ?case
  proof (cases k)
    case (Suc k')
    with "3.IH" [of k'] show ?thesis by (cases k') auto
  qed simp
qed simp

lemma ws_topic_prefixes_memI:
  assumes "ws_topic_split t = Some ts" "k \<le> length ts"
  shows "\<exists>ps. ws_topic_prefixes t = Some ps \<and> length (join_slash (take k (map snd ts))) \<in> set ps"
proof (cases k)
  case 0
  with assms show ?thesis by (simp add: ws_topic_prefixes_def)
next
  case (Suc i)
  from assms(1) have ts: "ts = with_offsets 0 (map snd ts)"
    by (simp add: ws_topic_split_correct)
  have "length (join_slash (take k (map snd ts))) \<in>
      set (map (\<lambda>(off, l). off + length l) (with_offsets 0 (map snd ts)))"
    unfolding level_ends_eq using Suc assms(2) by auto
  with assms(1) show ?thesis by (simp add: ws_topic_prefixes_def flip: ts)
qed

lemma interest_prefix_agrees:
  assumes "topic_matches f t"
  shows "\<exists>ps. ws_topic_prefixes t = Some ps \<and> ws_topic_interest_prefix f \<in> set ps \<and>
    take (ws_topic_interest_prefix f) f = take (ws_topic_interest_prefix f) t"
proof -
  from assms obtain fs ts where
    fs: "ws_topic_split f = Some fs" and ts: "ws_topic_split t = Some ts" and
    m: "mqtt_match (map snd fs) (map snd ts)"
    by (auto simp: topic_matches_def split: option.splits)
  define k where "k = takeWhile literal_level (map snd fs)"
  have kt: "k = take (length k) (map snd ts)"
    unfolding k_def by (rule mqtt_match_literal_prefix [OF m])
  have kf: "k = take (length k) (map snd fs)"
    unfolding k_def by (rule takeWhile_eq_take)
  have jf: "join_slash (map snd fs) = f" and jt: "join_slash (map snd ts) = t"
    using fs ts by (simp_all add: ws_topic_split_correct)
  have "ws_topic_split f = Some (with_offsets 0 (map snd fs))"
    using fs ws_topic_split_correct [of f fs] by metis
  then have len: "ws_topic_interest_prefix f = length (join_slash k)"
    by (simp add: ws_topic_interest_prefix_def ws_topic_interest_prefix_loop_eq k_def Let_def)
  have "prefix (join_slash k) f" "prefix (join_slash k) t"
    using join_slash_take_prefix [of "length k" "map snd fs"] join_slash_take_prefix [of "length k" "map snd ts"]
    by (simp_all only: kf [symmetric] kt [symmetric] jf jt)
  then have "take (length (join_slash k)) f = take (length (join_slash k)) t"
    by (auto simp: prefix_def)
  moreover have "length k \<le> length ts"
    using arg_cong [OF kt, of length] by simp
  then have "\<exists>ps. ws_topic_prefixes t = Some ps \<and> length (join_slash k) \<in> set ps"
    using ws_topic_prefixes_memI [OF ts, of "length k"] by (simp only: kt [symmetric])
  ultimately show ?thesis by (auto simp: len)
qed

text \<open>
  The interest claim of \<open>ws_topic_tree.h\<close>: when a filter matches a topic, the length of
  the filter's leading literal prefix is one of the topic's level-prefix lengths, and
  the two strings agree on those bytes.
\<close>

theorem interest_prefix_sound:
  assumes "topic_matches f t"
  shows "\<exists>ps. ws_topic_prefixes t = Some ps \<and> ws_topic_interest_prefix f \<in> set ps \<and>
    take (ws_topic_interest_prefix f) f = take (ws_topic_interest_prefix f) t"
  using assms by (rule interest_prefix_agrees)

theorem interest_prefix_sound_witness:
  "topic_matches ''a/+/c'' ''a/b/c'' \<and>
   (\<exists>ps. ws_topic_prefixes ''a/b/c'' = Some ps \<and> ws_topic_interest_prefix ''a/+/c'' \<in> set ps \<and>
    take (ws_topic_interest_prefix ''a/+/c'') ''a/+/c'' =
    take (ws_topic_interest_prefix ''a/+/c'') ''a/b/c'')"
proof -
  have h: "topic_matches ''a/+/c'' ''a/b/c''"
    by (simp add: topic_matches_def ws_topic_split_def WS_TOPIC_MAX_LEVELS_def is_plus_def is_hash_def)
  show ?thesis using h interest_prefix_sound [OF h] by blast
qed

end
