(* ===== verification/Topic_Interest.thy ===== *)
theory Topic_Interest
  imports Topic_Filter "HOL-Library.Multiset"
begin

unbundle bit_operations_syntax

text \<open>
  The interest filter of \<open>src/websocket/topic_hub.c\<close> (section \<open>interest\<close>): one counting
  Bloom filter per worker slot, keyed by the literal prefixes of the filters the
  worker holds, and probed by publishers with the level-prefixes of a topic.

  \<open>zend_inline_hash_func\<close> belongs to the PHP engine; it is the parameter \<open>hf\<close> of the
  definitions below, and no law about it is needed.  The counters are C \<open>int\<close>s and
  are modelled by \<^typ>\<open>int\<close>; \<open>interest_counter_bounds\<close> below gives the range they stay in.
  A \<open>NULL\<close> \<open>hub->interest[slot]\<close> is \<^const>\<open>None\<close>.
\<close>

definition WS_INTEREST_BUCKETS :: nat where
  "WS_INTEREST_BUCKETS = 1024"

definition WS_INTEREST_PROBES :: nat where
  "WS_INTEREST_PROBES = 3"

definition fnv1a :: "string \<Rightarrow> u32" where
  "fnv1a key = foldl (\<lambda>h2 c. (h2 XOR of_nat (code c)) * 16777619) 2166136261 key"

definition ws_interest_probe :: "(string \<Rightarrow> u32) \<Rightarrow> string \<Rightarrow> u32 list" where
  "ws_interest_probe hf key =
     (let h1 = hf key; h2 = fnv1a key OR 1
      in map (\<lambda>i. (h1 + of_nat i * h2) AND (of_nat WS_INTEREST_BUCKETS - 1))
             [0..<WS_INTEREST_PROBES])"

definition counter_add :: "int \<Rightarrow> u32 \<Rightarrow> int list \<Rightarrow> int list" where
  "counter_add delta b cs = cs[unat b := cs ! unat b + delta]"

definition ws_interest_bump ::
    "(string \<Rightarrow> u32) \<Rightarrow> int list option \<Rightarrow> string \<Rightarrow> nat \<Rightarrow> int \<Rightarrow> int list option" where
  "ws_interest_bump hf slot flt prefix_len delta =
     (case slot of None \<Rightarrow> None
      | Some counters \<Rightarrow>
          Some (fold (counter_add delta) (ws_interest_probe hf (take prefix_len flt)) counters))"

definition topic_hub_interest_add ::
    "(string \<Rightarrow> u32) \<Rightarrow> int list option \<Rightarrow> string \<Rightarrow> nat \<Rightarrow> int list option" where
  "topic_hub_interest_add hf slot flt prefix_len = ws_interest_bump hf slot flt prefix_len 1"

definition topic_hub_interest_remove ::
    "(string \<Rightarrow> u32) \<Rightarrow> int list option \<Rightarrow> string \<Rightarrow> nat \<Rightarrow> int list option" where
  "topic_hub_interest_remove hf slot flt prefix_len = ws_interest_bump hf slot flt prefix_len (-1)"

text \<open>\<open>ws_interest_publish\<close> of \<open>ws_topic_tree.c\<close>.\<close>

definition ws_interest_publish ::
    "(string \<Rightarrow> u32) \<Rightarrow> int list option \<Rightarrow> string \<Rightarrow> bool \<Rightarrow> int list option" where
  "ws_interest_publish hf slot flt joining =
     (let pre = ws_topic_interest_prefix flt
      in if joining then topic_hub_interest_add hf slot flt pre
         else topic_hub_interest_remove hf slot flt pre)"

text \<open>\<open>ws_interest_t\<close>: the probe rows of every level-prefix; \<open>count == 0\<close> is the empty list.\<close>

definition ws_interest_build :: "(string \<Rightarrow> u32) \<Rightarrow> string \<Rightarrow> u32 list list" where
  "ws_interest_build hf topic =
     (case ws_topic_prefixes topic of None \<Rightarrow> []
      | Some lens \<Rightarrow> map (\<lambda>n. ws_interest_probe hf (take n topic)) lens)"

definition ws_interest_matches :: "int list option \<Rightarrow> u32 list list \<Rightarrow> bool" where
  "ws_interest_matches slot interest =
     (case slot of None \<Rightarrow> True
      | Some counters \<Rightarrow>
          if interest = [] then True
          else list_ex (list_all (\<lambda>b. counters ! unat b \<noteq> 0)) interest)"

section \<open>Probes\<close>

lemma length_ws_interest_probe [simp]: "length (ws_interest_probe hf key) = WS_INTEREST_PROBES"
  by (simp add: ws_interest_probe_def Let_def)

lemma ws_interest_probe_in_range:
  "b \<in> set (ws_interest_probe hf key) \<Longrightarrow> unat b < WS_INTEREST_BUCKETS"
proof -
  have "unat (x AND 1023) < 1024" for x :: u32
  proof -
    have "unat (x AND 1023) \<le> unat (1023 :: u32)"
      by (rule word_and_le1 [THEN word_le_nat_alt [THEN iffD1]])
    then show ?thesis by simp
  qed
  then show "b \<in> set (ws_interest_probe hf key) \<Longrightarrow> unat b < WS_INTEREST_BUCKETS"
    by (auto simp: ws_interest_probe_def WS_INTEREST_BUCKETS_def Let_def)
qed

section \<open>Counting\<close>

lemma length_fold_counter_add [simp]: "length (fold (counter_add d) bs cs) = length cs"
  by (induction bs arbitrary: cs) (auto simp: counter_add_def)

lemma nth_fold_counter_add:
  "\<forall>b\<in>set bs. unat b < length cs \<Longrightarrow> n < length cs \<Longrightarrow>
     fold (counter_add d) bs cs ! n = cs ! n + d * int (count_list (map unat bs) n)"
proof (induction bs arbitrary: cs)
  case (Cons b bs)
  then show ?case by (auto simp: counter_add_def nth_list_update algebra_simps)
qed simp

text \<open>The buckets a subscription filter occupies, and what the counters must hold for the
  multiset \<open>live\<close> of the filters a worker is subscribed through.\<close>

definition filter_buckets :: "(string \<Rightarrow> u32) \<Rightarrow> string \<Rightarrow> nat list" where
  "filter_buckets hf f = map unat (ws_interest_probe hf (take (ws_topic_interest_prefix f) f))"

definition bucket_load :: "(string \<Rightarrow> u32) \<Rightarrow> string multiset \<Rightarrow> nat \<Rightarrow> nat" where
  "bucket_load hf live n = (\<Sum>f\<in>#live. count_list (filter_buckets hf f) n)"

definition counters_for :: "(string \<Rightarrow> u32) \<Rightarrow> string multiset \<Rightarrow> int list \<Rightarrow> bool" where
  "counters_for hf live cs \<longleftrightarrow> length cs = WS_INTEREST_BUCKETS \<and>
     (\<forall>n<WS_INTEREST_BUCKETS. cs ! n = int (bucket_load hf live n))"

definition interest_for :: "(string \<Rightarrow> u32) \<Rightarrow> string multiset \<Rightarrow> int list option \<Rightarrow> bool" where
  "interest_for hf live slot = pred_option (counters_for hf live) slot"

lemma bucket_load_empty [simp]: "bucket_load hf {#} n = 0"
  by (simp add: bucket_load_def)

lemma bucket_load_add [simp]:
  "bucket_load hf (add_mset f live) n = count_list (filter_buckets hf f) n + bucket_load hf live n"
  by (simp add: bucket_load_def)

lemma ws_interest_publish_nth:
  assumes "length cs = WS_INTEREST_BUCKETS" "n < WS_INTEREST_BUCKETS"
  shows "\<exists>cs'. ws_interest_publish hf (Some cs) f joining = Some cs' \<and>
    length cs' = WS_INTEREST_BUCKETS \<and>
    cs' ! n = cs ! n + (if joining then 1 else -1) * int (count_list (filter_buckets hf f) n)"
  using assms
  by (auto simp: ws_interest_publish_def topic_hub_interest_add_def topic_hub_interest_remove_def
      ws_interest_bump_def Let_def filter_buckets_def ws_interest_probe_in_range
      intro!: nth_fold_counter_add [THEN trans])

lemma interest_for_add [inv_intros]:
  assumes "interest_for hf live slot"
  shows "interest_for hf (add_mset f live) (ws_interest_publish hf slot f True)"
proof (cases slot)
  case None
  then show ?thesis
    by (simp add: interest_for_def ws_interest_publish_def topic_hub_interest_add_def
        ws_interest_bump_def Let_def)
next
  case (Some cs)
  obtain cs' where cs': "ws_interest_publish hf (Some cs) f True = Some cs'"
    by (simp add: ws_interest_publish_def topic_hub_interest_add_def ws_interest_bump_def Let_def)
  have "length cs = WS_INTEREST_BUCKETS"
    using assms Some by (simp add: interest_for_def counters_for_def)
  then have "counters_for hf (add_mset f live) cs'"
    using assms Some cs' ws_interest_publish_nth [of cs _ hf f True]
      ws_interest_publish_nth [of cs 0 hf f True]
    by (auto simp: interest_for_def counters_for_def WS_INTEREST_BUCKETS_def)
  with cs' Some show ?thesis by (simp add: interest_for_def)
qed

lemma interest_for_remove [inv_intros]:
  assumes "interest_for hf (add_mset f live) slot"
  shows "interest_for hf live (ws_interest_publish hf slot f False)"
proof (cases slot)
  case None
  then show ?thesis
    by (simp add: interest_for_def ws_interest_publish_def topic_hub_interest_remove_def
        ws_interest_bump_def Let_def)
next
  case (Some cs)
  obtain cs' where cs': "ws_interest_publish hf (Some cs) f False = Some cs'"
    by (simp add: ws_interest_publish_def topic_hub_interest_remove_def ws_interest_bump_def Let_def)
  have "length cs = WS_INTEREST_BUCKETS"
    using assms Some by (simp add: interest_for_def counters_for_def)
  then have "counters_for hf live cs'"
    using assms Some cs' ws_interest_publish_nth [of cs _ hf f False]
      ws_interest_publish_nth [of cs 0 hf f False]
    by (auto simp: interest_for_def counters_for_def WS_INTEREST_BUCKETS_def)
  with cs' Some show ?thesis by (simp add: interest_for_def)
qed

lemma interest_for_init: "interest_for hf {#} (Some (replicate WS_INTEREST_BUCKETS 0))"
  by (simp add: interest_for_def counters_for_def)

lemma counter_le_size:
  "bucket_load hf live n \<le> WS_INTEREST_PROBES * size live"
proof (induction live)
  case (add f live)
  have "count_list (filter_buckets hf f) n \<le> length (filter_buckets hf f)"
    by (rule count_le_length)
  then have "count_list (filter_buckets hf f) n \<le> WS_INTEREST_PROBES"
    by (simp add: filter_buckets_def)
  with add show ?case by simp
qed simp

lemma interest_counter_bounds:
  assumes "interest_for hf live (Some cs)" "n < WS_INTEREST_BUCKETS"
  shows "0 \<le> cs ! n \<and> cs ! n \<le> 3 * int (size live)"
  using assms counter_le_size [of hf live n]
  by (simp add: interest_for_def counters_for_def WS_INTEREST_PROBES_def)

section \<open>No false negatives\<close>

text \<open>The contract between the topic language and the hub's filter: whatever matches must
  be found under one of the keys the publisher derives from the topic.\<close>

locale interest_cover =
  fixes matches :: "'f \<Rightarrow> 't \<Rightarrow> bool"
    and key :: "'f \<Rightarrow> 'k"
    and keys :: "'t \<Rightarrow> 'k list option"
  assumes cover: "matches f t \<Longrightarrow> \<exists>ks. keys t = Some ks \<and> key f \<in> set ks"
begin

lemma probe_hit:
  assumes "matches f t" "hit (key f)"
  shows "\<exists>ks. keys t = Some ks \<and> list_ex hit ks"
  using cover [OF assms(1)] assms(2) by (auto simp: list_ex_iff)

lemma no_key_no_match:
  assumes "keys t = Some ks" "\<not> list_ex hit ks" "\<forall>f\<in>F. hit (key f)" "f \<in> F"
  shows "\<not> matches f t"
  using probe_hit [of f t hit] assms by auto

end

definition topic_key :: "string \<Rightarrow> string" where
  "topic_key f = take (ws_topic_interest_prefix f) f"

definition topic_keys :: "string \<Rightarrow> string list option" where
  "topic_keys t = map_option (map (\<lambda>n. take n t)) (ws_topic_prefixes t)"

interpretation topic_interest: interest_cover topic_matches topic_key topic_keys
proof
  fix f t
  assume "topic_matches f t"
  then show "\<exists>ks. topic_keys t = Some ks \<and> topic_key f \<in> set ks"
    using interest_prefix_agrees [of f t] by (force simp: topic_keys_def topic_key_def)
qed

lemma ws_interest_build_keys:
  "topic_keys t = Some ks \<Longrightarrow> ws_interest_build hf t = map (ws_interest_probe hf) ks"
  by (auto simp: ws_interest_build_def topic_keys_def)

lemma live_filter_hit:
  assumes "counters_for hf live cs" "f \<in># live"
  shows "list_all (\<lambda>b. cs ! unat b \<noteq> 0) (ws_interest_probe hf (topic_key f))"
proof -
  have "cs ! unat b \<noteq> 0" if b: "b \<in> set (ws_interest_probe hf (topic_key f))" for b
  proof -
    have "unat b \<in> set (filter_buckets hf f)"
      using b by (simp add: filter_buckets_def topic_key_def)
    then have "0 < count_list (filter_buckets hf f) (unat b)"
      by (simp add: count_list_0_iff flip: neq0_conv)
    also have "\<dots> \<le> bucket_load hf live (unat b)"
      using assms(2) by (auto dest: multi_member_split)
    finally show ?thesis
      using assms(1) ws_interest_probe_in_range [OF b] by (simp add: counters_for_def)
  qed
  then show ?thesis by (simp add: list_all_iff)
qed

lemma ws_interest_no_false_negative:
  assumes "interest_for hf live slot" "f \<in># live" "topic_matches f t"
  shows "ws_interest_matches slot (ws_interest_build hf t)"
proof (cases slot)
  case (Some cs)
  then have cs: "counters_for hf live cs"
    using assms(1) by (simp add: interest_for_def)
  obtain ks where "topic_keys t = Some ks"
    and "list_ex (\<lambda>k. list_all (\<lambda>b. cs ! unat b \<noteq> 0) (ws_interest_probe hf k)) ks"
    using topic_interest.probe_hit [OF assms(3), of
        "\<lambda>k. list_all (\<lambda>b. cs ! unat b \<noteq> 0) (ws_interest_probe hf k)"]
      live_filter_hit [OF cs assms(2)] by blast
  with Some show ?thesis
    by (auto simp: ws_interest_matches_def ws_interest_build_keys list_ex_iff)
qed (simp add: ws_interest_matches_def)

end
