(* ===== verification/Topic_Tree.thy ===== *)
theory Topic_Tree
  imports Topic_Interest
begin

text \<open>
  The per-worker topic tree of \<open>src/websocket/ws_topic_tree.c\<close> (sections \<open>nodes\<close>,
  \<open>sessions\<close>, \<open>tree\<close> and \<open>matching\<close>).

  Nodes live in an explicit store, because subscriptions and the dirty list hold
  pointers to them and the safety of those pointers is a claim of the code.  The
  address of a node is the list of edges that leads to it from the root, so
  \<open>node->parent\<close> is \<^const>\<open>butlast\<close>, \<open>node->kind\<close> and \<open>node->level\<close> are read off the last
  edge, and the pointer fields \<open>plus\<close>, \<open>hash\<close> and the \<open>children\<close> table are recorded by
  which of them are set.  \<open>node->count\<close> is the length of \<open>n_subs\<close>; a tombstone is
  \<^const>\<open>None\<close>.  A session pointer is an index into the worker's session list.
  Reading an address that is not in the store sets \<open>t_fault\<close>: in C it is a use after
  free.
\<close>

datatype edge = Lit string | Plus | Hash

type_synonym addr = "edge list"

record ws_topic_node =
  n_children :: "string list"
  n_plus :: bool
  n_hash :: bool
  n_subs :: "nat option list"
  n_cap :: nat
  n_dead :: nat
  n_dirty :: bool

record ws_topic_sub =
  sub_node :: addr
  sub_filter :: string

record ws_session =
  ws_id :: u64
  topic_mark :: u64
  topics :: "ws_topic_sub list"

record ws_topic_tree =
  t_nodes :: "addr \<rightharpoonup> ws_topic_node"
  t_hub :: "int list option"
  t_mark :: u64
  t_walking :: nat
  t_dirty :: "addr list"
  t_sessions :: "ws_session list"
  t_fault :: bool

section \<open>Nodes\<close>

definition ws_node_new :: ws_topic_node where
  "ws_node_new = \<lparr>n_children = [], n_plus = False, n_hash = False, n_subs = [],
     n_cap = 0, n_dead = 0, n_dirty = False\<rparr>"

definition edge_of :: "string \<Rightarrow> edge" where
  "edge_of level = (if is_plus level then Plus else if is_hash level then Hash else Lit level)"

fun has_link :: "edge \<Rightarrow> ws_topic_node \<Rightarrow> bool" where
  "has_link Plus n = n_plus n"
| "has_link Hash n = n_hash n"
| "has_link (Lit l) n = (l \<in> set (n_children n))"

fun set_link :: "edge \<Rightarrow> ws_topic_node \<Rightarrow> ws_topic_node" where
  "set_link Plus n = n\<lparr>n_plus := True\<rparr>"
| "set_link Hash n = n\<lparr>n_hash := True\<rparr>"
| "set_link (Lit l) n = n\<lparr>n_children := n_children n @ [l]\<rparr>"

fun clear_link :: "edge \<Rightarrow> ws_topic_node \<Rightarrow> ws_topic_node" where
  "clear_link Plus n = n\<lparr>n_plus := False\<rparr>"
| "clear_link Hash n = n\<lparr>n_hash := False\<rparr>"
| "clear_link (Lit l) n = n\<lparr>n_children := removeAll l (n_children n)\<rparr>"

definition put_node :: "ws_topic_tree \<Rightarrow> addr \<Rightarrow> ws_topic_node \<Rightarrow> ws_topic_tree" where
  "put_node t a n = t\<lparr>t_nodes := (t_nodes t)(a \<mapsto> n)\<rparr>"

definition fault :: "ws_topic_tree \<Rightarrow> ws_topic_tree" where
  "fault t = t\<lparr>t_fault := True\<rparr>"

definition ws_node_child ::
    "ws_topic_tree \<Rightarrow> addr \<Rightarrow> string \<Rightarrow> bool \<Rightarrow> ws_topic_tree \<times> addr option" where
  "ws_node_child t parent level create =
     (case t_nodes t parent of None \<Rightarrow> (fault t, None)
      | Some p \<Rightarrow>
          (let e = edge_of level in
           if has_link e p then (t, Some (parent @ [e]))
           else if \<not> create then (t, None)
           else (put_node (put_node t parent (set_link e p)) (parent @ [e]) ws_node_new,
                 Some (parent @ [e]))))"

text \<open>\<open>ws_node_free\<close> frees a node and, through \<open>ws_node_free_contents\<close>, everything below it.\<close>

definition ws_node_free :: "ws_topic_tree \<Rightarrow> addr \<Rightarrow> ws_topic_tree" where
  "ws_node_free t a = t\<lparr>t_nodes := (\<lambda>b. if prefix a b then None else t_nodes t b)\<rparr>"

definition ws_node_is_empty :: "ws_topic_node \<Rightarrow> bool" where
  "ws_node_is_empty n \<longleftrightarrow>
     n_subs n = [] \<and> \<not> n_plus n \<and> \<not> n_hash n \<and> n_children n = []"

function ws_node_prune :: "ws_topic_tree \<Rightarrow> addr \<Rightarrow> ws_topic_tree" where
  "ws_node_prune t a =
     (case t_nodes t a of None \<Rightarrow> fault t
      | Some n \<Rightarrow>
          if a \<noteq> [] \<and> ws_node_is_empty n then
            (case t_nodes t (butlast a) of None \<Rightarrow> fault t
             | Some p \<Rightarrow>
                 ws_node_prune
                   (ws_node_free (put_node t (butlast a) (clear_link (last a) p)) a)
                   (butlast a))
          else t)"
  by pat_completeness auto
termination
  by (relation "measure (\<lambda>(t, a). length a)") (auto simp: length_greater_0_conv)

declare ws_node_prune.simps [simp del]

definition ws_node_compact :: "ws_topic_node \<Rightarrow> ws_topic_node" where
  "ws_node_compact n =
     (if n_dead n = 0 then n
      else n\<lparr>n_subs := filter (\<lambda>x. x \<noteq> None) (n_subs n), n_dead := 0\<rparr>)"

section \<open>Sessions\<close>

text \<open>The position of the first list cell whose filter is \<open>flt\<close>, or the list's length; the
  two loops over \<open>session->topics\<close> look for it.\<close>

definition sub_index :: "ws_topic_sub list \<Rightarrow> string \<Rightarrow> nat" where
  "sub_index subs flt = length (takeWhile (\<lambda>sub. sub_filter sub \<noteq> flt) subs)"

definition ws_sub_find :: "ws_session \<Rightarrow> string \<Rightarrow> ws_topic_sub option" where
  "ws_sub_find session flt = List.find (\<lambda>sub. sub_filter sub = flt) (topics session)"

definition ws_tree_mark_dirty :: "ws_topic_tree \<Rightarrow> addr \<Rightarrow> ws_topic_tree" where
  "ws_tree_mark_dirty t a =
     (case t_nodes t a of None \<Rightarrow> fault t
      | Some n \<Rightarrow>
          if n_dirty n then t
          else (put_node t a (n\<lparr>n_dirty := True\<rparr>))\<lparr>t_dirty := t_dirty t @ [a]\<rparr>)"

fun ws_tree_settle_loop :: "ws_topic_tree \<Rightarrow> addr list \<Rightarrow> ws_topic_tree" where
  "ws_tree_settle_loop t [] = t"
| "ws_tree_settle_loop t (a # as) =
     (case t_nodes t a of None \<Rightarrow> fault t
      | Some n \<Rightarrow>
          ws_tree_settle_loop
            (ws_node_prune (put_node t a (ws_node_compact (n\<lparr>n_dirty := False\<rparr>))) a) as)"

definition ws_tree_settle :: "ws_topic_tree \<Rightarrow> ws_topic_tree" where
  "ws_tree_settle t = (ws_tree_settle_loop t (t_dirty t))\<lparr>t_dirty := []\<rparr>"

definition ws_node_detach :: "ws_topic_tree \<Rightarrow> addr \<Rightarrow> nat \<Rightarrow> ws_topic_tree" where
  "ws_node_detach t a session =
     (case t_nodes t a of None \<Rightarrow> fault t
      | Some n \<Rightarrow>
          (let idx = length (takeWhile (\<lambda>x. x \<noteq> Some session) (n_subs n)) in
           if idx = length (n_subs n) then t
           else if t_walking t > 0 then
             ws_tree_mark_dirty
               (put_node t a (n\<lparr>n_subs := (n_subs n)[idx := None], n_dead := n_dead n + 1\<rparr>)) a
           else
             ws_node_prune
               (put_node t a (n\<lparr>n_subs := butlast ((n_subs n)[idx := last (n_subs n)])\<rparr>)) a))"

section \<open>Tree operations\<close>

definition ws_topic_tree_create :: "int list option \<Rightarrow> ws_session list \<Rightarrow> ws_topic_tree" where
  "ws_topic_tree_create hub sessions =
     \<lparr>t_nodes = [[] \<mapsto> ws_node_new], t_hub = hub, t_mark = 0, t_walking = 0,
      t_dirty = [], t_sessions = sessions, t_fault = False\<rparr>"

definition ws_topic_tree_free :: "ws_topic_tree \<Rightarrow> ws_topic_tree" where
  "ws_topic_tree_free t = (ws_node_free t [])\<lparr>t_dirty := []\<rparr>"

definition ws_sub_count :: "ws_session \<Rightarrow> nat" where
  "ws_sub_count session = length (topics session)"

definition put_topics :: "ws_topic_tree \<Rightarrow> nat \<Rightarrow> ws_topic_sub list \<Rightarrow> ws_topic_tree" where
  "put_topics t s subs =
     t\<lparr>t_sessions := (t_sessions t)[s := (t_sessions t ! s)\<lparr>topics := subs\<rparr>]\<rparr>"

fun ws_topic_descend :: "ws_topic_tree \<Rightarrow> addr \<Rightarrow> string list \<Rightarrow> ws_topic_tree \<times> addr" where
  "ws_topic_descend t a [] = (t, a)"
| "ws_topic_descend t a (l # ls) =
     (case ws_node_child t a l True of
        (t', None) \<Rightarrow> (fault t', a)
      | (t', Some a') \<Rightarrow> ws_topic_descend t' a' ls)"

text \<open>\<open>node->subs[node->count++] = session\<close>, growing the array first when it is full.\<close>

definition ws_node_push :: "ws_topic_tree \<Rightarrow> addr \<Rightarrow> nat \<Rightarrow> ws_topic_tree" where
  "ws_node_push t a s =
     (case t_nodes t a of None \<Rightarrow> fault t
      | Some n \<Rightarrow>
          (let cap = (if length (n_subs n) = n_cap n
                      then (if n_cap n \<noteq> 0 then n_cap n * 2 else 4) else n_cap n)
           in put_node t a (n\<lparr>n_cap := cap, n_subs := n_subs n @ [Some s]\<rparr>)))"

definition ws_topic_subscribe ::
    "(string \<Rightarrow> u32) \<Rightarrow> ws_topic_tree \<Rightarrow> nat \<Rightarrow> string \<Rightarrow> nat \<Rightarrow> ws_topic_tree \<times> bool" where
  "ws_topic_subscribe hf t s flt quota =
     (case ws_topic_split flt of None \<Rightarrow> (t, False)
      | Some levels \<Rightarrow>
          (let session = t_sessions t ! s in
           if ws_sub_find session flt \<noteq> None then (t, True)
           else if quota \<noteq> 0 \<and> ws_sub_count session \<ge> quota then (t, False)
           else
             (case ws_topic_descend t [] (map snd levels) of
                (t1, a) \<Rightarrow>
                  (let t2 = ws_node_push t1 a s;
                       t3 = put_topics t2 s (\<lparr>sub_node = a, sub_filter = flt\<rparr> # topics session)
                   in (t3\<lparr>t_hub := ws_interest_publish hf (t_hub t3) flt True\<rparr>, True)))))"

text \<open>\<open>ws_sub_drop\<close>, the list cell given by its position.\<close>

definition ws_sub_drop :: "(string \<Rightarrow> u32) \<Rightarrow> ws_topic_tree \<Rightarrow> nat \<Rightarrow> nat \<Rightarrow> ws_topic_tree" where
  "ws_sub_drop hf t s k =
     (let subs = topics (t_sessions t ! s); sub = subs ! k;
          t1 = ws_node_detach t (sub_node sub) s;
          t2 = put_topics t1 s (take k subs @ drop (Suc k) subs)
      in t2\<lparr>t_hub := ws_interest_publish hf (t_hub t2) (sub_filter sub) False\<rparr>)"

text \<open>\<open>attached\<close> is \<open>tree != NULL\<close>.\<close>

definition ws_topic_unsubscribe ::
    "(string \<Rightarrow> u32) \<Rightarrow> bool \<Rightarrow> ws_topic_tree \<Rightarrow> nat \<Rightarrow> string \<Rightarrow> ws_topic_tree \<times> bool" where
  "ws_topic_unsubscribe hf attached t s flt =
     (if \<not> attached then (t, False)
      else let subs = topics (t_sessions t ! s); k = sub_index subs flt
           in if k < length subs then (ws_sub_drop hf t s k, True) else (t, False))"

lemma t_sessions_put_node [simp]: "t_sessions (put_node t a n) = t_sessions t"
  by (simp add: put_node_def)

lemma t_sessions_fault [simp]: "t_sessions (fault t) = t_sessions t"
  by (simp add: fault_def)

lemma t_sessions_prune [simp]: "t_sessions (ws_node_prune t a) = t_sessions t"
proof (induction t a rule: ws_node_prune.induct)
  case (1 t a)
  then show ?case
    by (subst ws_node_prune.simps) (auto simp: ws_node_free_def split: option.split)
qed

lemma t_sessions_mark_dirty [simp]: "t_sessions (ws_tree_mark_dirty t a) = t_sessions t"
  by (simp add: ws_tree_mark_dirty_def split: option.split)

lemma t_sessions_detach [simp]: "t_sessions (ws_node_detach t a s) = t_sessions t"
  by (simp add: ws_node_detach_def Let_def split: option.split)

lemma t_sessions_sub_drop:
  "t_sessions (ws_sub_drop hf t s k) =
     (t_sessions t)[s := (t_sessions t ! s)\<lparr>topics :=
        take k (topics (t_sessions t ! s)) @ drop (Suc k) (topics (t_sessions t ! s))\<rparr>]"
  by (simp add: ws_sub_drop_def Let_def put_topics_def)

function ws_topic_unsubscribe_all ::
    "(string \<Rightarrow> u32) \<Rightarrow> bool \<Rightarrow> ws_topic_tree \<Rightarrow> nat \<Rightarrow> ws_topic_tree" where
  "ws_topic_unsubscribe_all hf attached t s =
     (if s < length (t_sessions t) \<and> topics (t_sessions t ! s) \<noteq> [] then
        ws_topic_unsubscribe_all hf attached
          (if attached then ws_sub_drop hf t s 0
           else put_topics t s (tl (topics (t_sessions t ! s)))) s
      else t)"
  by pat_completeness auto
termination
  by (relation "measure (\<lambda>(hf, attached, t, s). length (topics (t_sessions t ! s)))")
     (auto simp: t_sessions_sub_drop put_topics_def)

declare ws_topic_unsubscribe_all.simps [simp del]

definition ws_topic_list :: "ws_session \<Rightarrow> string list" where
  "ws_topic_list session = map sub_filter (topics session)"

section \<open>Matching\<close>

text \<open>
  \<open>ws_session_try_send\<close> is the transport's: whether it accepted the frame, and the
  sessions whose teardown (\<open>ws_topic_unsubscribe_all\<close>) ran before it returned, are the
  parameter \<open>snd_fn\<close>.  \<open>v_sent\<close> is the sequence of the sessions it was called for.
\<close>

type_synonym try_send = "nat \<Rightarrow> bool \<times> nat list"

record ws_topic_visit_t =
  v_except :: u64
  v_deliver :: bool
  v_hits :: nat
  v_sent :: "nat list"

type_synonym walk_state = "ws_topic_tree \<times> ws_topic_visit_t"

definition stamp :: "ws_topic_tree \<Rightarrow> nat \<Rightarrow> ws_topic_tree" where
  "stamp t s = t\<lparr>t_sessions := (t_sessions t)[s := (t_sessions t ! s)\<lparr>topic_mark := t_mark t\<rparr>]\<rparr>"

text \<open>One iteration of the loop of \<open>ws_topic_visit\<close>.\<close>

definition ws_topic_visit_slot ::
    "(string \<Rightarrow> u32) \<Rightarrow> try_send \<Rightarrow> addr \<Rightarrow> nat \<Rightarrow> walk_state \<Rightarrow> walk_state" where
  "ws_topic_visit_slot hf snd_fn a i w =
     (case w of (t, v) \<Rightarrow>
       (case t_nodes t a of None \<Rightarrow> (fault t, v)
        | Some n \<Rightarrow>
            if i \<ge> length (n_subs n) then (t, v)
            else (case n_subs n ! i of None \<Rightarrow> (t, v)
              | Some s \<Rightarrow>
                  if ws_id (t_sessions t ! s) = v_except v then (t, v)
                  else if topic_mark (t_sessions t ! s) = t_mark t then (t, v)
                  else if \<not> v_deliver v then (stamp t s, v\<lparr>v_hits := v_hits v + 1\<rparr>)
                  else
                    (case snd_fn s of (ok, torn) \<Rightarrow>
                      (fold (\<lambda>u t. ws_topic_unsubscribe_all hf True t u) torn (stamp t s),
                       v\<lparr>v_hits := v_hits v + (if ok then 1 else 0), v_sent := v_sent v @ [s]\<rparr>)))))"

definition ws_topic_visit ::
    "(string \<Rightarrow> u32) \<Rightarrow> try_send \<Rightarrow> addr \<Rightarrow> walk_state \<Rightarrow> walk_state" where
  "ws_topic_visit hf snd_fn a w =
     (case t_nodes (fst w) a of None \<Rightarrow> (fault (fst w), snd w)
      | Some n \<Rightarrow> fold (ws_topic_visit_slot hf snd_fn a) [0..<length (n_subs n)] w)"

text \<open>\<open>if (node->link != NULL) f(node->link)\<close>, the node read afresh each time.\<close>

definition on_link :: "edge \<Rightarrow> addr \<Rightarrow> (walk_state \<Rightarrow> walk_state) \<Rightarrow> walk_state \<Rightarrow> walk_state" where
  "on_link e a f w =
     (case t_nodes (fst w) a of None \<Rightarrow> (fault (fst w), snd w)
      | Some n \<Rightarrow> if has_link e n then f w else w)"

primrec ws_topic_walk ::
    "(string \<Rightarrow> u32) \<Rightarrow> try_send \<Rightarrow> string list \<Rightarrow> addr \<Rightarrow> walk_state \<Rightarrow> walk_state" where
  "ws_topic_walk hf snd_fn [] a w =
     ws_topic_visit hf snd_fn a
       (on_link Hash a (ws_topic_visit hf snd_fn (a @ [Hash])) w)"
| "ws_topic_walk hf snd_fn (l # ls) a w =
     on_link Plus a (ws_topic_walk hf snd_fn ls (a @ [Plus]))
       (on_link (Lit l) a (ws_topic_walk hf snd_fn ls (a @ [Lit l]))
         (on_link Hash a (ws_topic_visit hf snd_fn (a @ [Hash])) w))"

definition ws_topic_match ::
    "(string \<Rightarrow> u32) \<Rightarrow> try_send \<Rightarrow> ws_topic_tree \<Rightarrow> string \<Rightarrow> ws_topic_visit_t \<Rightarrow> walk_state" where
  "ws_topic_match hf snd_fn t topic v =
     (case ws_topic_split topic of None \<Rightarrow> (t, v\<lparr>v_hits := 0\<rparr>)
      | Some levels \<Rightarrow>
          (case ws_topic_walk hf snd_fn (map snd levels) []
                  (t\<lparr>t_mark := t_mark t + 1, t_walking := t_walking t + 1\<rparr>, v) of
             (t1, v1) \<Rightarrow>
               (let t2 = t1\<lparr>t_walking := t_walking t1 - 1\<rparr>
                in (if t_walking t2 = 0 then ws_tree_settle t2 else t2, v1))))"

definition ws_topic_publish ::
    "(string \<Rightarrow> u32) \<Rightarrow> try_send \<Rightarrow> ws_topic_tree \<Rightarrow> string \<Rightarrow> u64 \<Rightarrow> walk_state" where
  "ws_topic_publish hf snd_fn t topic except_id =
     ws_topic_match hf snd_fn t topic
       \<lparr>v_except = except_id, v_deliver = True, v_hits = 0, v_sent = []\<rparr>"

definition ws_topic_count :: "(string \<Rightarrow> u32) \<Rightarrow> ws_topic_tree \<Rightarrow> string \<Rightarrow> walk_state" where
  "ws_topic_count hf t topic =
     ws_topic_match hf (\<lambda>_. (False, [])) t topic
       \<lparr>v_except = 0, v_deliver = False, v_hits = 0, v_sent = []\<rparr>"

end
