(* ===== verification/Topic_Tree_Inv.thy ===== *)
theory Topic_Tree_Inv
  imports Topic_Tree
begin

text \<open>
  Well-formedness of the topic tree and its preservation by every operation of
  \<^theory_text>\<open>Topic_Tree\<close>: the links and the stored nodes agree, no node but the root is
  empty, tombstones are counted and queued, and no operation reads a freed node.
  \<open>shape_ok X D N\<close> is the invariant of the node store \<open>N\<close> while the nodes in \<open>X\<close> may be
  empty and those in \<open>D\<close> hold tombstones; \<open>subs_at N a\<close> is the set of sessions
  subscribed at a node, which is what the structural operations must not change.
\<close>

definition node_ok :: "ws_topic_node \<Rightarrow> bool" where
  "node_ok n \<longleftrightarrow>
     length (n_subs n) \<le> n_cap n \<and> n_dead n = count_list (n_subs n) None \<and>
     distinct (filter (\<lambda>x. x \<noteq> None) (n_subs n)) \<and> distinct (n_children n) \<and>
     list_all literal_level (n_children n) \<and> (n_dirty n \<longleftrightarrow> 0 < n_dead n)"

definition shape_ok :: "addr set \<Rightarrow> addr set \<Rightarrow> (addr \<rightharpoonup> ws_topic_node) \<Rightarrow> bool" where
  "shape_ok X D N \<longleftrightarrow>
     N [] \<noteq> None \<and>
     (\<forall>a e. N (a @ [e]) \<noteq> None \<longleftrightarrow> (\<exists>p. N a = Some p \<and> has_link e p)) \<and>
     (\<forall>a n. N a = Some n \<longrightarrow>
        node_ok n \<and> (a = [] \<or> a \<in> X \<or> \<not> ws_node_is_empty n) \<and> (n_dirty n \<longleftrightarrow> a \<in> D)) \<and>
     (\<forall>a\<in>D. N a \<noteq> None) \<and> finite (dom N)"

definition subs_at :: "(addr \<rightharpoonup> ws_topic_node) \<Rightarrow> addr \<Rightarrow> nat set" where
  "subs_at N a = (case N a of None \<Rightarrow> {} | Some n \<Rightarrow> {s. Some s \<in> set (n_subs n)})"

definition canonical :: "edge \<Rightarrow> bool" where
  "canonical e \<longleftrightarrow> (\<forall>l. e = Lit l \<longrightarrow> literal_level l)"

lemma canonical_edge_of [simp]: "canonical (edge_of l)"
  by (auto simp: canonical_def edge_of_def)

lemma edge_of_inj: "edge_of l = edge_of l' \<longleftrightarrow> l = l'"
  by (auto simp: edge_of_def is_plus_def is_hash_def)

lemma map_edge_of_inj: "map edge_of ls = map edge_of ls' \<longleftrightarrow> ls = ls'"
  by (simp add: inj_def edge_of_inj inj_map_eq_map)

lemma node_ok_new [simp]: "node_ok ws_node_new"
  by (simp add: node_ok_def ws_node_new_def)

lemma has_link_set_link [simp]: "has_link e (set_link e' n) \<longleftrightarrow> e = e' \<or> has_link e n"
  by (cases e; cases e') auto

lemma has_link_clear_link [simp]: "has_link e (clear_link e' n) \<longleftrightarrow> e \<noteq> e' \<and> has_link e n"
  by (cases e; cases e') auto

lemma link_fields [simp]:
  "n_subs (set_link e n) = n_subs n" "n_dirty (set_link e n) = n_dirty n"
  "n_subs (clear_link e n) = n_subs n" "n_dirty (clear_link e n) = n_dirty n"
  by (cases e; simp)+

lemma has_link_new [simp]: "\<not> has_link e ws_node_new"
  by (cases e) (auto simp: ws_node_new_def)

lemma new_node_fields [simp]:
  "n_subs ws_node_new = []" "n_dirty ws_node_new = False" "n_dead ws_node_new = 0"
  by (simp_all add: ws_node_new_def)

lemma node_ok_set_link [simp]:
  "node_ok n \<Longrightarrow> canonical e \<Longrightarrow> \<not> has_link e n \<Longrightarrow> node_ok (set_link e n)"
  by (cases e) (auto simp: node_ok_def canonical_def)

lemma node_ok_clear_link [simp]: "node_ok n \<Longrightarrow> node_ok (clear_link e n)"
  by (cases e) (auto simp: node_ok_def list_all_iff distinct_removeAll)

lemma not_empty_set_link [simp]: "\<not> ws_node_is_empty (set_link e n)"
  by (cases e) (auto simp: ws_node_is_empty_def)

lemma empty_node_links: "ws_node_is_empty n \<longleftrightarrow> n_subs n = [] \<and> (\<forall>e. \<not> has_link e n)"
proof -
  have "(\<forall>e. \<not> has_link e n) \<longleftrightarrow> \<not> n_plus n \<and> \<not> n_hash n \<and> n_children n = []"
  proof
    assume A: "\<forall>e. \<not> has_link e n"
    show "\<not> n_plus n \<and> \<not> n_hash n \<and> n_children n = []"
      using A [rule_format, of Plus] A [rule_format, of Hash] A [rule_format, of "Lit _"]
      by (cases "n_children n") auto
  next
    assume A: "\<not> n_plus n \<and> \<not> n_hash n \<and> n_children n = []"
    have "\<not> has_link e n" for e
      using A by (cases e) auto
    then show "\<forall>e. \<not> has_link e n" by blast
  qed
  then show ?thesis by (auto simp: ws_node_is_empty_def)
qed

lemma dirty_not_empty: "node_ok n \<Longrightarrow> n_dirty n \<Longrightarrow> n_subs n \<noteq> []"
  by (auto simp: node_ok_def)

section \<open>Structure\<close>

lemma shape_okD:
  assumes "shape_ok X D N"
  shows "N [] \<noteq> None"
    and "N (a @ [e]) \<noteq> None \<longleftrightarrow> (\<exists>p. N a = Some p \<and> has_link e p)"
    and "N a = Some n \<Longrightarrow> node_ok n"
    and "N a = Some n \<Longrightarrow> a \<noteq> [] \<Longrightarrow> a \<notin> X \<Longrightarrow> \<not> ws_node_is_empty n"
    and "N a = Some n \<Longrightarrow> n_dirty n \<longleftrightarrow> a \<in> D"
    and "a \<in> D \<Longrightarrow> N a \<noteq> None"
    and "finite (dom N)"
  using assms unfolding shape_ok_def by blast+

lemma shape_prefix_closed:
  assumes "shape_ok X D N" "N (a @ b) \<noteq> None"
  shows "N a \<noteq> None"
  using assms(2)
proof (induction b rule: rev_induct)
  case (snoc e b)
  then have "N ((a @ b) @ [e]) \<noteq> None" by simp
  then have "N (a @ b) \<noteq> None" using shape_okD(2) [OF assms(1), of "a @ b" e] by auto
  then show ?case by (rule snoc.IH)
qed simp

lemma shape_below_empty:
  assumes "shape_ok X D N" "N a = Some n" "ws_node_is_empty n" "b \<noteq> []"
  shows "N (a @ b) = None"
proof (rule ccontr)
  assume "N (a @ b) \<noteq> None"
  moreover obtain e c where "b = e # c" using assms(4) by (cases b) auto
  ultimately have "N ((a @ [e]) @ c) \<noteq> None" by simp
  then have "N (a @ [e]) \<noteq> None" by (rule shape_prefix_closed [OF assms(1)])
  with shape_okD(2) [OF assms(1), of a e] assms(2,3) show False
    by (simp add: empty_node_links)
qed

lemma shape_update:
  assumes "shape_ok X D N" "N a = Some n"
    and "\<And>e. has_link e n' = has_link e n" "node_ok n'"
    and "a \<in> X' \<or> a = [] \<or> \<not> ws_node_is_empty n'" "X \<subseteq> insert a X'"
    and "n_dirty n' \<longleftrightarrow> a \<in> D'" "D' - {a} = D - {a}"
  shows "shape_ok X' D' (N(a \<mapsto> n'))"
proof -
  have D: "b \<in> D' \<longleftrightarrow> b \<in> D" if "b \<noteq> a" for b
    using assms(8) that by auto
  show ?thesis
    unfolding shape_ok_def
  proof (intro conjI allI ballI impI)
    fix b e
    show "(N(a \<mapsto> n')) (b @ [e]) \<noteq> None \<longleftrightarrow> (\<exists>p. (N(a \<mapsto> n')) b = Some p \<and> has_link e p)"
      using shape_okD(2) [OF assms(1), of b e] assms(2,3) by auto
  next
    fix b m
    assume "(N(a \<mapsto> n')) b = Some m"
    then show "node_ok m" "b = [] \<or> b \<in> X' \<or> \<not> ws_node_is_empty m" "n_dirty m = (b \<in> D')"
      using assms(4,5,6,7) D [of b] shape_okD(3-5) [OF assms(1), of b m]
      by (auto split: if_splits)
  qed (use shape_okD(1,6,7) [OF assms(1)] D in auto)
qed

lemma shape_new_child:
  assumes "shape_ok X D N" "X \<subseteq> {a}" "N a = Some p" "\<not> has_link e p" "canonical e"
  shows "shape_ok {a @ [e]} D (N(a \<mapsto> set_link e p, a @ [e] \<mapsto> ws_node_new))"
proof -
  have none: "N (a @ [e]) = None"
    using shape_okD(2) [OF assms(1), of a e] assms(3,4) by auto
  have below: "N ((a @ [e]) @ [e']) = None" for e'
    using shape_okD(2) [OF assms(1), of "a @ [e]" e'] none by auto
  have notD: "a @ [e] \<notin> D"
    using shape_okD(6) [OF assms(1), of "a @ [e]"] none by auto
  show ?thesis
    unfolding shape_ok_def
  proof (intro conjI allI ballI impI)
    fix b e'
    let ?M = "N(a \<mapsto> set_link e p, a @ [e] \<mapsto> ws_node_new)"
    show "?M (b @ [e']) \<noteq> None \<longleftrightarrow> (\<exists>q. ?M b = Some q \<and> has_link e' q)"
      using shape_okD(2) [OF assms(1), of b e'] below [of e'] assms(3)
      by (cases "b = a @ [e]"; cases "b = a") auto
  next
    fix b m
    assume "(N(a \<mapsto> set_link e p, a @ [e] \<mapsto> ws_node_new)) b = Some m"
    then show "node_ok m" "b = [] \<or> b \<in> {a @ [e]} \<or> \<not> ws_node_is_empty m" "n_dirty m = (b \<in> D)"
      using assms(2-5) notD shape_okD(3-5) [OF assms(1), of b m]
        shape_okD(3,5) [OF assms(1), of a p]
      by (auto split: if_splits)
  qed (use shape_okD(1,6,7) [OF assms(1)] in auto)
qed

lemma shape_unlink:
  assumes "shape_ok X D N" "X \<subseteq> {a}" "N a = Some n" "ws_node_is_empty n" "a \<noteq> []"
    and "N (butlast a) = Some p"
  shows "shape_ok {butlast a} D
    (\<lambda>b. if prefix a b then None else (N(butlast a \<mapsto> clear_link (last a) p)) b)"
    (is "shape_ok _ _ ?M")
proof -
  have a: "a = butlast a @ [last a]" using assms(5) by simp
  have M: "?M b = (if b = a then None else (N(butlast a \<mapsto> clear_link (last a) p)) b)" for b
  proof (cases "prefix a b")
    case True
    then obtain c where b: "b = a @ c" by (auto simp: prefix_def)
    then have "c \<noteq> [] \<Longrightarrow> N b = None" using shape_below_empty [OF assms(1,3,4)] by simp
    moreover have "b \<noteq> butlast a"
      using b a by (metis append_eq_append_conv2 append_is_Nil_conv append_self_conv not_Cons_self2 same_append_eq)
    ultimately show ?thesis using True b by auto
  qed auto
  have notD: "a \<notin> D"
    using shape_okD(5) [OF assms(1,3)] shape_okD(3) [OF assms(1,3)] assms(4)
    by (auto simp: ws_node_is_empty_def dest: dirty_not_empty)
  have fin: "finite (dom (\<lambda>b. if b = a then None else (N(butlast a \<mapsto> clear_link (last a) p)) b))"
    by (rule finite_subset [of _ "insert (butlast a) (dom N)"])
       (use shape_okD(7) [OF assms(1)] in \<open>auto split: if_splits\<close>)
  have ne: "butlast a \<noteq> a" using a by (metis append_self_conv not_Cons_self2)
  show ?thesis
    unfolding shape_ok_def M
  proof (intro conjI allI ballI impI)
    fix b e
    have "b @ [e] = a \<longleftrightarrow> b = butlast a \<and> e = last a"
      using a by (metis append1_eq_conv)
    moreover have "b = a \<Longrightarrow> N (b @ [e]) = None"
      using shape_below_empty [OF assms(1,3,4), of "[e]"] by simp
    ultimately show "(if b @ [e] = a then None else (N(butlast a \<mapsto> clear_link (last a) p)) (b @ [e])) \<noteq> None \<longleftrightarrow>
        (\<exists>q. (if b = a then None else (N(butlast a \<mapsto> clear_link (last a) p)) b) = Some q \<and> has_link e q)"
      using shape_okD(2) [OF assms(1), of b e] assms(6) ne
      by (cases "b = butlast a") (auto split: if_splits)
  next
    fix b m
    assume m: "(if b = a then None else (N(butlast a \<mapsto> clear_link (last a) p)) b) = Some m"
    then show "node_ok m" "b = [] \<or> b \<in> {butlast a} \<or> \<not> ws_node_is_empty m" "n_dirty m = (b \<in> D)"
      using assms(2,6) shape_okD(3-5) [OF assms(1), of b m] shape_okD(3,5) [OF assms(1,6)]
      by (auto split: if_splits)
  qed (use shape_okD(1,6) [OF assms(1)] assms(5) notD fin in auto)
qed

lemma shape_mono: "shape_ok X D N \<Longrightarrow> X \<subseteq> Y \<Longrightarrow> shape_ok Y D N"
  unfolding shape_ok_def by blast

lemma shape_drop:
  assumes "shape_ok X D N" "X \<subseteq> {a}" "N a = Some n" "a = [] \<or> \<not> ws_node_is_empty n"
  shows "shape_ok {} D N"
proof -
  have "b = [] \<or> \<not> ws_node_is_empty m" if "N b = Some m" for b m
    using assms that shape_okD(4) [OF assms(1) that] by (cases "b = a") auto
  then show ?thesis using assms(1) unfolding shape_ok_def by blast
qed

lemma subs_at_unlink:
  assumes "shape_ok X D N" "N a = Some n" "ws_node_is_empty n" "N (butlast a) = Some p"
  shows "subs_at (\<lambda>b. if prefix a b then None else (N(butlast a \<mapsto> clear_link e p)) b) = subs_at N"
proof
  fix b
  have "subs_at N b = {}" if "prefix a b"
    using that shape_below_empty [OF assms(1-3)] assms(2,3)
    by (cases "b = a") (auto simp: subs_at_def prefix_def ws_node_is_empty_def)
  then show "subs_at (\<lambda>b. if prefix a b then None else (N(butlast a \<mapsto> clear_link e p)) b) b = subs_at N b"
    using assms(4) by (auto simp: subs_at_def)
qed

text \<open>Pruning from a node that may be empty restores the invariant, reads no freed node
  and changes no subscription.\<close>

lemma ws_node_prune_shape:
  assumes "shape_ok X D (t_nodes t)" "X \<subseteq> {a}" "t_nodes t a \<noteq> None"
  shows "\<exists>N. ws_node_prune t a = t\<lparr>t_nodes := N\<rparr> \<and> shape_ok {} D N \<and>
    subs_at N = subs_at (t_nodes t)"
  using assms
proof (induction t a arbitrary: X rule: ws_node_prune.induct)
  case (1 t a)
  from "1.prems"(3) obtain n where n: "t_nodes t a = Some n" by blast
  show ?case
  proof (cases "a \<noteq> [] \<and> ws_node_is_empty n")
    case False
    then have "ws_node_prune t a = t"
      using n by (subst ws_node_prune.simps) auto
    moreover have "shape_ok {} D (t_nodes t)"
      using shape_drop [OF "1.prems"(1,2) n] False by blast
    ultimately show ?thesis by (intro exI [of _ "t_nodes t"]) simp
  next
    case True
    then have "t_nodes t (butlast a @ [last a]) \<noteq> None" using n by simp
    then obtain p where p: "t_nodes t (butlast a) = Some p"
      using shape_okD(2) [OF "1.prems"(1), of "butlast a" "last a"] by auto
    define N' where "N' = (\<lambda>b. if prefix a b then None
        else ((t_nodes t)(butlast a \<mapsto> clear_link (last a) p)) b)"
    have t': "ws_node_free (put_node t (butlast a) (clear_link (last a) p)) a = t\<lparr>t_nodes := N'\<rparr>"
      by (simp add: N'_def ws_node_free_def put_node_def fun_eq_iff)
    have shape: "shape_ok {butlast a} D N'"
      unfolding N'_def using shape_unlink [OF "1.prems"(1,2) n _ _ p] True by blast
    have "\<not> prefix a (butlast a)"
      using True prefix_length_le [of a "butlast a"] by (cases a) auto
    then have here: "N' (butlast a) \<noteq> None" by (simp add: N'_def)
    have eq: "ws_node_prune t a = ws_node_prune (t\<lparr>t_nodes := N'\<rparr>) (butlast a)"
      using True n p by (subst ws_node_prune.simps) (simp add: t')
    have "\<exists>N. ws_node_prune t a = t\<lparr>t_nodes := N\<rparr> \<and> shape_ok {} D N \<and> subs_at N = subs_at N'"
      unfolding eq using "1.IH" [OF n True p, of "{butlast a}"] shape here by (simp add: t')
    moreover have "subs_at N' = subs_at (t_nodes t)"
      unfolding N'_def using subs_at_unlink [OF "1.prems"(1) n _ p] True by blast
    ultimately show ?thesis by simp
  qed
qed

section \<open>Settling\<close>

lemma ws_node_compact_fields [simp]:
  "has_link e (ws_node_compact n) = has_link e n"
  "n_dirty (ws_node_compact n) = n_dirty n"
  "Some x \<in> set (n_subs (ws_node_compact n)) \<longleftrightarrow> Some x \<in> set (n_subs n)"
  by (cases e; simp add: ws_node_compact_def)+

lemma node_ok_compact: "node_ok n \<Longrightarrow> node_ok (ws_node_compact (n\<lparr>n_dirty := False\<rparr>))"
  by (auto simp: node_ok_def ws_node_compact_def count_list_0_iff intro: order_trans [OF length_filter_le])

lemma has_link_dirty [simp]: "has_link e (n\<lparr>n_dirty := b\<rparr>) = has_link e n"
  by (cases e) auto

lemma subs_at_upd: "subs_at (N(a \<mapsto> n)) = (subs_at N)(a := {s. Some s \<in> set (n_subs n)})"
  by (rule ext) (auto simp: subs_at_def)

text \<open>Each step of the settle loop finds its node still allocated: a queued node holds a
  tombstone, so pruning one of its children stops below it.\<close>

lemma ws_tree_settle_loop_shape:
  assumes "shape_ok {} (set as) (t_nodes t)" "distinct as"
  shows "\<exists>N. ws_tree_settle_loop t as = t\<lparr>t_nodes := N\<rparr> \<and> shape_ok {} {} N \<and>
    subs_at N = subs_at (t_nodes t)"
  using assms
proof (induction as arbitrary: t)
  case Nil
  then show ?case by (intro exI [of _ "t_nodes t"]) simp
next
  case (Cons a as)
  from shape_okD(6) [OF Cons.prems(1), of a] obtain n where n: "t_nodes t a = Some n" by auto
  define m where "m = ws_node_compact (n\<lparr>n_dirty := False\<rparr>)"
  have ok: "node_ok n" using shape_okD(3) [OF Cons.prems(1) n] .
  have sh: "shape_ok {a} (set as) ((t_nodes t)(a \<mapsto> m))"
    by (rule shape_update [OF Cons.prems(1) n])
       (use Cons.prems(2) ok in \<open>auto simp: m_def node_ok_compact\<close>)
  have sub: "subs_at ((t_nodes t)(a \<mapsto> m)) = subs_at (t_nodes t)"
    using n by (simp add: subs_at_upd m_def subs_at_def fun_eq_iff)
  obtain N where N: "ws_node_prune (put_node t a m) a = t\<lparr>t_nodes := N\<rparr>"
      "shape_ok {} (set as) N" "subs_at N = subs_at (t_nodes t)"
    using ws_node_prune_shape [of "{a}" "set as" "put_node t a m" a] sh sub
    by (auto simp: put_node_def)
  have step: "ws_tree_settle_loop t (a # as) = ws_tree_settle_loop (t\<lparr>t_nodes := N\<rparr>) as"
    using n N(1) by (simp add: m_def)
  show ?case
    unfolding step using Cons.IH [of "t\<lparr>t_nodes := N\<rparr>"] N(2,3) Cons.prems(2) by simp
qed

section \<open>Detaching\<close>

lemma takeWhile_first: "y \<notin> set ys \<Longrightarrow> takeWhile (\<lambda>x. x \<noteq> y) (ys @ y # zs) = ys"
  by (induction ys) auto

lemma first_slot_split:
  assumes "Some s \<in> set xs"
  obtains ys zs where "xs = ys @ Some s # zs" "Some s \<notin> set ys"
    "length (takeWhile (\<lambda>x. x \<noteq> Some s) xs) = length ys"
  using split_list_first [OF assms] takeWhile_first by metis

lemma no_slot: "length (takeWhile (\<lambda>x. x \<noteq> y) xs) = length xs \<longleftrightarrow> y \<notin> set xs"
  by (induction xs) auto

lemma swap_remove:
  "butlast ((ys @ y # zs)[length ys := last (ys @ y # zs)]) =
     (if zs = [] then ys else ys @ last zs # butlast zs)"
  by (simp add: list_update_append butlast_append)

lemma mset_swap_remove:
  "mset (butlast ((ys @ y # zs)[length ys := last (ys @ y # zs)])) = mset ys + mset zs"
proof (cases zs rule: rev_cases)
  case Nil
  then show ?thesis by (simp add: swap_remove)
next
  case (snoc vs v)
  then show ?thesis by (simp add: swap_remove butlast_append)
qed

lemma filter_no_None: "None \<notin> set xs \<Longrightarrow> filter (\<lambda>x. x \<noteq> None) xs = xs"
  by (rule filter_True) (rule ballI, rule notI, simp)

lemma swap_node_ok:
  assumes "node_ok n" "\<not> n_dirty n" "n_subs n = ys @ x # zs" "mset xs = mset ys + mset zs"
  shows "node_ok (n\<lparr>n_subs := xs\<rparr>)"
proof -
  have dead: "n_dead n = 0" "None \<notin> set (n_subs n)"
    using assms(1,2) by (auto simp: node_ok_def count_list_0_iff)
  have len: "length xs = length ys + length zs" using assms(4) by (metis size_mset size_union)
  have set: "set xs = set ys \<union> set zs" using assms(4) by (metis set_mset_mset set_mset_union)
  have "filter (\<lambda>x. x \<noteq> None) (n_subs n) = n_subs n" using dead(2) by (rule filter_no_None)
  then have "distinct (ys @ zs)" using assms(1,3) by (simp add: node_ok_def)
  then have "distinct xs" using assms(4) mset_eq_imp_distinct_iff [of xs "ys @ zs"] by simp
  moreover have "None \<notin> set xs" using dead assms(3) set by auto
  ultimately show ?thesis
    using assms(1-3) dead(1) len by (auto simp: node_ok_def count_list_0_iff)
qed

text \<open>\<open>frozen N N'\<close>: from \<open>N\<close> to \<open>N'\<close> subscriber slots have at most been tombstoned.  This is
  all that may happen to the store while a walk holds pointers into it.\<close>

definition frozen_node :: "ws_topic_node \<Rightarrow> ws_topic_node \<Rightarrow> bool" where
  "frozen_node n n' \<longleftrightarrow>
     (\<forall>e. has_link e n' = has_link e n) \<and>
     list_all2 (\<lambda>x y. y = x \<or> y = None) (n_subs n) (n_subs n')"

definition frozen :: "(addr \<rightharpoonup> ws_topic_node) \<Rightarrow> (addr \<rightharpoonup> ws_topic_node) \<Rightarrow> bool" where
  "frozen N N' \<longleftrightarrow> (\<forall>a. rel_option frozen_node (N a) (N' a))"

lemma frozen_node_refl [simp]: "frozen_node n n"
  by (simp add: frozen_node_def list_all2_refl)

lemma frozen_refl [simp]: "frozen N N"
  by (simp add: frozen_def option.rel_refl)

lemma frozen_node_trans: "frozen_node a b \<Longrightarrow> frozen_node b c \<Longrightarrow> frozen_node a c"
  unfolding frozen_node_def list_all2_conv_all_nth by metis

lemma frozen_trans:
  assumes "frozen A B" "frozen B C"
  shows "frozen A C"
  unfolding frozen_def
proof
  fix a
  from assms have "rel_option frozen_node (A a) (B a)" "rel_option frozen_node (B a) (C a)"
    by (simp_all add: frozen_def)
  then show "rel_option frozen_node (A a) (C a)"
    by (auto simp: option_rel_Some1 rel_option_iff split: option.splits intro: frozen_node_trans)
qed

lemma frozen_upd: "N a = Some n \<Longrightarrow> frozen_node n n' \<Longrightarrow> frozen N (N(a \<mapsto> n'))"
  by (auto simp: frozen_def option.rel_refl)

lemma ws_node_detach_walking:
  assumes sh: "shape_ok {} (set (t_dirty t)) (t_nodes t)" and n: "t_nodes t a = Some n"
    and s: "s \<in> subs_at (t_nodes t) a" and w: "0 < t_walking t" and d: "distinct (t_dirty t)"
  shows "\<exists>N D. ws_node_detach t a s = t\<lparr>t_nodes := N, t_dirty := D\<rparr> \<and>
    shape_ok {} (set D) N \<and> distinct D \<and> frozen (t_nodes t) N \<and>
    subs_at N = (subs_at (t_nodes t))(a := subs_at (t_nodes t) a - {s})"
proof -
  from s n have "Some s \<in> set (n_subs n)" by (simp add: subs_at_def)
  then obtain ys zs where sp: "n_subs n = ys @ Some s # zs" "Some s \<notin> set ys"
      "length (takeWhile (\<lambda>x. x \<noteq> Some s) (n_subs n)) = length ys"
    by (rule first_slot_split)
  define m where "m = n\<lparr>n_subs := ys @ None # zs, n_dead := n_dead n + 1, n_dirty := True\<rparr>"
  define D where "D = (if n_dirty n then t_dirty t else t_dirty t @ [a])"
  define N where "N = (t_nodes t)(a \<mapsto> m)"
  have ok: "node_ok n" using shape_okD(3) [OF sh n] .
  have nd: "n_dirty n \<longleftrightarrow> a \<in> set (t_dirty t)" using shape_okD(5) [OF sh n] .
  have links: "has_link e m = has_link e n" for e by (cases e) (simp_all add: m_def)
  have m: "m = (if n_dirty n then n\<lparr>n_subs := ys @ None # zs, n_dead := Suc (n_dead n)\<rparr>
      else n\<lparr>n_subs := ys @ None # zs, n_dead := Suc (n_dead n), n_dirty := True\<rparr>)"
    unfolding m_def by (cases n) simp
  have "ws_node_detach t a s = t\<lparr>t_nodes := N, t_dirty := D\<rparr>"
    using n sp w unfolding N_def m
    by (auto simp: ws_node_detach_def Let_def ws_tree_mark_dirty_def put_node_def D_def)
  moreover have "shape_ok {} (set D) N"
    unfolding N_def
    by (rule shape_update [OF sh n links])
       (use ok sp nd in \<open>auto simp: m_def D_def node_ok_def ws_node_is_empty_def\<close>)
  moreover have "distinct D" using d nd by (simp add: D_def)
  moreover have "frozen (t_nodes t) N"
    unfolding N_def using n
    by (rule frozen_upd) (simp add: frozen_node_def links, simp add: m_def sp list_all2_append list_all2_refl)
  moreover have "subs_at N = (subs_at (t_nodes t))(a := subs_at (t_nodes t) a - {s})"
    using ok n sp by (auto simp: N_def subs_at_upd subs_at_def m_def node_ok_def fun_eq_iff)
  ultimately show ?thesis by blast
qed

lemma ws_node_detach_settled:
  assumes sh: "shape_ok {} {} (t_nodes t)" and n: "t_nodes t a = Some n"
    and s: "s \<in> subs_at (t_nodes t) a" and w: "t_walking t = 0"
  shows "\<exists>N. ws_node_detach t a s = t\<lparr>t_nodes := N\<rparr> \<and> shape_ok {} {} N \<and>
    subs_at N = (subs_at (t_nodes t))(a := subs_at (t_nodes t) a - {s})"
proof -
  from s n have "Some s \<in> set (n_subs n)" by (simp add: subs_at_def)
  then obtain ys zs where sp: "n_subs n = ys @ Some s # zs" "Some s \<notin> set ys"
      "length (takeWhile (\<lambda>x. x \<noteq> Some s) (n_subs n)) = length ys"
    by (rule first_slot_split)
  define xs where "xs = butlast ((n_subs n)[length ys := last (n_subs n)])"
  define m where "m = n\<lparr>n_subs := xs\<rparr>"
  have ok: "node_ok n" using shape_okD(3) [OF sh n] .
  have nd: "\<not> n_dirty n" using shape_okD(5) [OF sh n] by simp
  have ms: "mset xs = mset ys + mset zs" unfolding xs_def sp(1) by (rule mset_swap_remove)
  have mok: "node_ok m" using ok nd sp(1) ms swap_node_ok by (simp add: m_def)
  have links: "has_link e m = has_link e n" for e by (cases e) (simp_all add: m_def)
  have sh': "shape_ok {a} {} ((t_nodes t)(a \<mapsto> m))"
    by (rule shape_update [OF sh n links]) (use mok nd in \<open>auto simp: m_def\<close>)
  have "ws_node_detach t a s = ws_node_prune (put_node t a m) a"
    using n sp w by (auto simp: ws_node_detach_def Let_def m_def xs_def)
  moreover have "subs_at ((t_nodes t)(a \<mapsto> m)) = (subs_at (t_nodes t))(a := subs_at (t_nodes t) a - {s})"
  proof -
    have "Some s \<notin> set zs" using ok sp by (auto simp: node_ok_def)
    moreover have "set xs = set ys \<union> set zs" using ms by (metis set_mset_mset set_mset_union)
    ultimately show ?thesis using n sp by (auto simp: subs_at_upd subs_at_def m_def fun_eq_iff)
  qed
  ultimately show ?thesis
    using ws_node_prune_shape [of "{a}" "{}" "put_node t a m" a] sh'
    by (auto simp: put_node_def)
qed

section \<open>Growing\<close>

lemma subs_at_new_child:
  assumes "N a = Some p" "N (a @ [e]) = None"
  shows "subs_at (N(a \<mapsto> set_link e p, a @ [e] \<mapsto> ws_node_new)) = subs_at N"
  using assms by (simp add: subs_at_def fun_eq_iff)

lemma ws_topic_descend_shape:
  assumes "shape_ok X D (t_nodes t)" "X \<subseteq> {a}" "t_nodes t a \<noteq> None"
  shows "\<exists>N. ws_topic_descend t a ls = (t\<lparr>t_nodes := N\<rparr>, a @ map edge_of ls) \<and>
    shape_ok {a @ map edge_of ls} D N \<and> N (a @ map edge_of ls) \<noteq> None \<and>
    subs_at N = subs_at (t_nodes t)"
  using assms
proof (induction ls arbitrary: t a X)
  case Nil
  then show ?case
    using shape_mono [of X D "t_nodes t" "{a}"] by (intro exI [of _ "t_nodes t"]) simp
next
  case (Cons l ls)
  obtain p where p: "t_nodes t a = Some p" using Cons.prems(3) by auto
  define e where "e = edge_of l"
  show ?case
  proof (cases "has_link e p")
    case True
    have sh: "shape_ok {} D (t_nodes t)"
      by (rule shape_drop [OF Cons.prems(1,2) p]) (use True in \<open>auto simp: empty_node_links\<close>)
    have "t_nodes t (a @ [e]) \<noteq> None"
      using shape_okD(2) [OF sh, of a e] p True by blast
    then show ?thesis
      using Cons.IH [OF sh, of "a @ [e]"] p True
      by (simp add: ws_node_child_def Let_def e_def)
  next
    case False
    define N where "N = (t_nodes t)(a \<mapsto> set_link e p, a @ [e] \<mapsto> ws_node_new)"
    have new: "t_nodes t (a @ [e]) = None"
      using shape_okD(2) [OF Cons.prems(1), of a e] p False by auto
    have sh: "shape_ok {a @ [e]} D N"
      unfolding N_def
      by (rule shape_new_child [OF Cons.prems(1,2) p]) (use False in \<open>simp_all add: e_def\<close>)
    have "subs_at N = subs_at (t_nodes t)"
      unfolding N_def by (rule subs_at_new_child [OF p new])
    moreover have "N (a @ [e]) \<noteq> None" by (simp add: N_def)
    moreover have step: "ws_topic_descend t a (l # ls) =
        ws_topic_descend (t\<lparr>t_nodes := N\<rparr>) (a @ [e]) ls"
      using p False by (simp add: ws_node_child_def Let_def put_node_def N_def flip: e_def)
    ultimately show ?thesis
      unfolding step using Cons.IH [of "{a @ [e]}" "t\<lparr>t_nodes := N\<rparr>" "a @ [e]"] sh
      by (simp flip: e_def)
  qed
qed

lemma ws_node_push_shape:
  assumes sh: "shape_ok {a} D (t_nodes t)" and n: "t_nodes t a = Some n"
    and s: "s \<notin> subs_at (t_nodes t) a"
  shows "\<exists>N. ws_node_push t a s = t\<lparr>t_nodes := N\<rparr> \<and> shape_ok {} D N \<and>
    subs_at N = (subs_at (t_nodes t))(a := insert s (subs_at (t_nodes t) a))"
proof -
  define m where "m = n\<lparr>n_cap := (if length (n_subs n) = n_cap n
      then (if n_cap n \<noteq> 0 then n_cap n * 2 else 4) else n_cap n), n_subs := n_subs n @ [Some s]\<rparr>"
  have ok: "node_ok n" using shape_okD(3) [OF sh n] .
  have fresh: "Some s \<notin> set (n_subs n)" using s n by (simp add: subs_at_def)
  have links: "has_link e m = has_link e n" for e by (cases e) (simp_all add: m_def)
  have "node_ok m" using ok fresh by (auto simp: node_ok_def m_def)
  then have "shape_ok {} D ((t_nodes t)(a \<mapsto> m))"
    using shape_okD(5) [OF sh n]
    by (intro shape_update [OF sh n links]) (auto simp: m_def ws_node_is_empty_def)
  moreover have "subs_at ((t_nodes t)(a \<mapsto> m)) =
      (subs_at (t_nodes t))(a := insert s (subs_at (t_nodes t) a))"
    using n by (auto simp: subs_at_upd subs_at_def m_def fun_eq_iff)
  moreover have "ws_node_push t a s = t\<lparr>t_nodes := (t_nodes t)(a \<mapsto> m)\<rparr>"
    using n by (simp add: ws_node_push_def Let_def put_node_def m_def)
  ultimately show ?thesis by blast
qed

end
