(* ===== verification/Topic_Tree_Spec.thy ===== *)
theory Topic_Tree_Spec
  imports Topic_Tree_Inv
begin

text \<open>
  What the topic tree promises.  The abstract state of a worker is the set of its
  subscriptions, pairs of a session and a filter, read off the sessions' own lists.
  \<open>tree_ok\<close> says that the detailed state represents it: the node index, the session
  lists and the interest counters published to the hub agree, and no freed node has
  been read.  Every operation preserves it and acts on the abstract state as its
  name says.
\<close>

definition filter_addr :: "string \<Rightarrow> addr" where
  "filter_addr f = map edge_of (split_slash f)"

definition subscriptions :: "ws_topic_tree \<Rightarrow> (nat \<times> string) set" where
  "subscriptions t =
     {(s, f). s < length (t_sessions t) \<and> f \<in> set (ws_topic_list (t_sessions t ! s))}"

definition live_filters :: "ws_session list \<Rightarrow> string multiset" where
  "live_filters sessions = mset (concat (map ws_topic_list sessions))"

definition session_ok :: "ws_session \<Rightarrow> bool" where
  "session_ok ss \<longleftrightarrow>
     distinct (ws_topic_list ss) \<and>
     (\<forall>sub\<in>set (topics ss). ws_topic_split (sub_filter sub) \<noteq> None \<and>
        sub_node sub = filter_addr (sub_filter sub))"

definition holders :: "ws_session list \<Rightarrow> addr \<Rightarrow> nat set" where
  "holders sessions a = {s. s < length sessions \<and> a \<in> sub_node ` set (topics (sessions ! s))}"

definition tree_ok :: "(string \<Rightarrow> u32) \<Rightarrow> ws_topic_tree \<Rightarrow> bool" where
  "tree_ok hf t \<longleftrightarrow>
     shape_ok {} (set (t_dirty t)) (t_nodes t) \<and> distinct (t_dirty t) \<and> \<not> t_fault t \<and>
     (t_walking t = 0 \<longrightarrow> t_dirty t = []) \<and> (\<forall>ss\<in>set (t_sessions t). session_ok ss) \<and>
     subs_at (t_nodes t) = holders (t_sessions t) \<and>
     interest_for hf (live_filters (t_sessions t)) (t_hub t)"

lemma tree_okD:
  assumes "tree_ok hf t"
  shows "shape_ok {} (set (t_dirty t)) (t_nodes t)" "distinct (t_dirty t)" "\<not> t_fault t"
    "t_walking t = 0 \<Longrightarrow> t_dirty t = []"
    "s < length (t_sessions t) \<Longrightarrow> session_ok (t_sessions t ! s)"
    "subs_at (t_nodes t) = holders (t_sessions t)"
    "interest_for hf (live_filters (t_sessions t)) (t_hub t)"
  using assms by (auto simp: tree_ok_def)

lemma filter_addr_inj: "filter_addr f = filter_addr g \<longleftrightarrow> f = g"
  by (metis filter_addr_def join_split_slash map_edge_of_inj)

lemma filter_addr_split: "ws_topic_split f = Some ls \<Longrightarrow> map edge_of (map snd ls) = filter_addr f"
  by (simp only: filter_addr_def ws_topic_split_SomeD(1))

section \<open>Changing one session's list\<close>

lemma live_filters_update:
  assumes "s < length sessions"
  obtains M where "live_filters sessions = mset (ws_topic_list (sessions ! s)) + M"
    and "\<And>x. live_filters (sessions[s := x]) = mset (ws_topic_list x) + M"
  using mset_concat_update [OF assms, of ws_topic_list] unfolding live_filters_def by blast

lemma holders_update:
  assumes "s < length sessions"
  shows "holders (sessions[s := (sessions ! s)\<lparr>topics := subs\<rparr>]) =
    (\<lambda>a. if a \<in> sub_node ` set subs then insert s (holders sessions a)
         else holders sessions a - {s})"
  using assms by (auto simp: holders_def fun_eq_iff nth_list_update)

lemma sessions_ok_update:
  assumes "\<forall>ss\<in>set sessions. session_ok ss" "session_ok x"
  shows "\<forall>ss\<in>set (sessions[s := x]). session_ok ss"
  using assms set_update_subset_insert [of sessions s x] by blast

lemma subscriptions_update:
  assumes "s < length (t_sessions t)" "t_sessions t' = (t_sessions t)[s := (t_sessions t ! s)\<lparr>topics := subs\<rparr>]"
  shows "subscriptions t' = {(u, f). (u, f) \<in> subscriptions t \<and> u \<noteq> s} \<union> {s} \<times> sub_filter ` set subs"
  using assms by (auto simp: subscriptions_def ws_topic_list_def nth_list_update split: if_splits)

section \<open>Unsubscribing\<close>

lemma ws_node_detach_ok:
  assumes "tree_ok hf t" and s: "s \<in> subs_at (t_nodes t) a"
  shows "\<exists>N D. ws_node_detach t a s = t\<lparr>t_nodes := N, t_dirty := D\<rparr> \<and>
    shape_ok {} (set D) N \<and> distinct D \<and> (t_walking t = 0 \<longrightarrow> D = []) \<and>
    (0 < t_walking t \<longrightarrow> frozen (t_nodes t) N) \<and>
    subs_at N = (subs_at (t_nodes t))(a := subs_at (t_nodes t) a - {s})"
proof -
  obtain n where n: "t_nodes t a = Some n" using s by (auto simp: subs_at_def split: option.splits)
  show ?thesis
  proof (cases "t_walking t = 0")
    case True
    then have d: "t_dirty t = []" by (rule tree_okD(4) [OF assms(1)])
    then obtain N where "ws_node_detach t a s = t\<lparr>t_nodes := N\<rparr>" "shape_ok {} {} N"
        "subs_at N = (subs_at (t_nodes t))(a := subs_at (t_nodes t) a - {s})"
      using ws_node_detach_settled [OF _ n s True] tree_okD(1) [OF assms(1)] by auto
    then show ?thesis
      using d True by (intro exI [of _ N] exI [of _ "[]"]) simp
  next
    case False
    then show ?thesis
      using ws_node_detach_walking [OF tree_okD(1) [OF assms(1)] n s _ tree_okD(2) [OF assms(1)]] by auto
  qed
qed

lemma session_dropD:
  assumes "session_ok ss" "k < length (topics ss)"
  defines "rest \<equiv> take k (topics ss) @ drop (Suc k) (topics ss)"
  shows "set (topics ss) = insert (topics ss ! k) (set rest)"
    and "sub_node (topics ss ! k) \<notin> sub_node ` set rest"
    and "sub_filter (topics ss ! k) \<notin> sub_filter ` set rest"
    and "session_ok (ss\<lparr>topics := rest\<rparr>)"
    and "mset (ws_topic_list ss) = add_mset (sub_filter (topics ss ! k)) (mset (map sub_filter rest))"
proof -
  have sp: "topics ss = take k (topics ss) @ topics ss ! k # drop (Suc k) (topics ss)"
    by (rule id_take_nth_drop [OF assms(2)])
  show set: "set (topics ss) = insert (topics ss ! k) (set rest)"
    by (subst sp) (simp add: rest_def)
  have "map sub_filter (topics ss) = map sub_filter (take k (topics ss)) @
      sub_filter (topics ss ! k) # map sub_filter (drop (Suc k) (topics ss))"
    by (subst sp) simp
  then show notin: "sub_filter (topics ss ! k) \<notin> sub_filter ` set rest"
    and "mset (ws_topic_list ss) = add_mset (sub_filter (topics ss ! k)) (mset (map sub_filter rest))"
    and "session_ok (ss\<lparr>topics := rest\<rparr>)"
    using assms(1) set by (auto simp: session_ok_def ws_topic_list_def rest_def)
  show "sub_node (topics ss ! k) \<notin> sub_node ` set rest"
  proof
    assume "sub_node (topics ss ! k) \<in> sub_node ` set rest"
    then obtain r where r: "r \<in> set rest" "sub_node (topics ss ! k) = sub_node r" by blast
    then have "sub_filter (topics ss ! k) = sub_filter r"
      using assms(1,2) set by (auto simp: session_ok_def filter_addr_inj)
    with r notin show False by auto
  qed
qed

text \<open>What taking subscriptions away leaves alone.\<close>

definition same_frame :: "ws_topic_tree \<Rightarrow> ws_topic_tree \<Rightarrow> bool" where
  "same_frame t t' \<longleftrightarrow>
     t_walking t' = t_walking t \<and> t_mark t' = t_mark t \<and>
     map ws_id (t_sessions t') = map ws_id (t_sessions t) \<and>
     map topic_mark (t_sessions t') = map topic_mark (t_sessions t)"

definition keeps :: "ws_topic_tree \<Rightarrow> ws_topic_tree \<Rightarrow> bool" where
  "keeps t t' \<longleftrightarrow> same_frame t t' \<and> (0 < t_walking t \<longrightarrow> frozen (t_nodes t) (t_nodes t'))"

lemma keeps_refl [simp]: "keeps t t"
  by (simp add: keeps_def same_frame_def)

lemma keeps_trans: "keeps t t' \<Longrightarrow> keeps t' t'' \<Longrightarrow> keeps t t''"
  by (auto simp: keeps_def same_frame_def intro: frozen_trans)

lemma map_update_topics:
  "s < length ss \<Longrightarrow> map ws_id (ss[s := (ss ! s)\<lparr>topics := x\<rparr>]) = map ws_id ss"
  "s < length ss \<Longrightarrow> map topic_mark (ss[s := (ss ! s)\<lparr>topics := x\<rparr>]) = map topic_mark ss"
  by (simp_all add: list_eq_iff_nth_eq nth_list_update)

lemma ws_sub_drop_ok:
  assumes ok: "tree_ok hf t" and s: "s < length (t_sessions t)"
    and k: "k < length (topics (t_sessions t ! s))"
  shows "tree_ok hf (ws_sub_drop hf t s k) \<and> keeps t (ws_sub_drop hf t s k) \<and>
    subscriptions (ws_sub_drop hf t s k) =
      subscriptions t - {(s, sub_filter (topics (t_sessions t ! s) ! k))}"
proof -
  define ss where "ss = t_sessions t ! s"
  define sub where "sub = topics ss ! k"
  define rest where "rest = take k (topics ss) @ drop (Suc k) (topics ss)"
  note sd = session_dropD [OF tree_okD(5) [OF ok s] k, folded ss_def, folded sub_def rest_def]
  have held: "subs_at (t_nodes t) = holders (t_sessions t)" by (rule tree_okD(6) [OF ok])
  have "s \<in> subs_at (t_nodes t) (sub_node sub)"
    using held sd(1) s by (auto simp: holders_def ss_def)
  then obtain N D where t1: "ws_node_detach t (sub_node sub) s = t\<lparr>t_nodes := N, t_dirty := D\<rparr>"
    and N: "shape_ok {} (set D) N" "distinct D" "t_walking t = 0 \<longrightarrow> D = []"
      "0 < t_walking t \<longrightarrow> frozen (t_nodes t) N"
      "subs_at N = (subs_at (t_nodes t))(sub_node sub := subs_at (t_nodes t) (sub_node sub) - {s})"
    using ws_node_detach_ok [OF ok] by blast
  let ?S = "(t_sessions t)[s := ss\<lparr>topics := rest\<rparr>]"
  have drop: "ws_sub_drop hf t s k = t\<lparr>t_nodes := N, t_dirty := D, t_sessions := ?S,
      t_hub := ws_interest_publish hf (t_hub t) (sub_filter sub) False\<rparr>"
    using t1 by (simp add: ws_sub_drop_def Let_def put_topics_def ss_def sub_def rest_def)
  have mem: "s \<in> holders (t_sessions t) b \<longleftrightarrow> b \<in> sub_node ` set (topics ss)" for b
    using s by (simp add: holders_def ss_def)
  have "subs_at N = holders ?S"
    unfolding N(5) held holders_update [OF s, of rest, folded ss_def]
    using mem sd(1,2) by (auto simp: fun_eq_iff)
  moreover obtain M where "live_filters (t_sessions t) = mset (ws_topic_list ss) + M"
      "live_filters ?S = mset (ws_topic_list (ss\<lparr>topics := rest\<rparr>)) + M"
    using live_filters_update [OF s] ss_def by metis
  then have "live_filters (t_sessions t) = add_mset (sub_filter sub) (live_filters ?S)"
    using sd(5) by (simp add: ws_topic_list_def)
  then have "interest_for hf (live_filters ?S) (ws_interest_publish hf (t_hub t) (sub_filter sub) False)"
    using interest_for_remove tree_okD(7) [OF ok] by simp
  ultimately have "tree_ok hf (ws_sub_drop hf t s k)"
    unfolding drop using N(1-4) tree_okD(3) [OF ok] sessions_ok_update sd(4) ok
    by (auto simp: tree_ok_def)
  moreover have "keeps t (ws_sub_drop hf t s k)"
    using s N(4) map_update_topics [of s "t_sessions t" rest] by (simp add: drop keeps_def same_frame_def ss_def)
  moreover have "subscriptions (ws_sub_drop hf t s k) = subscriptions t - {(s, sub_filter sub)}"
    using s sd(1,3) by (subst subscriptions_update [of s t _ rest])
      (auto simp: drop ss_def subscriptions_def ws_topic_list_def)
  ultimately show ?thesis by (simp add: sub_def ss_def)
qed

lemma sub_index_less:
  "sub_index subs flt < length subs \<longleftrightarrow> flt \<in> sub_filter ` set subs"
  "sub_index subs flt < length subs \<Longrightarrow> sub_filter (subs ! sub_index subs flt) = flt"
  by (induction subs) (auto simp: sub_index_def)

lemma ws_topic_unsubscribe_ok:
  assumes "tree_ok hf t" "s < length (t_sessions t)" "ws_topic_unsubscribe hf True t s f = (t', b)"
  shows "tree_ok hf t' \<and> keeps t t' \<and> (b \<longleftrightarrow> (s, f) \<in> subscriptions t) \<and>
    subscriptions t' = subscriptions t - {(s, f)}"
proof -
  let ?k = "sub_index (topics (t_sessions t ! s)) f"
  have mem: "(s, f) \<in> subscriptions t \<longleftrightarrow> ?k < length (topics (t_sessions t ! s))"
    using assms(2) by (simp add: subscriptions_def ws_topic_list_def sub_index_less(1))
  show ?thesis
  proof (cases "?k < length (topics (t_sessions t ! s))")
    case True
    then show ?thesis
      using assms(3) mem ws_sub_drop_ok [OF assms(1,2) True] sub_index_less(2) [OF True]
      by (auto simp: ws_topic_unsubscribe_def Let_def)
  next
    case False
    then show ?thesis
      using assms(1,3) mem by (auto simp: ws_topic_unsubscribe_def Let_def)
  qed
qed

lemma ws_topic_unsubscribe_all_ok:
  assumes "tree_ok hf t"
  shows "tree_ok hf (ws_topic_unsubscribe_all hf True t s) \<and>
    keeps t (ws_topic_unsubscribe_all hf True t s) \<and>
    subscriptions (ws_topic_unsubscribe_all hf True t s) = subscriptions t - {s} \<times> UNIV"
  using assms
proof (induction hf True t s rule: ws_topic_unsubscribe_all.induct)
  case (1 hf t s)
  show ?case
  proof (cases "s < length (t_sessions t) \<and> topics (t_sessions t ! s) \<noteq> []")
    case True
    then have d: "tree_ok hf (ws_sub_drop hf t s 0)" "keeps t (ws_sub_drop hf t s 0)"
        "subscriptions (ws_sub_drop hf t s 0) =
          subscriptions t - {(s, sub_filter (topics (t_sessions t ! s) ! 0))}"
      using ws_sub_drop_ok [OF "1.prems", of s 0] by auto
    have "ws_topic_unsubscribe_all hf True t s =
        ws_topic_unsubscribe_all hf True (ws_sub_drop hf t s 0) s"
      using True by (subst ws_topic_unsubscribe_all.simps) simp
    with "1.hyps" [OF True] d show ?thesis
      by (auto intro: keeps_trans)
  next
    case False
    then have "ws_topic_unsubscribe_all hf True t s = t"
      by (subst ws_topic_unsubscribe_all.simps) auto
    with "1.prems" False show ?thesis
      by (auto simp: subscriptions_def ws_topic_list_def)
  qed
qed

section \<open>Subscribing\<close>

lemma ws_sub_find_None: "ws_sub_find ss f = None \<longleftrightarrow> f \<notin> set (ws_topic_list ss)"
  by (auto simp: ws_sub_find_def ws_topic_list_def find_None_iff)

lemma card_session_filters:
  assumes "tree_ok hf t" "s < length (t_sessions t)"
  shows "card {f. (s, f) \<in> subscriptions t} = ws_sub_count (t_sessions t ! s)"
proof -
  have "{f. (s, f) \<in> subscriptions t} = set (ws_topic_list (t_sessions t ! s))"
    using assms(2) by (simp add: subscriptions_def)
  moreover have "ws_sub_count (t_sessions t ! s) = length (ws_topic_list (t_sessions t ! s))"
    by (simp add: ws_sub_count_def ws_topic_list_def)
  ultimately show ?thesis
    using tree_okD(5) [OF assms] by (simp add: session_ok_def distinct_card)
qed

lemma ws_topic_join_ok:
  assumes ok: "tree_ok hf t" and s: "s < length (t_sessions t)"
    and sp: "ws_topic_split f = Some levels" and new: "f \<notin> set (ws_topic_list (t_sessions t ! s))"
    and t': "ws_topic_subscribe hf t s f quota = (t', b)"
    and q: "quota = 0 \<or> ws_sub_count (t_sessions t ! s) < quota"
  shows "b \<and> tree_ok hf t' \<and> same_frame t t' \<and> subscriptions t' = insert (s, f) (subscriptions t)"
proof -
  define ss where "ss = t_sessions t ! s"
  define subs where "subs = \<lparr>sub_node = filter_addr f, sub_filter = f\<rparr> # topics ss"
  have sok: "session_ok ss" using tree_okD(5) [OF ok s] by (simp add: ss_def)
  have held: "subs_at (t_nodes t) = holders (t_sessions t)" by (rule tree_okD(6) [OF ok])
  have root: "t_nodes t [] \<noteq> None" using shape_okD(1) [OF tree_okD(1) [OF ok]] .
  obtain N1 where t1: "ws_topic_descend t [] (map snd levels) = (t\<lparr>t_nodes := N1\<rparr>, filter_addr f)"
    and N1: "shape_ok {filter_addr f} (set (t_dirty t)) N1" "N1 (filter_addr f) \<noteq> None"
      "subs_at N1 = subs_at (t_nodes t)"
    using ws_topic_descend_shape [OF tree_okD(1) [OF ok] _ root, of "map snd levels"]
      filter_addr_split [OF sp] by auto
  have "filter_addr f \<notin> sub_node ` set (topics ss)"
    using sok new by (auto simp: session_ok_def filter_addr_inj ws_topic_list_def ss_def)
  then have fresh: "s \<notin> holders (t_sessions t) (filter_addr f)"
    by (simp add: holders_def ss_def)
  obtain N where t2: "ws_node_push (t\<lparr>t_nodes := N1\<rparr>) (filter_addr f) s = t\<lparr>t_nodes := N\<rparr>"
    and N: "shape_ok {} (set (t_dirty t)) N"
      "subs_at N = (holders (t_sessions t))(filter_addr f := insert s (holders (t_sessions t) (filter_addr f)))"
    using ws_node_push_shape [of "filter_addr f" "set (t_dirty t)" "t\<lparr>t_nodes := N1\<rparr>" _ s] N1 fresh held
    by auto
  let ?S = "(t_sessions t)[s := ss\<lparr>topics := subs\<rparr>]"
  have res: "b" "t' = t\<lparr>t_nodes := N, t_sessions := ?S, t_hub := ws_interest_publish hf (t_hub t) f True\<rparr>"
    using t' sp q new t1 t2
    by (auto simp: ws_topic_subscribe_def Let_def ws_sub_find_None put_topics_def ss_def subs_def)
  have "subs_at N = holders ?S"
    unfolding N(2) holders_update [OF s, of subs, folded ss_def]
    using s by (auto simp: fun_eq_iff subs_def holders_def ss_def)
  moreover obtain M where "live_filters (t_sessions t) = mset (ws_topic_list ss) + M"
      "live_filters ?S = mset (ws_topic_list (ss\<lparr>topics := subs\<rparr>)) + M"
    using live_filters_update [OF s] ss_def by metis
  then have "live_filters ?S = add_mset f (live_filters (t_sessions t))"
    by (simp add: ws_topic_list_def subs_def)
  then have "interest_for hf (live_filters ?S) (ws_interest_publish hf (t_hub t) f True)"
    using interest_for_add tree_okD(7) [OF ok] by simp
  moreover have "session_ok (ss\<lparr>topics := subs\<rparr>)"
    using sok new sp by (auto simp: session_ok_def subs_def ws_topic_list_def ss_def)
  ultimately have "tree_ok hf t'"
    unfolding res(2) using N(1) ok sessions_ok_update by (auto simp: tree_ok_def)
  moreover have "same_frame t t'"
    using s map_update_topics [of s "t_sessions t" subs] by (simp add: res(2) same_frame_def ss_def)
  moreover have "subscriptions t' = insert (s, f) (subscriptions t)"
    using s by (subst subscriptions_update [of s t _ subs])
      (auto simp: res(2) ss_def subscriptions_def ws_topic_list_def subs_def)
  ultimately show ?thesis using res(1) by blast
qed

lemma ws_topic_subscribe_ok:
  assumes ok: "tree_ok hf t" and s: "s < length (t_sessions t)"
    and t': "ws_topic_subscribe hf t s f quota = (t', b)"
  shows "tree_ok hf t' \<and> same_frame t t' \<and>
    (b \<longleftrightarrow> ws_topic_split f \<noteq> None \<and>
       ((s, f) \<in> subscriptions t \<or> quota = 0 \<or> card {g. (s, g) \<in> subscriptions t} < quota)) \<and>
    subscriptions t' = (if b then insert (s, f) (subscriptions t) else subscriptions t)"
proof -
  have mem: "(s, f) \<in> subscriptions t \<longleftrightarrow> f \<in> set (ws_topic_list (t_sessions t ! s))"
    using s by (simp add: subscriptions_def)
  consider "ws_topic_split f = None"
    | levels where "ws_topic_split f = Some levels" "(s, f) \<in> subscriptions t"
    | levels where "ws_topic_split f = Some levels" "(s, f) \<notin> subscriptions t"
        "quota \<noteq> 0 \<and> quota \<le> ws_sub_count (t_sessions t ! s)"
    | levels where "ws_topic_split f = Some levels" "(s, f) \<notin> subscriptions t"
        "quota = 0 \<or> ws_sub_count (t_sessions t ! s) < quota"
    by fastforce
  then show ?thesis
  proof cases
    case 4
    then show ?thesis
      using ws_topic_join_ok [OF ok s 4(1) _ t' 4(3)] mem card_session_filters [OF ok s] by auto
  qed (use t' ok mem card_session_filters [OF ok s] in
      \<open>auto simp: ws_topic_subscribe_def Let_def ws_sub_find_None same_frame_def\<close>)
qed

end
