(* ===== verification/Topic_Tree_Walk.thy ===== *)
theory Topic_Tree_Walk
  imports Topic_Tree_Spec
begin

text \<open>
  The publish walk of \<open>ws_topic_tree.c\<close>.  \<open>walk_inv\<close> is its loop invariant, relative to the
  tree \<open>t0\<close> at the start of the walk and the set \<open>C\<close> of the sessions offered so far: a
  session is stamped once it is offered the message, each send may tear sessions down,
  and the store changes by tombstones only.  The addresses the walk reaches are those
  of the filters that match the topic.
\<close>

section \<open>Sessions changed outside their lists\<close>

lemma tree_ok_cong:
  assumes "tree_ok hf t" "map topics (t_sessions t') = map topics (t_sessions t)"
    and "t_nodes t' = t_nodes t" "t_dirty t' = t_dirty t" "t_fault t' = t_fault t"
      "t_walking t' = t_walking t" "t_hub t' = t_hub t"
  shows "tree_ok hf t' \<and> subscriptions t' = subscriptions t"
proof -
  have len: "length (t_sessions t') = length (t_sessions t)"
    using assms(2) by (rule map_eq_imp_length_eq)
  then have nth: "topics (t_sessions t' ! s) = topics (t_sessions t ! s)" if "s < length (t_sessions t)" for s
    using assms(2) that by (metis nth_map)
  have "map ws_topic_list (t_sessions t') = map ws_topic_list (t_sessions t)"
    using len nth by (simp add: list_eq_iff_nth_eq ws_topic_list_def)
  then have "live_filters (t_sessions t') = live_filters (t_sessions t)"
    by (simp add: live_filters_def)
  moreover have "holders (t_sessions t') = holders (t_sessions t)"
    using len nth by (auto simp: holders_def fun_eq_iff)
  moreover have "\<forall>ss\<in>set (t_sessions t'). session_ok ss"
  proof
    fix ss assume "ss \<in> set (t_sessions t')"
    then obtain s where s: "s < length (t_sessions t)" "ss = t_sessions t' ! s"
      using len by (metis in_set_conv_nth)
    then show "session_ok ss"
      using tree_okD(5) [OF assms(1) s(1)] nth [OF s(1)] by (simp add: session_ok_def ws_topic_list_def)
  qed
  moreover have "subscriptions t' = subscriptions t"
    using len nth by (auto simp: subscriptions_def ws_topic_list_def)
  ultimately show ?thesis using assms by (simp add: tree_ok_def)
qed

definition stamped :: "ws_topic_tree \<Rightarrow> nat set" where
  "stamped t = {s. s < length (t_sessions t) \<and> topic_mark (t_sessions t ! s) = t_mark t}"

lemma stamped_map:
  "stamped t = {s. s < length (map topic_mark (t_sessions t)) \<and> map topic_mark (t_sessions t) ! s = t_mark t}"
  by (auto simp: stamped_def)

lemma keeps_stamped: "keeps t t' \<Longrightarrow> stamped t' = stamped t"
  by (simp only: stamped_map keeps_def same_frame_def)

lemma stamp_ok:
  assumes "tree_ok hf t" "s < length (t_sessions t)"
  shows "tree_ok hf (stamp t s) \<and> subscriptions (stamp t s) = subscriptions t"
proof (rule tree_ok_cong [OF assms(1)])
  show "map topics (t_sessions (stamp t s)) = map topics (t_sessions t)"
    using assms(2) by (simp add: stamp_def list_eq_iff_nth_eq nth_list_update)
qed (simp_all add: stamp_def)

lemma stamp_fields [simp]:
  "t_nodes (stamp t s) = t_nodes t" "t_walking (stamp t s) = t_walking t" "t_mark (stamp t s) = t_mark t"
  by (simp_all add: stamp_def)

lemma stamp_sessions:
  assumes "s < length (t_sessions t)"
  shows "map ws_id (t_sessions (stamp t s)) = map ws_id (t_sessions t)"
    and "stamped (stamp t s) = insert s (stamped t)"
  using assms by (auto simp: stamp_def stamped_def list_eq_iff_nth_eq nth_list_update)

definition teardown :: "(string \<Rightarrow> u32) \<Rightarrow> nat list \<Rightarrow> ws_topic_tree \<Rightarrow> ws_topic_tree" where
  "teardown hf us t = fold (\<lambda>u t. ws_topic_unsubscribe_all hf True t u) us t"

lemma teardown_ok:
  assumes "tree_ok hf t"
  shows "tree_ok hf (teardown hf us t) \<and> keeps t (teardown hf us t) \<and>
    subscriptions (teardown hf us t) = subscriptions t - set us \<times> UNIV"
  unfolding teardown_def using assms(1)
proof (induction us arbitrary: t)
  case (Cons u us)
  note u = ws_topic_unsubscribe_all_ok [OF Cons.prems, of u]
  then show ?case
    using Cons.IH [of "ws_topic_unsubscribe_all hf True t u"] by (auto intro: keeps_trans)
qed simp

section \<open>Tombstones\<close>

definition sub_slot :: "(addr \<rightharpoonup> ws_topic_node) \<Rightarrow> addr \<Rightarrow> nat \<Rightarrow> nat option" where
  "sub_slot N a i = (case N a of None \<Rightarrow> None
     | Some n \<Rightarrow> if i < length (n_subs n) then n_subs n ! i else None)"

lemma subs_at_slot: "s \<in> subs_at N a \<longleftrightarrow> (\<exists>i. sub_slot N a i = Some s)"
  by (auto simp: subs_at_def sub_slot_def in_set_conv_nth split: option.splits if_splits)

lemma frozenD:
  assumes "frozen N N'" "N a = Some n"
  shows "\<exists>n'. N' a = Some n' \<and> (\<forall>e. has_link e n' = has_link e n) \<and>
    length (n_subs n') = length (n_subs n) \<and>
    (\<forall>i<length (n_subs n). n_subs n' ! i = n_subs n ! i \<or> n_subs n' ! i = None)"
  using assms(1) [unfolded frozen_def, rule_format, of a] assms(2)
  by (auto simp: option_rel_Some1 frozen_node_def list_all2_conv_all_nth)

lemma frozen_slot:
  assumes "frozen N N'"
  shows "sub_slot N' a i = sub_slot N a i \<or> sub_slot N' a i = None"
proof (cases "N a")
  case None
  moreover from this have "N' a = None"
    using assms [unfolded frozen_def, rule_format, of a] by simp
  ultimately show ?thesis by (simp add: sub_slot_def)
next
  case (Some n)
  obtain n' where "N' a = Some n'" "length (n_subs n') = length (n_subs n)"
      "i < length (n_subs n) \<longrightarrow> n_subs n' ! i = n_subs n ! i \<or> n_subs n' ! i = None"
    using frozenD [OF assms Some] by blast
  with Some show ?thesis by (simp add: sub_slot_def)
qed

lemma distinct_filter_nth:
  assumes "distinct (filter P xs)" "i < j" "j < length xs" "P (xs ! j)"
  shows "xs ! i \<noteq> xs ! j"
proof
  assume eq: "xs ! i = xs ! j"
  have "filter P xs = filter P (take j xs) @ filter P (drop j xs)"
    by (simp flip: filter_append)
  moreover have "xs ! j \<in> set (filter P (take j xs))"
    using assms(2-4) eq by (auto simp: in_set_conv_nth intro!: exI [of _ i])
  moreover have "xs ! j \<in> set (filter P (drop j xs))"
    using assms(3,4) by (simp add: Cons_nth_drop_Suc [symmetric])
  ultimately show False using assms(1) by auto
qed

lemma slot_unique:
  assumes "node_ok n" "N a = Some n" "sub_slot N a i = Some s" "sub_slot N a j = Some s"
  shows "i = j"
  using assms distinct_filter_nth [of "\<lambda>x. x \<noteq> None" "n_subs n" i j]
    distinct_filter_nth [of "\<lambda>x. x \<noteq> None" "n_subs n" j i]
  by (cases i j rule: linorder_cases) (auto simp: node_ok_def sub_slot_def split: if_splits)

text \<open>A session found at a node when the walk began and tombstoned since has lost a
  subscription it then had.\<close>

lemma tombstone_lost:
  assumes ok0: "tree_ok hf t0" and ok: "tree_ok hf t" and fr: "frozen (t_nodes t0) (t_nodes t)"
    and len: "length (t_sessions t) = length (t_sessions t0)"
    and i: "sub_slot (t_nodes t0) a i = Some s" "sub_slot (t_nodes t) a i = None"
  obtains f where "(s, f) \<in> subscriptions t0" "(s, f) \<notin> subscriptions t"
proof -
  obtain n where n: "t_nodes t0 a = Some n"
    using i(1) by (auto simp: sub_slot_def split: option.splits)
  have "s \<notin> subs_at (t_nodes t) a"
  proof
    assume "s \<in> subs_at (t_nodes t) a"
    then obtain j where j: "sub_slot (t_nodes t) a j = Some s" by (auto simp: subs_at_slot)
    then have "sub_slot (t_nodes t0) a j = Some s" using frozen_slot [OF fr, of a j] by auto
    then have "i = j"
      using slot_unique [of n "t_nodes t0" a] shape_okD(3) [OF tree_okD(1) [OF ok0] n] n i(1) by blast
    with i(2) j show False by simp
  qed
  then have out: "s \<notin> holders (t_sessions t) a" using tree_okD(6) [OF ok] by simp
  have "s \<in> holders (t_sessions t0) a"
    using i(1) tree_okD(6) [OF ok0] by (metis subs_at_slot)
  then obtain sub where s: "s < length (t_sessions t0)" and sub: "sub \<in> set (topics (t_sessions t0 ! s))"
      "a = sub_node sub"
    by (auto simp: holders_def)
  have a: "a = filter_addr (sub_filter sub)"
    using tree_okD(5) [OF ok0 s] sub by (auto simp: session_ok_def)
  have "(s, sub_filter sub) \<in> subscriptions t0"
    using s sub by (auto simp: subscriptions_def ws_topic_list_def)
  moreover have "(s, sub_filter sub) \<notin> subscriptions t"
  proof
    assume "(s, sub_filter sub) \<in> subscriptions t"
    then obtain sub' where "sub' \<in> set (topics (t_sessions t ! s))" "sub_filter sub' = sub_filter sub"
      by (auto simp: subscriptions_def ws_topic_list_def)
    moreover from this have "sub_node sub' = a"
      using tree_okD(5) [OF ok, of s] s len a by (simp add: session_ok_def)
    ultimately show False using out s len by (auto simp: holders_def)
  qed
  ultimately show thesis using that by blast
qed

section \<open>The walk\<close>

definition marks_ok :: "ws_topic_tree \<Rightarrow> bool" where
  "marks_ok t \<longleftrightarrow> (\<forall>m\<in>set (map topic_mark (t_sessions t)). m \<le> t_mark t)"

lemma marks_ok_stamp: "marks_ok t \<Longrightarrow> marks_ok (stamp t s)"
  using set_update_subset_insert [of "t_sessions t" s "(t_sessions t ! s)\<lparr>topic_mark := t_mark t\<rparr>"]
  by (auto simp: marks_ok_def stamp_def)

lemma marks_ok_keeps: "keeps t t' \<Longrightarrow> marks_ok t' = marks_ok t"
  by (simp only: keeps_def same_frame_def marks_ok_def)

definition torn :: "try_send \<Rightarrow> bool \<Rightarrow> nat set \<Rightarrow> nat set" where
  "torn snd_fn deliver S = (if deliver then \<Union>s\<in>S. set (snd (snd_fn s)) else {})"

definition walk_inv ::
    "(string \<Rightarrow> u32) \<Rightarrow> try_send \<Rightarrow> ws_topic_tree \<Rightarrow> u64 \<Rightarrow> bool \<Rightarrow> nat set \<Rightarrow> walk_state \<Rightarrow> bool" where
  "walk_inv hf snd_fn t0 except_id deliver C w \<longleftrightarrow>
     (case w of (t, v) \<Rightarrow>
       tree_ok hf t \<and> t_walking t = t_walking t0 \<and> t_mark t = t_mark t0 \<and>
       map ws_id (t_sessions t) = map ws_id (t_sessions t0) \<and>
       marks_ok t \<and> frozen (t_nodes t0) (t_nodes t) \<and>
       v_except v = except_id \<and> v_deliver v = deliver \<and>
       subscriptions t = subscriptions t0 - torn snd_fn deliver (stamped t) \<times> UNIV \<and>
       v_hits v = card {s \<in> stamped t. deliver \<longrightarrow> fst (snd_fn s)} \<and>
       distinct (v_sent v) \<and> set (v_sent v) = (if deliver then stamped t else {}) \<and>
       stamped t \<subseteq> C \<and> C \<subseteq> stamped t \<union> torn snd_fn deliver (stamped t))"

lemma torn_insert: "torn f d (insert s S) = torn f d S \<union> (if d then set (snd (f s)) else {})"
  by (auto simp: torn_def)

lemma card_insert_filter:
  assumes "finite S" "s \<notin> S"
  shows "card {u \<in> insert s S. P u} = card {u \<in> S. P u} + (if P s then 1 else 0)"
proof -
  have "{u \<in> insert s S. P u} = (if P s then insert s {u \<in> S. P u} else {u \<in> S. P u})" by auto
  then show ?thesis using assms by simp
qed

lemma stamped_finite [simp]: "finite (stamped t)"
  by (simp add: stamped_def)

text \<open>Offering the message to a session that is not stamped yet.\<close>

lemma walk_inv_offer:
  assumes inv: "walk_inv hf snd_fn t0 except_id deliver C (t, v)" and w: "0 < t_walking t0"
    and s: "s < length (t_sessions t)" "s \<notin> stamped t"
  shows "walk_inv hf snd_fn t0 except_id deliver (insert s C)
    (if \<not> deliver then (stamp t s, v\<lparr>v_hits := v_hits v + 1\<rparr>)
     else (teardown hf (snd (snd_fn s)) (stamp t s),
       v\<lparr>v_hits := v_hits v + (if fst (snd_fn s) then 1 else 0), v_sent := v_sent v @ [s]\<rparr>))"
proof -
  note I = inv [unfolded walk_inv_def prod.case]
  have st: "tree_ok hf (stamp t s)" "subscriptions (stamp t s) = subscriptions t"
    using stamp_ok [of hf t s] I s(1) by auto
  note ss = stamp_sessions [OF s(1)]
  have card: "card {u \<in> insert s (stamped t). deliver \<longrightarrow> fst (snd_fn u)} =
      card {u \<in> stamped t. deliver \<longrightarrow> fst (snd_fn u)} + (if deliver \<longrightarrow> fst (snd_fn s) then 1 else 0)"
    using s(2) by (rule card_insert_filter [OF stamped_finite])
  show ?thesis
  proof (cases deliver)
    case False
    then show ?thesis
      using I st ss card s(2) marks_ok_stamp [of t s] by (auto simp: walk_inv_def torn_insert)
  next
    case True
    let ?t = "teardown hf (snd (snd_fn s)) (stamp t s)"
    have td: "tree_ok hf ?t" "keeps (stamp t s) ?t"
        "subscriptions ?t = subscriptions t - set (snd (snd_fn s)) \<times> UNIV"
      using teardown_ok [OF st(1)] st(2) by auto
    have k: "t_walking ?t = t_walking t" "t_mark ?t = t_mark t"
        "map ws_id (t_sessions ?t) = map ws_id (t_sessions t)" "frozen (t_nodes t) (t_nodes ?t)"
        "stamped ?t = insert s (stamped t)"
      using td(2) ss w I keeps_stamped [OF td(2)] by (auto simp: keeps_def same_frame_def)
    have "marks_ok ?t" using I marks_ok_stamp marks_ok_keeps [OF td(2)] by blast
    moreover have "frozen (t_nodes t0) (t_nodes ?t)" using I k(4) by (auto intro: frozen_trans)
    moreover have "subscriptions ?t =
        subscriptions t0 - torn snd_fn deliver (insert s (stamped t)) \<times> UNIV"
      using I td(3) True by (auto simp: torn_insert)
    moreover have "set (v_sent v) = stamped t" "C \<subseteq> stamped t \<union> torn snd_fn deliver (stamped t)"
      using I True by simp_all
    ultimately have "walk_inv hf snd_fn t0 except_id deliver (insert s C) (?t,
        v\<lparr>v_hits := v_hits v + (if fst (snd_fn s) then 1 else 0), v_sent := v_sent v @ [s]\<rparr>)"
      unfolding walk_inv_def prod.case k(5) card
      using I True k(1-3) td(1) s(2) by (intro conjI) (simp_all, auto simp: torn_insert)
    with True show ?thesis by simp
  qed
qed

lemma walk_inv_seen:
  assumes "walk_inv hf snd_fn t0 e d C (t, v)" "X \<subseteq> stamped t \<union> torn snd_fn d (stamped t)"
  shows "walk_inv hf snd_fn t0 e d (C \<union> X) (t, v)"
  using assms by (auto simp: walk_inv_def)

definition offered :: "ws_topic_tree \<Rightarrow> u64 \<Rightarrow> nat set \<Rightarrow> nat set" where
  "offered t0 except_id S = {s \<in> S. ws_id (t_sessions t0 ! s) \<noteq> except_id}"

lemma slot_session:
  assumes "tree_ok hf t" "sub_slot (t_nodes t) a i = Some s"
  shows "s < length (t_sessions t)"
proof -
  have "s \<in> subs_at (t_nodes t) a" using assms(2) by (auto simp: subs_at_slot)
  then show ?thesis using tree_okD(6) [OF assms(1)] by (simp add: holders_def)
qed

lemma visit_slot_eq:
  assumes "t_nodes t a \<noteq> None"
  shows "ws_topic_visit_slot hf snd_fn a i (t, v) =
    (case sub_slot (t_nodes t) a i of None \<Rightarrow> (t, v)
     | Some s \<Rightarrow>
         if ws_id (t_sessions t ! s) = v_except v \<or> topic_mark (t_sessions t ! s) = t_mark t then (t, v)
         else if \<not> v_deliver v then (stamp t s, v\<lparr>v_hits := v_hits v + 1\<rparr>)
         else (teardown hf (snd (snd_fn s)) (stamp t s),
           v\<lparr>v_hits := v_hits v + (if fst (snd_fn s) then 1 else 0), v_sent := v_sent v @ [s]\<rparr>))"
  using assms
  by (auto simp: ws_topic_visit_slot_def sub_slot_def teardown_def split: option.splits prod.splits)

lemma walk_inv_slot:
  assumes inv: "walk_inv hf snd_fn t0 e d C (t, v)" and ok0: "tree_ok hf t0"
    and w: "0 < t_walking t0" and n0: "t_nodes t0 a \<noteq> None"
  shows "walk_inv hf snd_fn t0 e d (C \<union> offered t0 e (set_option (sub_slot (t_nodes t0) a i)))
    (ws_topic_visit_slot hf snd_fn a i (t, v))"
proof -
  note I = inv [unfolded walk_inv_def prod.case]
  have fr: "frozen (t_nodes t0) (t_nodes t)" and ok: "tree_ok hf t"
    and len: "length (t_sessions t) = length (t_sessions t0)"
    using I by (auto dest: map_eq_imp_length_eq)
  have here: "t_nodes t a \<noteq> None" using n0 frozenD [OF fr] by fastforce
  show ?thesis
  proof (cases "sub_slot (t_nodes t) a i")
    case None
    have "offered t0 e (set_option (sub_slot (t_nodes t0) a i)) \<subseteq> torn snd_fn d (stamped t)"
    proof
      fix s assume "s \<in> offered t0 e (set_option (sub_slot (t_nodes t0) a i))"
      then have "sub_slot (t_nodes t0) a i = Some s" by (simp add: offered_def)
      from tombstone_lost [OF ok0 ok fr len this None] obtain f
        where "(s, f) \<in> subscriptions t0" "(s, f) \<notin> subscriptions t" by blast
      then show "s \<in> torn snd_fn d (stamped t)" using I by auto
    qed
    then show ?thesis
      using walk_inv_seen [OF inv] None by (simp add: visit_slot_eq [OF here] le_supI2)
  next
    case (Some s)
    have s0: "sub_slot (t_nodes t0) a i = Some s" using frozen_slot [OF fr, of a i] Some by simp
    have s: "s < length (t_sessions t)" using slot_session [OF ok Some] .
    have id: "ws_id (t_sessions t ! s) = ws_id (t_sessions t0 ! s)"
    proof -
      have "map ws_id (t_sessions t) ! s = map ws_id (t_sessions t0) ! s" using I by presburger
      then show ?thesis using s len by simp
    qed
    have ve: "v_except v = e" "v_deliver v = d" using I by auto
    consider "ws_id (t_sessions t ! s) = e" | "ws_id (t_sessions t ! s) \<noteq> e" "s \<in> stamped t"
      | "ws_id (t_sessions t ! s) \<noteq> e" "s \<notin> stamped t" by blast
    then show ?thesis
    proof cases
      case 1
      then have "offered t0 e (set_option (sub_slot (t_nodes t0) a i)) = {}"
        using s0 id by (auto simp: offered_def)
      with 1 show ?thesis using inv Some ve by (simp add: visit_slot_eq [OF here])
    next
      case 2
      then have "ws_topic_visit_slot hf snd_fn a i (t, v) = (t, v)"
        using Some by (simp add: visit_slot_eq [OF here] stamped_def)
      moreover have "offered t0 e (set_option (sub_slot (t_nodes t0) a i)) \<subseteq> stamped t"
        using 2 s0 by (auto simp: offered_def)
      ultimately show ?thesis using walk_inv_seen [OF inv] by (simp add: le_supI1)
    next
      case 3
      then have "offered t0 e (set_option (sub_slot (t_nodes t0) a i)) = {s}"
        using s0 id by (auto simp: offered_def)
      moreover have "topic_mark (t_sessions t ! s) \<noteq> t_mark t" using 3 s by (simp add: stamped_def)
      ultimately show ?thesis
        using walk_inv_offer [OF inv w s 3(2)] 3(1) Some ve by (simp add: visit_slot_eq [OF here])
    qed
  qed
qed

lemma fold_slots_inv:
  assumes "tree_ok hf t0" "0 < t_walking t0" "t_nodes t0 a \<noteq> None"
    and "walk_inv hf snd_fn t0 e d C w"
  shows "walk_inv hf snd_fn t0 e d (C \<union> (\<Union>i\<in>set is. offered t0 e (set_option (sub_slot (t_nodes t0) a i))))
    (fold (ws_topic_visit_slot hf snd_fn a) is w)"
  using assms(4)
proof (induction "is" arbitrary: C w)
  case (Cons i "is")
  have "walk_inv hf snd_fn t0 e d (C \<union> offered t0 e (set_option (sub_slot (t_nodes t0) a i)))
      (ws_topic_visit_slot hf snd_fn a i w)"
    using walk_inv_slot [OF _ assms(1-3)] Cons.prems by (cases w) blast
  from Cons.IH [OF this] show ?case by (simp add: Un_assoc)
qed simp

lemma walk_inv_frozen: "walk_inv hf snd_fn t0 e d C w \<Longrightarrow> frozen (t_nodes t0) (t_nodes (fst w))"
  by (cases w) (simp add: walk_inv_def)

lemma slots_offered:
  assumes "N a = Some n"
  shows "(\<Union>i\<in>set [0..<length (n_subs n)]. offered t0 e (set_option (sub_slot N a i))) = offered t0 e (subs_at N a)"
proof (rule set_eqI)
  fix s
  have "(\<exists>i<length (n_subs n). sub_slot N a i = Some s) \<longleftrightarrow> s \<in> subs_at N a"
    unfolding subs_at_slot using assms by (auto simp: sub_slot_def)
  then show "s \<in> (\<Union>i\<in>set [0..<length (n_subs n)]. offered t0 e (set_option (sub_slot N a i))) \<longleftrightarrow>
      s \<in> offered t0 e (subs_at N a)"
    by (simp add: offered_def Bex_def)
qed

lemma walk_inv_visit:
  assumes "tree_ok hf t0" "0 < t_walking t0" "t_nodes t0 a \<noteq> None"
    and inv: "walk_inv hf snd_fn t0 e d C w"
  shows "walk_inv hf snd_fn t0 e d (C \<union> offered t0 e (subs_at (t_nodes t0) a)) (ws_topic_visit hf snd_fn a w)"
proof -
  obtain n0 where n0: "t_nodes t0 a = Some n0" using assms(3) by blast
  obtain n where n: "t_nodes (fst w) a = Some n" "length (n_subs n) = length (n_subs n0)"
    using frozenD [OF walk_inv_frozen [OF inv] n0] by blast
  have "ws_topic_visit hf snd_fn a w = fold (ws_topic_visit_slot hf snd_fn a) [0..<length (n_subs n0)] w"
    by (simp only: ws_topic_visit_def n option.case)
  then show ?thesis
    using fold_slots_inv [OF assms, of "[0..<length (n_subs n0)]"] by (simp only: slots_offered [of "t_nodes t0", OF n0])
qed

text \<open>The addresses the walk visits, in order.\<close>

primrec walk_addrs :: "(addr \<rightharpoonup> ws_topic_node) \<Rightarrow> string list \<Rightarrow> addr \<Rightarrow> addr list" where
  "walk_addrs N [] a = (if N (a @ [Hash]) \<noteq> None then [a @ [Hash]] else []) @ [a]"
| "walk_addrs N (l # ls) a =
     (if N (a @ [Hash]) \<noteq> None then [a @ [Hash]] else []) @
     (if N (a @ [Lit l]) \<noteq> None then walk_addrs N ls (a @ [Lit l]) else []) @
     (if N (a @ [Plus]) \<noteq> None then walk_addrs N ls (a @ [Plus]) else [])"

definition reached :: "ws_topic_tree \<Rightarrow> u64 \<Rightarrow> addr list \<Rightarrow> nat set" where
  "reached t0 e as = offered t0 e (\<Union>a\<in>set as. subs_at (t_nodes t0) a)"

lemma reached_append [simp]: "reached t0 e (as @ bs) = reached t0 e as \<union> reached t0 e bs"
  by (auto simp: reached_def offered_def)

lemma reached_Nil [simp]: "reached t0 e [] = {}"
  by (simp add: reached_def offered_def)

lemma reached_single [simp]: "reached t0 e [a] = offered t0 e (subs_at (t_nodes t0) a)"
  by (simp add: reached_def)

lemma walk_inv_on_link:
  assumes ok0: "tree_ok hf t0" and n0: "t_nodes t0 a \<noteq> None"
    and inv: "walk_inv hf snd_fn t0 e d C w"
    and step: "t_nodes t0 (a @ [l]) \<noteq> None \<Longrightarrow> walk_inv hf snd_fn t0 e d (C \<union> reached t0 e as) (f w)"
  shows "walk_inv hf snd_fn t0 e d (C \<union> reached t0 e (if t_nodes t0 (a @ [l]) \<noteq> None then as else []))
    (on_link l a f w)"
proof -
  obtain n where n: "t_nodes t0 a = Some n" using n0 by blast
  have "t_nodes t0 (a @ [l]) \<noteq> None \<longleftrightarrow> has_link l n"
    using shape_okD(2) [OF tree_okD(1) [OF ok0], of a l] n by auto
  moreover obtain m where "t_nodes (fst w) a = Some m" "has_link l m = has_link l n"
    using frozenD [OF walk_inv_frozen [OF inv] n] by blast
  ultimately show ?thesis using step inv by (auto simp: on_link_def)
qed

lemma walk_inv_walk:
  assumes ok0: "tree_ok hf t0" and w: "0 < t_walking t0" and n0: "t_nodes t0 a \<noteq> None"
    and inv: "walk_inv hf snd_fn t0 e d C st"
  shows "walk_inv hf snd_fn t0 e d (C \<union> reached t0 e (walk_addrs (t_nodes t0) ls a))
    (ws_topic_walk hf snd_fn ls a st)"
  using n0 inv
proof (induction ls arbitrary: a C st)
  case Nil
  have "walk_inv hf snd_fn t0 e d
      (C \<union> reached t0 e (if t_nodes t0 (a @ [Hash]) \<noteq> None then [a @ [Hash]] else []))
      (on_link Hash a (ws_topic_visit hf snd_fn (a @ [Hash])) st)"
    using Nil walk_inv_visit [OF ok0 w _ Nil(2)] by (intro walk_inv_on_link [OF ok0]) auto
  from walk_inv_visit [OF ok0 w Nil(1) this] show ?case by (simp add: Un_assoc)
next
  case (Cons l ls)
  let ?h = "if t_nodes t0 (a @ [Hash]) \<noteq> None then [a @ [Hash]] else []"
  let ?w1 = "on_link Hash a (ws_topic_visit hf snd_fn (a @ [Hash])) st"
  let ?w2 = "on_link (Lit l) a (ws_topic_walk hf snd_fn ls (a @ [Lit l])) ?w1"
  let ?w3 = "on_link Plus a (ws_topic_walk hf snd_fn ls (a @ [Plus])) ?w2"
  let ?as = "\<lambda>x. if t_nodes t0 (a @ [x]) \<noteq> None then walk_addrs (t_nodes t0) ls (a @ [x]) else []"
  have h: "walk_inv hf snd_fn t0 e d (C \<union> reached t0 e ?h) ?w1"
    using Cons.prems walk_inv_visit [OF ok0 w _ Cons.prems(2)] by (intro walk_inv_on_link [OF ok0]) auto
  have l: "walk_inv hf snd_fn t0 e d ((C \<union> reached t0 e ?h) \<union> reached t0 e (?as (Lit l))) ?w2"
    by (rule walk_inv_on_link [OF ok0 Cons.prems(1) h]) (rule Cons.IH [OF _ h])
  have "walk_inv hf snd_fn t0 e d
      (((C \<union> reached t0 e ?h) \<union> reached t0 e (?as (Lit l))) \<union> reached t0 e (?as Plus)) ?w3"
    by (rule walk_inv_on_link [OF ok0 Cons.prems(1) l]) (rule Cons.IH [OF _ l])
  then show ?case
    by (simp only: walk_addrs.simps ws_topic_walk.simps reached_append Un_assoc)
qed

section \<open>Which nodes are reached\<close>

text \<open>\<open>mqtt_match\<close> on addresses.\<close>

fun addr_match :: "addr \<Rightarrow> string list \<Rightarrow> bool" where
  "addr_match [] ts \<longleftrightarrow> ts = []"
| "addr_match (Hash # b) ts \<longleftrightarrow> b = []"
| "addr_match (Plus # b) ts \<longleftrightarrow> (case ts of [] \<Rightarrow> False | t # ts' \<Rightarrow> addr_match b ts')"
| "addr_match (Lit l # b) ts \<longleftrightarrow> (case ts of [] \<Rightarrow> False | t # ts' \<Rightarrow> l = t \<and> addr_match b ts')"

lemma addr_match_edge_of: "addr_match (map edge_of fs) ts \<longleftrightarrow> mqtt_match fs ts"
proof (induction fs arbitrary: ts)
  case (Cons f fs)
  have "\<not> (is_plus f \<and> is_hash f)" by (auto simp: is_plus_def is_hash_def)
  then show ?case
    using Cons.IH by (cases ts) (auto simp: edge_of_def)
qed simp

lemma addr_match_filter: "addr_match (filter_addr f) (split_slash t) \<longleftrightarrow> mqtt_match (split_slash f) (split_slash t)"
  by (simp add: filter_addr_def addr_match_edge_of)

lemma addr_match_cases:
  "addr_match b (l # ls) \<longleftrightarrow>
     b = [Hash] \<or> (\<exists>c. b = Lit l # c \<and> addr_match c ls) \<or> (\<exists>c. b = Plus # c \<and> addr_match c ls)"
  by (cases "(b, l # ls)" rule: addr_match.cases) auto

lemma addr_match_Nil: "addr_match b [] \<longleftrightarrow> b = [] \<or> b = [Hash]"
  by (cases "(b, [] :: string list)" rule: addr_match.cases) auto

lemma walk_addrs_iff:
  assumes sh: "shape_ok X D N"
  shows "N a \<noteq> None \<Longrightarrow>
    c \<in> set (walk_addrs N ls a) \<longleftrightarrow> (\<exists>b. c = a @ b \<and> N c \<noteq> None \<and> addr_match b ls)"
proof (induction ls arbitrary: a)
  case Nil
  then show ?case by (auto simp: addr_match_Nil)
next
  case (Cons l ls)
  have up: "N (a @ x # b) \<noteq> None \<Longrightarrow> N (a @ [x]) \<noteq> None" for x b
    using shape_prefix_closed [OF sh, of "a @ [x]" b] by simp
  have below: "c \<in> set (walk_addrs N ls (a @ [x])) \<longleftrightarrow>
      (\<exists>b. c = a @ x # b \<and> N c \<noteq> None \<and> addr_match b ls)" if "N (a @ [x]) \<noteq> None" for x
    using Cons.IH [OF that] by simp
  have "c \<in> set (if N (a @ [x]) \<noteq> None then walk_addrs N ls (a @ [x]) else []) \<longleftrightarrow>
      (\<exists>b. c = a @ x # b \<and> N c \<noteq> None \<and> addr_match b ls)" for x
  proof (cases "N (a @ [x]) = None")
    case True
    then have "N (a @ x # b) = None" for b using up [of x b] by blast
    with True show ?thesis by auto
  next
    case False
    with below [OF False] show ?thesis by simp
  qed
  moreover have "c \<in> set (if N (a @ [Hash]) \<noteq> None then [a @ [Hash]] else []) \<longleftrightarrow>
      c = a @ [Hash] \<and> N c \<noteq> None" by auto
  ultimately show ?case
    unfolding walk_addrs.simps set_append Un_iff addr_match_cases by blast
qed

definition matched :: "ws_topic_tree \<Rightarrow> string \<Rightarrow> u64 \<Rightarrow> nat set" where
  "matched t topic except_id =
     {s. (\<exists>f. (s, f) \<in> subscriptions t \<and> topic_matches f topic) \<and> ws_id (t_sessions t ! s) \<noteq> except_id}"

lemma topic_matches_iff:
  assumes "ws_topic_split topic = Some ls" "ws_topic_split f \<noteq> None"
  shows "topic_matches f topic \<longleftrightarrow> addr_match (filter_addr f) (map snd ls)"
  using assms by (auto simp: topic_matches_def addr_match_filter ws_topic_split_SomeD(1))

lemma reached_matched:
  assumes ok: "tree_ok hf t" and sp: "ws_topic_split topic = Some ls"
  shows "reached t e (walk_addrs (t_nodes t) (map snd ls) []) = matched t topic e"
proof (rule set_eqI)
  fix s
  note sh = tree_okD(1) [OF ok]
  have "(\<exists>a\<in>set (walk_addrs (t_nodes t) (map snd ls) []). s \<in> subs_at (t_nodes t) a) \<longleftrightarrow>
      (\<exists>a. addr_match a (map snd ls) \<and> s \<in> subs_at (t_nodes t) a)"
    using walk_addrs_iff [OF sh shape_okD(1) [OF sh]] by (force simp: subs_at_def split: option.splits)
  also have "\<dots> \<longleftrightarrow> (\<exists>f. (s, f) \<in> subscriptions t \<and> topic_matches f topic)"
    unfolding tree_okD(6) [OF ok] using tree_okD(5) [OF ok, of s] topic_matches_iff [OF sp]
    by (fastforce simp: holders_def subscriptions_def ws_topic_list_def session_ok_def)
  finally show "s \<in> reached t e (walk_addrs (t_nodes t) (map snd ls) []) \<longleftrightarrow> s \<in> matched t topic e"
    by (simp add: reached_def offered_def matched_def)
qed

section \<open>Publishing\<close>

lemma ws_tree_settle_ok:
  assumes ok: "tree_ok hf t" and t: "t = t'\<lparr>t_walking := w\<rparr>" and w: "t_walking t' = 0"
  shows "tree_ok hf (ws_tree_settle t') \<and> subscriptions (ws_tree_settle t') = subscriptions t \<and>
    t_walking (ws_tree_settle t') = 0 \<and> t_mark (ws_tree_settle t') = t_mark t \<and>
    t_sessions (ws_tree_settle t') = t_sessions t"
proof -
  have f: "t_nodes t' = t_nodes t" "t_dirty t' = t_dirty t" "t_sessions t' = t_sessions t"
      "t_hub t' = t_hub t" "t_fault t' = t_fault t" "t_mark t' = t_mark t"
    by (simp_all add: t)
  obtain N where N: "ws_tree_settle_loop t' (t_dirty t') = t'\<lparr>t_nodes := N\<rparr>" "shape_ok {} {} N"
      "subs_at N = subs_at (t_nodes t)"
    using ws_tree_settle_loop_shape [of "t_dirty t'" t'] tree_okD(1,2) [OF ok] by (auto simp: f)
  have "ws_tree_settle t' = t'\<lparr>t_nodes := N, t_dirty := []\<rparr>"
    unfolding ws_tree_settle_def N(1) by simp
  then show ?thesis
    using ok N(2,3) w f by (simp add: tree_ok_def subscriptions_def)
qed

lemma next_word_less:
  fixes m :: "'a::len word"
  assumes "m \<noteq> - 1" "x \<le> m"
  shows "x < m + 1"
proof -
  have "1 + m \<noteq> 0" using assms(1) by (metis add.commute eq_neg_iff_add_eq_0)
  then have "unat (m + 1) = Suc (unat m)" by (metis add.commute unatSuc)
  with assms(2) show ?thesis by (simp add: word_less_nat_alt word_le_nat_alt)
qed

lemma walk_inv_init:
  assumes ok: "tree_ok hf t" and m: "marks_ok t" "t_mark t \<noteq> - 1"
  defines "t0 \<equiv> t\<lparr>t_mark := t_mark t + 1, t_walking := t_walking t + 1\<rparr>"
  shows "tree_ok hf t0" "subscriptions t0 = subscriptions t" "0 < t_walking t0"
    "walk_inv hf snd_fn t0 e d {} (t0, \<lparr>v_except = e, v_deliver = d, v_hits = 0, v_sent = []\<rparr>)"
proof -
  show ok0: "tree_ok hf t0" and "subscriptions t0 = subscriptions t" and "0 < t_walking t0"
    using ok by (auto simp: tree_ok_def t0_def subscriptions_def)
  have less: "x \<le> t_mark t \<Longrightarrow> x < t_mark t + 1" for x
    using next_word_less [OF m(2)] by simp
  have "topic_mark (t_sessions t ! s) \<noteq> t_mark t + 1" if "s < length (t_sessions t)" for s
    using less [of "topic_mark (t_sessions t ! s)"] m(1) that by (auto simp: marks_ok_def)
  then have "stamped t0 = {}"
    by (simp add: stamped_def t0_def)
  moreover have "marks_ok t0"
    using m(1) less by (auto simp: t0_def marks_ok_def intro: less_imp_le)
  ultimately show "walk_inv hf snd_fn t0 e d {} (t0, \<lparr>v_except = e, v_deliver = d, v_hits = 0, v_sent = []\<rparr>)"
    using ok0 by (simp add: walk_inv_def torn_def)
qed

text \<open>What a match promises, whoever the sends tear down.\<close>

definition match_result ::
    "try_send \<Rightarrow> ws_topic_tree \<Rightarrow> string \<Rightarrow> u64 \<Rightarrow> bool \<Rightarrow> ws_topic_tree \<Rightarrow> ws_topic_visit_t \<Rightarrow> bool" where
  "match_result snd_fn t topic e d t' v' \<longleftrightarrow>
     (\<exists>S. S \<subseteq> matched t topic e \<and> matched t topic e \<subseteq> S \<union> torn snd_fn d S \<and> finite S \<and>
        subscriptions t' = subscriptions t - torn snd_fn d S \<times> UNIV \<and>
        v_hits v' = card {s \<in> S. d \<longrightarrow> fst (snd_fn s)} \<and>
        distinct (v_sent v') \<and> set (v_sent v') = (if d then S else {}))"

lemma ws_topic_match_ok:
  assumes ok: "tree_ok hf t" and m: "marks_ok t" "t_mark t \<noteq> - 1"
    and res: "ws_topic_match hf snd_fn t topic
      \<lparr>v_except = e, v_deliver = d, v_hits = 0, v_sent = []\<rparr> = (t', v')"
  shows "tree_ok hf t' \<and> t_walking t' = t_walking t \<and> marks_ok t' \<and>
    map ws_id (t_sessions t') = map ws_id (t_sessions t) \<and> match_result snd_fn t topic e d t' v'"
proof (cases "ws_topic_split topic")
  case None
  then have "matched t topic e = {}" by (simp add: matched_def topic_matches_def split: option.splits)
  then show ?thesis
    using None res ok m(1) by (auto simp: ws_topic_match_def match_result_def torn_def intro!: exI [of _ "{}"])
next
  case (Some ls)
  define t0 where "t0 = t\<lparr>t_mark := t_mark t + 1, t_walking := t_walking t + 1\<rparr>"
  note init = walk_inv_init [OF ok m, folded t0_def]
  obtain t1 v1 where w: "ws_topic_walk hf snd_fn (map snd ls) []
      (t0, \<lparr>v_except = e, v_deliver = d, v_hits = 0, v_sent = []\<rparr>) = (t1, v1)" by fastforce
  define t2 where "t2 = t1\<lparr>t_walking := t_walking t1 - 1\<rparr>"
  have "reached t0 e (walk_addrs (t_nodes t0) (map snd ls) []) = matched t0 topic e"
    by (rule reached_matched [OF init(1) Some])
  then have "walk_inv hf snd_fn t0 e d (matched t0 topic e) (t1, v1)"
    using walk_inv_walk [OF init(1,3) shape_okD(1) [OF tree_okD(1) [OF init(1)]] init(4)] w by (metis Un_empty_left)
  moreover have "matched t0 topic e = matched t topic e"
    using init(2) by (simp add: matched_def) (simp add: t0_def)
  ultimately have I: "walk_inv hf snd_fn t0 e d (matched t topic e) (t1, v1)" by simp
  have ok1: "tree_ok hf t1" and f1: "t_walking t1 = t_walking t + 1" "marks_ok t1"
      "map ws_id (t_sessions t1) = map ws_id (t_sessions t)"
    using I by (simp_all add: walk_inv_def t0_def)
  have mr: "match_result snd_fn t topic e d t1 v1"
    using I init(2) unfolding match_result_def walk_inv_def by (intro exI [of _ "stamped t1"]) simp
  have res': "t' = (if t_walking t2 = 0 then ws_tree_settle t2 else t2)" "v' = v1"
    using res by (simp_all only: ws_topic_match_def Some option.case t0_def [symmetric] w prod.case
        Let_def t2_def [symmetric] prod.inject)
  have t': "tree_ok hf t' \<and> subscriptions t' = subscriptions t1 \<and> t_walking t' = t_walking t \<and>
      t_mark t' = t_mark t1 \<and> t_sessions t' = t_sessions t1"
  proof (cases "t_walking t2 = 0")
    case True
    have "t1 = t2\<lparr>t_walking := t_walking t1\<rparr>" by (simp add: t2_def)
    from ws_tree_settle_ok [OF ok1 this True] show ?thesis
      using True f1(1) by (simp add: res' t2_def)
  next
    case False
    then show ?thesis
      using ok1 f1(1) by (auto simp: res' t2_def tree_ok_def subscriptions_def)
  qed
  then show ?thesis
    using f1 mr by (simp add: marks_ok_def match_result_def res'(2))
qed

end
