(* ===== verification/Topic_Worker.thy ===== *)
theory Topic_Worker
  imports Topic_Tree_Walk
begin

text \<open>
  A worker's topic tree as a state machine: the states reached from
  \<open>ws_topic_tree_create\<close> by opening sessions and by any sequence of the operations of
  \<open>ws_topic_tree.c\<close>, with any transport behind \<open>ws_session_try_send\<close>.  The properties of
  the component are stated about these states.
\<close>

definition ws_session_open :: "ws_topic_tree \<Rightarrow> u64 \<Rightarrow> ws_topic_tree" where
  "ws_session_open t i = t\<lparr>t_sessions := t_sessions t @ [\<lparr>ws_id = i, topic_mark = 0, topics = []\<rparr>]\<rparr>"

inductive topic_reach :: "(string \<Rightarrow> u32) \<Rightarrow> ws_topic_tree \<Rightarrow> bool" for hf where
  create: "topic_reach hf (ws_topic_tree_create (Some (replicate WS_INTEREST_BUCKETS 0)) [])"
| create_unslotted: "topic_reach hf (ws_topic_tree_create None [])"
| session_open: "topic_reach hf t \<Longrightarrow> topic_reach hf (ws_session_open t i)"
| subscribe: "topic_reach hf t \<Longrightarrow> s < length (t_sessions t) \<Longrightarrow>
    topic_reach hf (fst (ws_topic_subscribe hf t s f quota))"
| unsubscribe: "topic_reach hf t \<Longrightarrow> s < length (t_sessions t) \<Longrightarrow>
    topic_reach hf (fst (ws_topic_unsubscribe hf True t s f))"
| unsubscribe_all: "topic_reach hf t \<Longrightarrow> topic_reach hf (ws_topic_unsubscribe_all hf True t s)"
| publish: "topic_reach hf t \<Longrightarrow> t_mark t \<noteq> - 1 \<Longrightarrow>
    topic_reach hf (fst (ws_topic_publish hf snd_fn t topic except_id))"
| count: "topic_reach hf t \<Longrightarrow> t_mark t \<noteq> - 1 \<Longrightarrow> topic_reach hf (fst (ws_topic_count hf t topic))"

definition worker_ok :: "(string \<Rightarrow> u32) \<Rightarrow> ws_topic_tree \<Rightarrow> bool" where
  "worker_ok hf t \<longleftrightarrow> tree_ok hf t \<and> marks_ok t \<and> t_walking t = 0"

lemma worker_ok_same_frame:
  "tree_ok hf t' \<Longrightarrow> same_frame t t' \<Longrightarrow> worker_ok hf t \<Longrightarrow> worker_ok hf t'"
  by (simp only: worker_ok_def same_frame_def marks_ok_def simp_thms) blast

lemma shape_ok_root: "shape_ok {} {} [[] \<mapsto> ws_node_new]"
  by (auto simp: shape_ok_def)

lemma worker_ok_create:
  assumes "interest_for hf {#} hub"
  shows "worker_ok hf (ws_topic_tree_create hub [])"
proof -
  have "subs_at [[] \<mapsto> ws_node_new] = holders []"
    by (auto simp: subs_at_def holders_def fun_eq_iff)
  then show ?thesis
    using assms shape_ok_root
    by (simp add: worker_ok_def tree_ok_def ws_topic_tree_create_def marks_ok_def live_filters_def)
qed

lemma worker_ok_open:
  assumes "worker_ok hf t"
  shows "worker_ok hf (ws_session_open t i) \<and> subscriptions (ws_session_open t i) = subscriptions t"
proof -
  have "holders (t_sessions (ws_session_open t i)) = holders (t_sessions t)"
    by (auto simp: holders_def ws_session_open_def fun_eq_iff nth_append)
  moreover have "live_filters (t_sessions (ws_session_open t i)) = live_filters (t_sessions t)"
    by (simp add: live_filters_def ws_session_open_def ws_topic_list_def)
  moreover have "subscriptions (ws_session_open t i) = subscriptions t"
    by (auto simp: subscriptions_def ws_session_open_def ws_topic_list_def nth_append split: if_splits)
  ultimately show ?thesis
    using assms
    by (auto simp: worker_ok_def tree_ok_def marks_ok_def ws_session_open_def session_ok_def ws_topic_list_def)
qed

lemma worker_ok_match:
  assumes "worker_ok hf t" "t_mark t \<noteq> - 1"
    and "ws_topic_match hf snd_fn t topic \<lparr>v_except = e, v_deliver = d, v_hits = 0, v_sent = []\<rparr> = (t', v')"
  shows "worker_ok hf t' \<and> map ws_id (t_sessions t') = map ws_id (t_sessions t) \<and>
    match_result snd_fn t topic e d t' v'"
  using assms ws_topic_match_ok [OF _ _ assms(2,3)] by (auto simp: worker_ok_def)

lemma topic_reach_ok: "topic_reach hf t \<Longrightarrow> worker_ok hf t"
proof (induction rule: topic_reach.induct)
  case create
  show ?case by (intro worker_ok_create interest_for_init)
next
  case create_unslotted
  show ?case by (rule worker_ok_create) (simp add: interest_for_def)
next
  case (session_open t i)
  then show ?case using worker_ok_open by blast
next
  case (subscribe t s f quota)
  then show ?case
    using ws_topic_subscribe_ok [of hf t s f quota] worker_ok_same_frame
    by (metis prod.collapse worker_ok_def)
next
  case (unsubscribe t s f)
  then show ?case
    using ws_topic_unsubscribe_ok [of hf t s f] worker_ok_same_frame
    by (metis prod.collapse worker_ok_def keeps_def)
next
  case (unsubscribe_all t s)
  then show ?case
    using ws_topic_unsubscribe_all_ok [of hf t s] worker_ok_same_frame
    by (metis worker_ok_def keeps_def)
next
  case (publish t snd_fn topic e)
  then show ?case
    using worker_ok_match by (metis prod.collapse ws_topic_publish_def)
next
  case (count t topic)
  then show ?case
    using worker_ok_match by (metis prod.collapse ws_topic_count_def)
qed

lemma longest_below:
  assumes "finite (dom N)" "N a \<noteq> None"
  shows "\<exists>c. prefix a c \<and> N c \<noteq> None \<and> (\<forall>d. prefix a d \<longrightarrow> N d \<noteq> None \<longrightarrow> length d \<le> length c)"
proof -
  let ?S = "{c. prefix a c \<and> N c \<noteq> None}"
  have "finite ?S" using assms(1) by (rule rev_finite_subset) auto
  moreover have "?S \<noteq> {}" using assms(2) by auto
  ultimately have "Max (length ` ?S) \<in> length ` ?S" "\<forall>d\<in>?S. length d \<le> Max (length ` ?S)"
    by (auto intro!: Max_in)
  then show ?thesis by auto
qed

lemma live_node:
  assumes "worker_ok hf t" "t_nodes t c = Some n" "n_subs n \<noteq> []"
  shows "\<exists>s f. (s, f) \<in> subscriptions t \<and> c = filter_addr f"
proof -
  have ok: "tree_ok hf t" and "t_dirty t = []"
    using assms(1) by (auto simp: worker_ok_def tree_ok_def)
  then have "n_dead n = 0"
    using shape_okD(3,5) [OF tree_okD(1) [OF ok] assms(2)] by (auto simp: node_ok_def)
  then have "None \<notin> set (n_subs n)"
    using shape_okD(3) [OF tree_okD(1) [OF ok] assms(2)] by (simp add: node_ok_def count_list_0_iff)
  moreover obtain x xs where "n_subs n = x # xs" using assms(3) by (cases "n_subs n") auto
  ultimately obtain s where "s \<in> subs_at (t_nodes t) c"
    using assms(2) by (cases x) (auto simp: subs_at_def)
  then have "s \<in> holders (t_sessions t) c" using tree_okD(6) [OF ok] by simp
  then show ?thesis
    using tree_okD(5) [OF ok, of s]
    by (force simp: holders_def subscriptions_def ws_topic_list_def session_ok_def)
qed

lemma live_addr:
  assumes "worker_ok hf t" "(s, f) \<in> subscriptions t"
  shows "s \<in> subs_at (t_nodes t) (filter_addr f)"
proof -
  have ok: "tree_ok hf t" using assms(1) by (simp add: worker_ok_def)
  show ?thesis
    unfolding tree_okD(6) [OF ok] using assms(2) tree_okD(5) [OF ok, of s]
    by (force simp: holders_def subscriptions_def ws_topic_list_def session_ok_def)
qed

lemma worker_nodes:
  assumes w: "worker_ok hf t"
  shows "t_nodes t a \<noteq> None \<longleftrightarrow> a = [] \<or> (\<exists>s f. (s, f) \<in> subscriptions t \<and> prefix a (filter_addr f))"
    (is "_ \<longleftrightarrow> ?R")
proof
  have sh: "shape_ok {} (set (t_dirty t)) (t_nodes t)"
    using w tree_okD(1) unfolding worker_ok_def by blast
  assume "t_nodes t a \<noteq> None"
  from longest_below [OF shape_okD(7) [OF sh] this] obtain c where c: "prefix a c" "t_nodes t c \<noteq> None"
      "\<And>d. prefix a d \<Longrightarrow> t_nodes t d \<noteq> None \<Longrightarrow> length d \<le> length c" by blast
  from c(2) obtain n where n: "t_nodes t c = Some n" by blast
  have "\<not> has_link e n" for e
    using c(1) c(3) [of "c @ [e]"] shape_okD(2) [OF sh, of c e] n by auto
  then have "c \<noteq> [] \<Longrightarrow> n_subs n \<noteq> []"
    using shape_okD(4) [OF sh n] by (auto simp: empty_node_links)
  with live_node [OF w n] c(1) show ?R by (cases "c = []") auto
next
  have sh: "shape_ok {} (set (t_dirty t)) (t_nodes t)"
    using w tree_okD(1) unfolding worker_ok_def by blast
  assume ?R
  then show "t_nodes t a \<noteq> None"
  proof
    assume "\<exists>s f. (s, f) \<in> subscriptions t \<and> prefix a (filter_addr f)"
    then obtain s f b where f: "(s, f) \<in> subscriptions t" "filter_addr f = a @ b"
      by (auto simp: prefix_def)
    then have "t_nodes t (a @ b) \<noteq> None"
      using live_addr [OF w f(1)] by (auto simp: subs_at_def split: option.splits)
    then show ?thesis by (rule shape_prefix_closed [OF sh])
  qed (use shape_okD(1) [OF sh] in simp)
qed

lemma interest_hit:
  assumes "topic_reach hf t" "(s, f) \<in> subscriptions t" "topic_matches f topic"
  shows "ws_interest_matches (t_hub t) (ws_interest_build hf topic)"
proof -
  have i: "interest_for hf (live_filters (t_sessions t)) (t_hub t)"
    using topic_reach_ok [OF assms(1)] by (auto simp: worker_ok_def tree_ok_def)
  have "f \<in># live_filters (t_sessions t)"
    using assms(2) by (auto simp: live_filters_def subscriptions_def intro!: bexI [of _ "t_sessions t ! s"])
  then show ?thesis using ws_interest_no_false_negative i assms(3) by blast
qed

section \<open>Properties\<close>

lemma match_publish:
  assumes "worker_ok hf t" "t_mark t \<noteq> - 1" "ws_topic_publish hf snd_fn t topic e = (t', v)"
  defines "gone \<equiv> (\<Union>s\<in>set (v_sent v). set (snd (snd_fn s)))"
  shows "distinct (v_sent v) \<and> set (v_sent v) \<subseteq> matched t topic e \<and>
    matched t topic e - gone \<subseteq> set (v_sent v) \<and>
    v_hits v = card {s \<in> set (v_sent v). fst (snd_fn s)} \<and>
    subscriptions t' = subscriptions t - gone \<times> UNIV"
proof -
  have "match_result snd_fn t topic e True t' v"
    using worker_ok_match [OF assms(1,2)] assms(3) by (simp add: ws_topic_publish_def)
  then show ?thesis
    unfolding match_result_def gone_def torn_def by auto
qed

text \<open>
  C1. Publishing, with any transport and any teardown inside a send: each session is
  offered the message at most once; only sessions that hold a matching filter and are
  not the excepted one are; and every such session is, unless its subscriptions were
  taken away by a teardown during this publish.  The result is the number of accepted
  sends, and exactly the torn-down sessions have lost their subscriptions.
\<close>

theorem ws_topic_publish_correct:
  assumes "topic_reach hf t" "t_mark t \<noteq> - 1" "ws_topic_publish hf snd_fn t topic e = (t', v)"
  shows "distinct (v_sent v) \<and> set (v_sent v) \<subseteq> matched t topic e \<and>
    matched t topic e - (\<Union>s\<in>set (v_sent v). set (snd (snd_fn s))) \<subseteq> set (v_sent v) \<and>
    v_hits v = card {s \<in> set (v_sent v). fst (snd_fn s)} \<and>
    subscriptions t' = subscriptions t - (\<Union>s\<in>set (v_sent v). set (snd (snd_fn s))) \<times> UNIV"
  by (rule match_publish [OF topic_reach_ok [OF assms(1)] assms(2,3)])

text \<open>Two sessions; the first holds two filters that match \<open>a/b\<close>.\<close>

definition demo_tree :: ws_topic_tree where
  "demo_tree =
     (let h = \<lambda>_. 0;
          t = ws_session_open (ws_session_open (ws_topic_tree_create None []) 1) 2;
          t = fst (ws_topic_subscribe h t 0 ''a/#'' 0);
          t = fst (ws_topic_subscribe h t 0 ''+/b'' 0)
      in fst (ws_topic_subscribe h t 1 ''a/b'' 3))"

lemma demo_eval:
  "t_mark demo_tree = 0"
  "map ws_id (t_sessions demo_tree) = [1, 2]"
  "map ws_topic_list (t_sessions demo_tree) = [[''+/b'', ''a/#''], [''a/b'']]"
  "v_sent (snd (ws_topic_publish (\<lambda>_. 0) (\<lambda>s. (True, [])) demo_tree ''a/b'' 0)) = [0, 1]"
  by code_simp+

lemma demo_reach: "topic_reach (\<lambda>_. 0) demo_tree"
  unfolding demo_tree_def Let_def
  by (intro topic_reach.intros) code_simp+

theorem ws_topic_publish_correct_witness:
  "matched demo_tree ''a/b'' 0 - {} \<subseteq> {0, 1} \<and> {0, 1} \<subseteq> matched demo_tree ''a/b'' 0"
proof -
  obtain t' v where r: "ws_topic_publish (\<lambda>_. 0) (\<lambda>s. (True, [])) demo_tree ''a/b'' 0 = (t', v)"
    by fastforce
  then have "v_sent v = [0, 1]" using demo_eval(4) by simp
  then show ?thesis
    using ws_topic_publish_correct [OF demo_reach _ r] demo_eval(1) by simp
qed

text \<open>
  C7. Counting the subscribers of a topic counts each matching session once, whatever
  number of its filters match, and changes no subscription.
\<close>

theorem ws_topic_count_correct:
  assumes "topic_reach hf t" "t_mark t \<noteq> - 1" "ws_topic_count hf t topic = (t', v)"
  shows "v_hits v = card (matched t topic 0) \<and> subscriptions t' = subscriptions t \<and> v_sent v = []"
proof -
  have "match_result (\<lambda>_. (False, [])) t topic 0 False t' v"
    using worker_ok_match [OF topic_reach_ok [OF assms(1)] assms(2)] assms(3) by (simp add: ws_topic_count_def)
  then show ?thesis
    unfolding match_result_def torn_def by auto
qed

theorem ws_topic_count_correct_witness:
  "card (matched demo_tree ''a/b'' 0) = 2"
proof -
  obtain t' v where r: "ws_topic_count (\<lambda>_. 0) demo_tree ''a/b'' = (t', v)" by fastforce
  moreover have "v_hits (snd (ws_topic_count (\<lambda>_. 0) demo_tree ''a/b'')) = 2" by code_simp
  ultimately show ?thesis
    using ws_topic_count_correct [OF demo_reach _ r] demo_eval(1) by simp
qed

text \<open>
  C2. Memory safety and bookkeeping of the tree: in every reachable state no operation
  has read a freed node, no tombstone is left over, and the sessions stored at a node
  are exactly those whose lists point to it.
\<close>

theorem topic_tree_memory_safe:
  assumes "topic_reach hf t"
  shows "\<not> t_fault t \<and> t_dirty t = [] \<and> t_walking t = 0 \<and> shape_ok {} {} (t_nodes t) \<and>
    subs_at (t_nodes t) = holders (t_sessions t)"
proof -
  have "tree_ok hf t" "t_walking t = 0"
    using topic_reach_ok [OF assms] by (simp_all add: worker_ok_def)
  then show ?thesis
    using tree_okD(1,3,4,6) [of hf t] by auto
qed

theorem topic_tree_memory_safe_witness: "\<not> t_fault demo_tree \<and> t_dirty demo_tree = []"
  using topic_tree_memory_safe [OF demo_reach] by simp

text \<open>
  C4. No growth without subscriptions: the allocated nodes are the root and the nodes on
  the paths of the live filters, so the tree is back to its root once nobody subscribes.
\<close>

theorem topic_tree_no_leak:
  assumes "topic_reach hf t"
  shows "dom (t_nodes t) = insert [] {a. \<exists>s f. (s, f) \<in> subscriptions t \<and> prefix a (filter_addr f)}"
  using worker_nodes [OF topic_reach_ok [OF assms]] by (auto simp: dom_def)

theorem topic_tree_no_leak_witness:
  "[Lit ''a'', Hash] \<in> dom (t_nodes demo_tree)"
proof -
  have "t_sessions demo_tree ! 0 \<in> set (t_sessions demo_tree)" "length (t_sessions demo_tree) = 2" "''a/#'' \<in> set (ws_topic_list (t_sessions demo_tree ! 0))"
    by code_simp+
  then have "(0, ''a/#'') \<in> subscriptions demo_tree" by (simp add: subscriptions_def)
  moreover have "prefix [Lit ''a'', Hash] (filter_addr ''a/#'')" by code_simp
  ultimately show ?thesis unfolding topic_tree_no_leak [OF demo_reach] by blast
qed

text \<open>
  C5. Subscribing refines set insertion: it succeeds exactly when the filter splits and
  the session already holds it or is below its quota (0 is no quota); on success the
  pair is in the set of subscriptions, otherwise nothing changes.
\<close>

theorem ws_topic_subscribe_refines:
  assumes "topic_reach hf t" "s < length (t_sessions t)" "ws_topic_subscribe hf t s f quota = (t', b)"
  shows "(b \<longleftrightarrow> ws_topic_split f \<noteq> None \<and>
       ((s, f) \<in> subscriptions t \<or> quota = 0 \<or> card {g. (s, g) \<in> subscriptions t} < quota)) \<and>
    subscriptions t' = (if b then insert (s, f) (subscriptions t) else subscriptions t) \<and> topic_reach hf t'"
  using ws_topic_subscribe_ok [OF _ assms(2,3)] topic_reach_ok [OF assms(1)]
    topic_reach.subscribe [OF assms(1,2), of f quota] assms(3)
  by (auto simp: worker_ok_def)

theorem ws_topic_subscribe_refines_witness:
  "\<not> snd (ws_topic_subscribe (\<lambda>_. 0) demo_tree 0 ''x'' 2) \<and>
   subscriptions (fst (ws_topic_subscribe (\<lambda>_. 0) demo_tree 0 ''x'' 2)) = subscriptions demo_tree"
proof -
  have l: "0 < length (t_sessions demo_tree)" by code_simp
  have "\<not> snd (ws_topic_subscribe (\<lambda>_. 0) demo_tree 0 ''x'' 2)" by code_simp
  then show ?thesis
    using ws_topic_subscribe_refines [OF demo_reach l prod.collapse [symmetric], of "''x''" 2] by metis
qed

text \<open>
  C6. Unsubscribing refines set removal, and reports whether the pair was there.
\<close>

theorem ws_topic_unsubscribe_refines:
  assumes "topic_reach hf t" "s < length (t_sessions t)" "ws_topic_unsubscribe hf True t s f = (t', b)"
  shows "(b \<longleftrightarrow> (s, f) \<in> subscriptions t) \<and> subscriptions t' = subscriptions t - {(s, f)}"
  using ws_topic_unsubscribe_ok [OF _ assms(2,3)] topic_reach_ok [OF assms(1)]
  by (auto simp: worker_ok_def)

theorem ws_topic_unsubscribe_refines_witness:
  "(0, ''a/#'') \<in> subscriptions demo_tree"
proof -
  have l: "0 < length (t_sessions demo_tree)" by code_simp
  have "snd (ws_topic_unsubscribe (\<lambda>_. 0) True demo_tree 0 ''a/#'')" by code_simp
  then show ?thesis
    using ws_topic_unsubscribe_refines [OF demo_reach l prod.collapse [symmetric], of "''a/#''"] by simp
qed

text \<open>
  C3. The interest a worker publishes to the hub has no false negatives: if one of its
  sessions holds a filter that matches the topic, the probe rows a publisher computes
  for the topic hit the worker's counters, which stay between 0 and three times the
  number of live subscriptions.
\<close>

theorem interest_never_misses:
  assumes "topic_reach hf t" "(s, f) \<in> subscriptions t" "topic_matches f topic"
  shows "ws_interest_matches (t_hub t) (ws_interest_build hf topic) \<and>
    (case t_hub t of None \<Rightarrow> True
     | Some cs \<Rightarrow> list_all (\<lambda>c. 0 \<le> c \<and> c \<le> 3 * int (size (live_filters (t_sessions t)))) cs)"
proof
  show "ws_interest_matches (t_hub t) (ws_interest_build hf topic)" by (rule interest_hit [OF assms])
  have i: "interest_for hf (live_filters (t_sessions t)) (t_hub t)"
    using topic_reach_ok [OF assms(1)] by (auto simp: worker_ok_def tree_ok_def)
  show "case t_hub t of None \<Rightarrow> True
     | Some cs \<Rightarrow> list_all (\<lambda>c. 0 \<le> c \<and> c \<le> 3 * int (size (live_filters (t_sessions t)))) cs"
    using i interest_counter_bounds [of hf "live_filters (t_sessions t)"]
    by (auto simp: list_all_length interest_for_def counters_for_def split: option.splits)
qed

theorem interest_never_misses_witness:
  "ws_interest_matches
     (t_hub (fst (ws_topic_subscribe (\<lambda>_. 7)
        (ws_session_open (ws_topic_tree_create (Some (replicate WS_INTEREST_BUCKETS 0)) []) 1) 0 ''a/#'' 0)))
     (ws_interest_build (\<lambda>_. 7) ''a/b'')"
proof -
  let ?t0 = "ws_session_open (ws_topic_tree_create (Some (replicate WS_INTEREST_BUCKETS 0)) []) 1"
  let ?t = "fst (ws_topic_subscribe (\<lambda>_. 7) ?t0 0 ''a/#'' 0)"
  have r: "topic_reach (\<lambda>_. 7) ?t"
    by (intro topic_reach.intros) (simp add: ws_session_open_def)
  have "length (t_sessions ?t) = 1" "''a/#'' \<in> set (ws_topic_list (t_sessions ?t ! 0))" by code_simp+
  then have s: "(0, ''a/#'') \<in> subscriptions ?t" by (simp add: subscriptions_def)
  have "topic_matches ''a/#'' ''a/b''" by code_simp
  then show ?thesis using interest_never_misses [OF r s] by blast
qed

end
