(* ===== verification/Topic_Hub.thy ===== *)
theory Topic_Hub
  imports Topic_Worker
begin

text \<open>
  The hub that joins the workers, \<open>src/websocket/topic_hub.c\<close>: the slot table, the
  mailboxes, the fan-out of a publish, the counting query and the reliable send with
  its outbound retry queue.

  A world holds the shared \<open>topic_hub_t\<close>, one \<open>ws_local_t\<close> per thread, and three heaps for
  the reference-counted objects (payloads, queries, retry entries), addressed by
  numbers; releasing an object that is not in its heap sets \<open>w_fault\<close>.  A mailbox is
  the list of its commands.  The interest counters of a slot live in the hub, as in the
  code; a tree operation of the slot's worker reads and writes them there
  (\<open>run_tree\<close>).  Code between a suspend and its resume is two definitions.

  Parameters stand for the code outside: \<open>hf\<close> for \<open>zend_inline_hash_func\<close>, \<open>snd_fn\<close> for
  \<open>ws_session_try_send\<close>, \<open>enq\<close> for whether the underlying lock-free queue accepts an
  element below the cap, \<open>arm_ok\<close> for whether the reactor could create and start a timer.
\<close>

definition TOPIC_HUB_MAX_WORKERS :: nat where "TOPIC_HUB_MAX_WORKERS = 1024"
definition TOPIC_HUB_MAILBOX_CAPACITY :: nat where "TOPIC_HUB_MAILBOX_CAPACITY = 4096"

type_synonym ptr = nat

datatype ws_cmd =
  Publish (cmd_payload: ptr) (cmd_topic: string) (cmd_except: u64)
| Count (cmd_query: ptr) (cmd_topic: string)
| Count_Reply (cmd_query: ptr) (cmd_count: u32)

record ws_payload =
  p_refs :: int
  p_data :: string
  p_binary :: bool

record ws_query =
  q_refs :: int
  q_slot :: nat
  q_gen :: u32
  q_pending :: u32
  q_total :: u32
  q_abandoned :: bool
  q_done :: bool

record retry_target =
  r_slot :: nat
  r_gen :: u32

record retry_entry =
  e_refs :: int
  e_abandoned :: bool
  e_shutdown :: bool
  e_payload :: ptr
  e_pending :: "retry_target list"
  e_delivered :: nat
  e_gone :: nat
  e_except :: u64
  e_deadline :: u64
  e_waiter :: bool
  e_topic :: string

record ws_local =
  l_slot :: nat
  l_gen :: u32
  l_tree :: ws_topic_tree
  l_retry :: "ptr list"
  l_interval :: u32
  l_timer :: bool
  l_armed :: bool

record topic_hub =
  h_next_id :: u64
  h_posted :: u64
  h_skipped :: u64
  h_dropped :: u64
  h_retry_queued :: u64
  h_retry_delivered :: u64
  h_retry_expired :: u64
  h_retry_rejected :: u64
  h_retry_gone :: u64
  h_retry_shutdown :: u64
  h_inbox :: "ws_cmd list option list"
  h_gen :: "u32 list"
  h_taken :: "bool list"
  h_slots_used :: nat
  h_interest :: "int list option list"

record hub_world =
  w_hub :: topic_hub
  w_locals :: "ws_local option list"
  w_payloads :: "ptr \<rightharpoonup> ws_payload"
  w_queries :: "ptr \<rightharpoonup> ws_query"
  w_entries :: "ptr \<rightharpoonup> retry_entry"
  w_next :: ptr
  w_fired :: "ptr list"
  w_fault :: bool

section \<open>Objects\<close>

abbreviation upd_hub :: "(topic_hub \<Rightarrow> topic_hub) \<Rightarrow> hub_world \<Rightarrow> hub_world" where
  "upd_hub f w \<equiv> w\<lparr>w_hub := f (w_hub w)\<rparr>"

definition ws_local_of :: "hub_world \<Rightarrow> nat \<Rightarrow> ws_local option" where
  "ws_local_of w th = (if th < length (w_locals w) then w_locals w ! th else None)"

definition topic_hub_note_drop :: "hub_world \<Rightarrow> hub_world" where
  "topic_hub_note_drop w = upd_hub (\<lambda>h. h\<lparr>h_dropped := h_dropped h + 1\<rparr>) w"

definition ws_payload_new :: "hub_world \<Rightarrow> string \<Rightarrow> bool \<Rightarrow> hub_world \<times> ptr" where
  "ws_payload_new w data binary =
     (w\<lparr>w_payloads := (w_payloads w)(w_next w \<mapsto> \<lparr>p_refs = 1, p_data = data, p_binary = binary\<rparr>),
        w_next := w_next w + 1\<rparr>, w_next w)"

definition ws_payload_retain :: "hub_world \<Rightarrow> ptr \<Rightarrow> hub_world" where
  "ws_payload_retain w p =
     (case w_payloads w p of None \<Rightarrow> w\<lparr>w_fault := True\<rparr>
      | Some o' \<Rightarrow> w\<lparr>w_payloads := (w_payloads w)(p \<mapsto> o'\<lparr>p_refs := p_refs o' + 1\<rparr>)\<rparr>)"

definition ws_payload_release :: "hub_world \<Rightarrow> ptr \<Rightarrow> hub_world" where
  "ws_payload_release w p =
     (case w_payloads w p of None \<Rightarrow> w\<lparr>w_fault := True\<rparr>
      | Some o' \<Rightarrow>
          if p_refs o' = 1 then w\<lparr>w_payloads := (w_payloads w)(p := None)\<rparr>
          else w\<lparr>w_payloads := (w_payloads w)(p \<mapsto> o'\<lparr>p_refs := p_refs o' - 1\<rparr>)\<rparr>)"

definition ws_query_retain :: "hub_world \<Rightarrow> ptr \<Rightarrow> hub_world" where
  "ws_query_retain w p =
     (case w_queries w p of None \<Rightarrow> w\<lparr>w_fault := True\<rparr>
      | Some o' \<Rightarrow> w\<lparr>w_queries := (w_queries w)(p \<mapsto> o'\<lparr>q_refs := q_refs o' + 1\<rparr>)\<rparr>)"

definition ws_query_release :: "hub_world \<Rightarrow> ptr \<Rightarrow> hub_world" where
  "ws_query_release w p =
     (case w_queries w p of None \<Rightarrow> w\<lparr>w_fault := True\<rparr>
      | Some o' \<Rightarrow>
          if q_refs o' = 1 then w\<lparr>w_queries := (w_queries w)(p := None)\<rparr>
          else w\<lparr>w_queries := (w_queries w)(p \<mapsto> o'\<lparr>q_refs := q_refs o' - 1\<rparr>)\<rparr>)"

text \<open>The bare \<open>zend_atomic_int_fetch_add(&query->refcount, -1)\<close> of \<open>topic_hub_ask_others\<close>.\<close>

definition ws_query_unref :: "hub_world \<Rightarrow> ptr \<Rightarrow> hub_world" where
  "ws_query_unref w p =
     (case w_queries w p of None \<Rightarrow> w\<lparr>w_fault := True\<rparr>
      | Some o' \<Rightarrow> w\<lparr>w_queries := (w_queries w)(p \<mapsto> o'\<lparr>q_refs := q_refs o' - 1\<rparr>)\<rparr>)"

section \<open>Hub and slots\<close>

definition topic_hub_create :: topic_hub where
  "topic_hub_create =
     \<lparr>h_next_id = 1, h_posted = 0, h_skipped = 0, h_dropped = 0, h_retry_queued = 0,
      h_retry_delivered = 0, h_retry_expired = 0, h_retry_rejected = 0, h_retry_gone = 0,
      h_retry_shutdown = 0,
      h_inbox = replicate TOPIC_HUB_MAX_WORKERS None,
      h_gen = replicate TOPIC_HUB_MAX_WORKERS 0,
      h_taken = replicate TOPIC_HUB_MAX_WORKERS False,
      h_slots_used = 0,
      h_interest = replicate TOPIC_HUB_MAX_WORKERS None\<rparr>"

record topic_hub_stats =
  st_posted :: u64
  st_skipped :: u64
  st_dropped :: u64
  st_retry_queued :: u64
  st_retry_delivered :: u64
  st_retry_expired :: u64
  st_retry_rejected :: u64
  st_retry_gone :: u64
  st_retry_shutdown :: u64

definition topic_hub_get_stats :: "topic_hub option \<Rightarrow> topic_hub_stats" where
  "topic_hub_get_stats hub =
     (case hub of None \<Rightarrow> \<lparr>st_posted = 0, st_skipped = 0, st_dropped = 0, st_retry_queued = 0,
        st_retry_delivered = 0, st_retry_expired = 0, st_retry_rejected = 0, st_retry_gone = 0, st_retry_shutdown = 0\<rparr>
      | Some h \<Rightarrow> \<lparr>st_posted = h_posted h, st_skipped = h_skipped h, st_dropped = h_dropped h,
          st_retry_queued = h_retry_queued h, st_retry_delivered = h_retry_delivered h,
          st_retry_expired = h_retry_expired h, st_retry_rejected = h_retry_rejected h,
          st_retry_gone = h_retry_gone h, st_retry_shutdown = h_retry_shutdown h\<rparr>)"

definition topic_hub_next_id :: "topic_hub \<Rightarrow> topic_hub \<times> u64" where
  "topic_hub_next_id h = (h\<lparr>h_next_id := h_next_id h + 1\<rparr>, h_next_id h)"

definition topic_hub_tree :: "hub_world \<Rightarrow> nat \<Rightarrow> ws_topic_tree option" where
  "topic_hub_tree w th = map_option l_tree (ws_local_of w th)"

text \<open>\<open>topic_hub_post_locked\<close> with \<open>thread_mailbox_post\<close> and \<open>thread_mpsc_enqueue\<close> below it.\<close>

definition topic_hub_post_locked ::
    "(ws_cmd list \<Rightarrow> bool) \<Rightarrow> topic_hub \<Rightarrow> nat \<Rightarrow> ws_cmd \<Rightarrow> topic_hub \<times> bool" where
  "topic_hub_post_locked enq h slot cmd =
     (case h_inbox h ! slot of None \<Rightarrow> (h, False)
      | Some q \<Rightarrow>
          if length q < TOPIC_HUB_MAILBOX_CAPACITY \<and> enq q
          then (h\<lparr>h_inbox := (h_inbox h)[slot := Some (q @ [cmd])]\<rparr>, True)
          else (h, False))"

definition claim_slot :: "topic_hub \<Rightarrow> (topic_hub \<times> nat \<times> u32) option" where
  "claim_slot h =
     (case List.find (\<lambda>i. \<not> h_taken h ! i) [0..<TOPIC_HUB_MAX_WORKERS] of
        None \<Rightarrow> None
      | Some i \<Rightarrow>
          Some (h\<lparr>h_taken := (h_taken h)[i := True],
                  h_inbox := (h_inbox h)[i := Some []],
                  h_interest := (h_interest h)[i := Some (replicate WS_INTEREST_BUCKETS 0)],
                  h_gen := (h_gen h)[i := h_gen h ! i + 1],
                  h_slots_used := (if i \<ge> h_slots_used h then i + 1 else h_slots_used h)\<rparr>,
                i, h_gen h ! i + 1))"

text \<open>\<open>mb_ok\<close>: \<open>thread_mailbox_create\<close> returned a mailbox.  \<^const>\<open>None\<close> is the result \<open>-1\<close>.\<close>

definition topic_hub_attach :: "bool \<Rightarrow> hub_world \<Rightarrow> nat \<Rightarrow> hub_world \<times> nat option" where
  "topic_hub_attach mb_ok w th =
     (if ws_local_of w th \<noteq> None \<or> \<not> mb_ok then (w, None)
      else (case claim_slot (w_hub w) of None \<Rightarrow> (w, None)
        | Some (h, slot, gen) \<Rightarrow>
            (w\<lparr>w_hub := h,
               w_locals := (w_locals w)[th := Some
                 \<lparr>l_slot = slot, l_gen = gen, l_tree = ws_topic_tree_create None [],
                  l_retry = [], l_interval = 0, l_timer = False, l_armed = False\<rparr>]\<rparr>,
             Some slot)))"

text \<open>A tree operation on thread \<open>th\<close>, whose interest updates go to \<open>hub->interest[slot]\<close>.\<close>

definition slot_tree :: "hub_world \<Rightarrow> ws_local \<Rightarrow> ws_topic_tree" where
  "slot_tree w l = (l_tree l)\<lparr>t_hub := h_interest (w_hub w) ! l_slot l\<rparr>"

definition run_tree ::
    "hub_world \<Rightarrow> nat \<Rightarrow> ws_local \<Rightarrow> (ws_topic_tree \<Rightarrow> ws_topic_tree \<times> 'a) \<Rightarrow> hub_world \<times> 'a" where
  "run_tree w th l f =
     (case f (slot_tree w l) of (t, r) \<Rightarrow>
        (w\<lparr>w_hub := (w_hub w)\<lparr>h_interest := (h_interest (w_hub w))[l_slot l := t_hub t]\<rparr>,
           w_locals := (w_locals w)[th := Some (l\<lparr>l_tree := t\<lparr>t_hub := None\<rparr>\<rparr>)]\<rparr>, r))"

section \<open>Queries\<close>

definition topic_hub_answer_count ::
    "(string \<Rightarrow> u32) \<Rightarrow> (ws_cmd list \<Rightarrow> bool) \<Rightarrow> hub_world \<Rightarrow> nat \<Rightarrow> ptr \<Rightarrow> string \<Rightarrow> hub_world" where
  "topic_hub_answer_count hf enq w th q topic =
     (let (w1, n) = (case ws_local_of w th of None \<Rightarrow> (w, 0)
            | Some l \<Rightarrow> run_tree w th l (\<lambda>t. apsnd v_hits (ws_topic_count hf t topic)))
      in case w_queries w1 q of None \<Rightarrow> w1\<lparr>w_fault := True\<rparr>
        | Some query \<Rightarrow>
            (case (if q_gen query = h_gen (w_hub w1) ! q_slot query
                   then topic_hub_post_locked enq (w_hub w1) (q_slot query) (Count_Reply q (of_nat n))
                   else (w_hub w1, False)) of
               (h, True) \<Rightarrow> w1\<lparr>w_hub := h\<rparr>
             | (h, False) \<Rightarrow> ws_query_release (topic_hub_note_drop w1) q))"

definition ws_query_settle :: "hub_world \<Rightarrow> ptr \<Rightarrow> u32 \<Rightarrow> hub_world" where
  "ws_query_settle w q answered =
     (case w_queries w q of None \<Rightarrow> w\<lparr>w_fault := True\<rparr>
      | Some query \<Rightarrow>
          ws_query_release
            (if q_abandoned query then w
             else (let query' = query\<lparr>q_total := q_total query + answered, q_pending := q_pending query - 1\<rparr>;
                       w' = w\<lparr>w_queries := (w_queries w)(q \<mapsto> query')\<rparr>
                   in if q_pending query' = 0 then w'\<lparr>w_fired := w_fired w' @ [q]\<rparr> else w')) q)"

definition topic_hub_drain_one ::
    "(string \<Rightarrow> u32) \<Rightarrow> try_send \<Rightarrow> (ws_cmd list \<Rightarrow> bool) \<Rightarrow> nat \<Rightarrow> ws_cmd \<Rightarrow> hub_world \<Rightarrow> hub_world" where
  "topic_hub_drain_one hf snd_fn enq th cmd w =
     (case cmd of
        Publish p topic except_id \<Rightarrow>
          ws_payload_release
            (case ws_local_of w th of None \<Rightarrow> w
             | Some l \<Rightarrow> fst (run_tree w th l (\<lambda>t. ws_topic_publish hf snd_fn t topic except_id))) p
      | Count q topic \<Rightarrow> topic_hub_answer_count hf enq w th q topic
      | Count_Reply q n \<Rightarrow> ws_query_settle w q n)"

definition topic_hub_drain ::
    "(string \<Rightarrow> u32) \<Rightarrow> try_send \<Rightarrow> (ws_cmd list \<Rightarrow> bool) \<Rightarrow> nat \<Rightarrow> ws_cmd list \<Rightarrow> hub_world \<Rightarrow> hub_world" where
  "topic_hub_drain hf snd_fn enq th items w = fold (topic_hub_drain_one hf snd_fn enq th) items w"

text \<open>One round of \<open>mailbox_on_signal\<close>: a batch is taken off the queue and handed to the drain.\<close>

definition TOPIC_HUB_MAILBOX_BATCH :: nat where "TOPIC_HUB_MAILBOX_BATCH = 64"

definition mailbox_round ::
    "(string \<Rightarrow> u32) \<Rightarrow> try_send \<Rightarrow> (ws_cmd list \<Rightarrow> bool) \<Rightarrow> hub_world \<Rightarrow> nat \<Rightarrow> hub_world" where
  "mailbox_round hf snd_fn enq w th =
     (case ws_local_of w th of None \<Rightarrow> w
      | Some l \<Rightarrow>
          (case h_inbox (w_hub w) ! l_slot l of None \<Rightarrow> w
           | Some q \<Rightarrow>
               topic_hub_drain hf snd_fn enq th (take TOPIC_HUB_MAILBOX_BATCH q)
                 (upd_hub (\<lambda>h. h\<lparr>h_inbox := (h_inbox h)[l_slot l := Some (drop TOPIC_HUB_MAILBOX_BATCH q)]\<rparr>) w)))"

section \<open>Publish\<close>

text \<open>The locals of \<open>topic_hub_fanout_locked\<close>; \<open>reliable\<close> is \<open>full != NULL\<close>.\<close>

record fan =
  f_world :: hub_world
  f_payload :: "ptr option"
  f_posted :: nat
  f_full :: "retry_target list"
  f_skipped :: nat
  f_dropped :: nat

definition fanout_slot ::
    "(ws_cmd list \<Rightarrow> bool) \<Rightarrow> nat option \<Rightarrow> string \<Rightarrow> string \<Rightarrow> bool \<Rightarrow> u64 \<Rightarrow> u32 list list \<Rightarrow> bool \<Rightarrow>
     nat \<Rightarrow> fan \<Rightarrow> fan" where
  "fanout_slot enq own topic data binary except_id interest reliable slot s =
     (let w = f_world s in
      if h_inbox (w_hub w) ! slot = None \<or> own = Some slot then s
      else if \<not> ws_interest_matches (h_interest (w_hub w) ! slot) interest
      then s\<lparr>f_skipped := f_skipped s + 1\<rparr>
      else
        (let (w1, p) = (case f_payload s of Some p \<Rightarrow> (w, p) | None \<Rightarrow> ws_payload_new w data binary);
             w2 = ws_payload_retain w1 p
         in case topic_hub_post_locked enq (w_hub w2) slot (Publish p topic except_id) of
              (h, True) \<Rightarrow> s\<lparr>f_world := w2\<lparr>w_hub := h\<rparr>, f_payload := Some p, f_posted := f_posted s + 1\<rparr>
            | (h, False) \<Rightarrow>
                (let s' = s\<lparr>f_world := ws_payload_release w2 p, f_payload := Some p\<rparr>
                 in if reliable
                    then s'\<lparr>f_full := f_full s @ [\<lparr>r_slot = slot, r_gen = h_gen (w_hub w2) ! slot\<rparr>]\<rparr>
                    else s'\<lparr>f_dropped := f_dropped s + 1\<rparr>)))"

definition topic_hub_fanout_locked ::
    "(ws_cmd list \<Rightarrow> bool) \<Rightarrow> hub_world \<Rightarrow> nat option \<Rightarrow> string \<Rightarrow> string \<Rightarrow> bool \<Rightarrow> u64 \<Rightarrow>
     u32 list list \<Rightarrow> bool \<Rightarrow> fan" where
  "topic_hub_fanout_locked enq w own topic data binary except_id interest reliable =
     fold (fanout_slot enq own topic data binary except_id interest reliable)
       [0..<h_slots_used (w_hub w)]
       \<lparr>f_world = w, f_payload = None, f_posted = 0, f_full = [], f_skipped = 0, f_dropped = 0\<rparr>"

definition release_base :: "hub_world \<Rightarrow> ptr option \<Rightarrow> hub_world" where
  "release_base w p = (case p of None \<Rightarrow> w | Some p \<Rightarrow> ws_payload_release w p)"

text \<open>The local half of a publish: the sends to this thread's own tree.\<close>

definition publish_local ::
    "(string \<Rightarrow> u32) \<Rightarrow> try_send \<Rightarrow> hub_world \<Rightarrow> nat \<Rightarrow> string \<Rightarrow> u64 \<Rightarrow> hub_world \<times> nat" where
  "publish_local hf snd_fn w th topic except_id =
     (case ws_local_of w th of None \<Rightarrow> (w, 0)
      | Some l \<Rightarrow> run_tree w th l (\<lambda>t. apsnd v_hits (ws_topic_publish hf snd_fn t topic except_id)))"

text \<open>The result: sends accepted locally, mailboxes posted to, copies dropped.\<close>

definition topic_hub_publish ::
    "(string \<Rightarrow> u32) \<Rightarrow> try_send \<Rightarrow> (ws_cmd list \<Rightarrow> bool) \<Rightarrow> hub_world \<Rightarrow> nat \<Rightarrow> string \<Rightarrow> string \<Rightarrow> bool \<Rightarrow>
     u64 \<Rightarrow> hub_world \<times> nat \<times> nat \<times> nat" where
  "topic_hub_publish hf snd_fn enq w th topic data binary except_id =
     (let (w1, sent) = publish_local hf snd_fn w th topic except_id;
          f = topic_hub_fanout_locked enq w1 (map_option l_slot (ws_local_of w1 th)) topic data binary
                except_id (ws_interest_build hf topic) False;
          w2 = upd_hub (\<lambda>h. h\<lparr>h_posted := h_posted h + of_nat (f_posted f),
                 h_skipped := h_skipped h + of_nat (f_skipped f),
                 h_dropped := h_dropped h + of_nat (f_dropped f)\<rparr>) (f_world f)
      in (release_base w2 (f_payload f), sent, f_posted f, f_dropped f))"

definition ask_slot ::
    "(ws_cmd list \<Rightarrow> bool) \<Rightarrow> nat \<Rightarrow> ptr \<Rightarrow> string \<Rightarrow> u32 list list \<Rightarrow> nat \<Rightarrow> hub_world \<Rightarrow> hub_world" where
  "ask_slot enq own q topic interest slot w =
     (if slot = own \<or> h_inbox (w_hub w) ! slot = None
         \<or> \<not> ws_interest_matches (h_interest (w_hub w) ! slot) interest then w
      else
        (let w1 = ws_query_retain w q
         in case topic_hub_post_locked enq (w_hub w1) slot (Count q topic) of
              (h, True) \<Rightarrow>
                (case w_queries w1 q of None \<Rightarrow> w1\<lparr>w_fault := True\<rparr>
                 | Some query \<Rightarrow>
                     w1\<lparr>w_hub := h, w_queries := (w_queries w1)(q \<mapsto> query\<lparr>q_pending := q_pending query + 1\<rparr>)\<rparr>)
            | (h, False) \<Rightarrow> topic_hub_note_drop (ws_query_unref w1 q)))"

definition topic_hub_ask_others ::
    "(string \<Rightarrow> u32) \<Rightarrow> (ws_cmd list \<Rightarrow> bool) \<Rightarrow> hub_world \<Rightarrow> nat \<Rightarrow> ptr \<Rightarrow> string \<Rightarrow> hub_world" where
  "topic_hub_ask_others hf enq w own q topic =
     fold (ask_slot enq own q topic (ws_interest_build hf topic)) [0..<h_slots_used (w_hub w)] w"

text \<open>\<open>topic_hub_count\<close> up to the suspend: \<open>Inl n\<close> when it returns \<open>n\<close> at once, \<open>Inr q\<close> when it
  has asked with query \<open>q\<close>.  \<open>park\<close>: there is a coroutine to park and an event for it.\<close>

definition topic_hub_count_begin ::
    "(string \<Rightarrow> u32) \<Rightarrow> (ws_cmd list \<Rightarrow> bool) \<Rightarrow> bool \<Rightarrow> hub_world \<Rightarrow> nat \<Rightarrow> string \<Rightarrow> hub_world \<times> (nat + ptr)" where
  "topic_hub_count_begin hf enq park w th topic =
     (case ws_local_of w th of None \<Rightarrow> (w, Inl 0)
      | Some l \<Rightarrow>
          (case run_tree w th l (\<lambda>t. apsnd v_hits (ws_topic_count hf t topic)) of (w1, n) \<Rightarrow>
             if \<not> park then (w1, Inl n)
             else
               (let q = w_next w1;
                    w2 = w1\<lparr>w_queries := (w_queries w1)(q \<mapsto>
                           \<lparr>q_refs = 1, q_slot = l_slot l, q_gen = l_gen l, q_pending = 0,
                            q_total = of_nat n, q_abandoned = False, q_done = True\<rparr>),
                         w_next := w_next w1 + 1\<rparr>
                in (topic_hub_ask_others hf enq w2 (l_slot l) q topic, Inr q))))"

text \<open>\<open>topic_hub_count\<close> from the resume, or at once when nothing is pending.\<close>

definition topic_hub_count_end :: "hub_world \<Rightarrow> ptr \<Rightarrow> hub_world \<times> u32" where
  "topic_hub_count_end w q =
     (case w_queries w q of None \<Rightarrow> (w\<lparr>w_fault := True\<rparr>, 0)
      | Some query \<Rightarrow>
          (ws_query_release
             (w\<lparr>w_queries := (w_queries w)(q \<mapsto> query\<lparr>q_abandoned := True, q_done := False\<rparr>)\<rparr>) q,
           q_total query))"

end
