(* ===== verification/Topic_Retry.thy ===== *)
theory Topic_Retry
  imports Topic_Hub
begin

text \<open>
  The reliable send of \<open>src/websocket/topic_hub.c\<close> (section \<open>reliable send\<close>) and the
  detach of a worker: a full mailbox parks the message on the sender's outbound queue,
  and the periodic tick retries it until it lands, its deadline passes or the target
  worker is gone.  The queue \<open>retry_head .. retry_tail\<close> is a list of entry pointers and
  \<open>retry_count\<close> its length.
\<close>

datatype send_status = SEND_OK | SEND_NO_CONTEXT | SEND_NO_QUEUE | SEND_QUEUE_FULL | SEND_EXPIRED | SEND_SHUTDOWN

record send_result =
  sr_status :: send_status
  sr_delivered :: nat
  sr_pending :: nat

abbreviation put_entry :: "hub_world \<Rightarrow> ptr \<Rightarrow> retry_entry \<Rightarrow> hub_world" where
  "put_entry w p e \<equiv> w\<lparr>w_entries := (w_entries w)(p \<mapsto> e)\<rparr>"

abbreviation put_local :: "hub_world \<Rightarrow> nat \<Rightarrow> ws_local \<Rightarrow> hub_world" where
  "put_local w th l \<equiv> w\<lparr>w_locals := (w_locals w)[th := Some l]\<rparr>"

definition retry_entry_new ::
    "hub_world \<Rightarrow> string \<Rightarrow> ptr \<Rightarrow> u64 \<Rightarrow> u64 \<Rightarrow> retry_target list \<Rightarrow> bool \<Rightarrow> hub_world \<times> ptr" where
  "retry_entry_new w topic payload except_id deadline targets waiter =
     (put_entry (w\<lparr>w_next := w_next w + 1\<rparr>) (w_next w)
        \<lparr>e_refs = (if waiter then 2 else 1), e_abandoned = False, e_shutdown = False,
         e_payload = payload, e_pending = targets, e_delivered = 0, e_gone = 0,
         e_except = except_id, e_deadline = deadline, e_waiter = waiter, e_topic = topic\<rparr>,
      w_next w)"

definition retry_entry_release :: "hub_world \<Rightarrow> ptr \<Rightarrow> hub_world" where
  "retry_entry_release w p =
     (case w_entries w p of None \<Rightarrow> w\<lparr>w_fault := True\<rparr>
      | Some e \<Rightarrow>
          if e_refs e = 1 then w\<lparr>w_entries := (w_entries w)(p := None)\<rparr>
          else put_entry w p (e\<lparr>e_refs := e_refs e - 1\<rparr>))"

definition retry_entry_discard :: "hub_world \<Rightarrow> ptr \<Rightarrow> hub_world" where
  "retry_entry_discard w p =
     (case w_entries w p of None \<Rightarrow> w\<lparr>w_fault := True\<rparr>
      | Some e \<Rightarrow>
          (let w' = ws_payload_release w (e_payload e) in w'\<lparr>w_entries := (w_entries w')(p := None)\<rparr>))"

definition retry_entry_finish :: "hub_world \<Rightarrow> ptr \<Rightarrow> hub_world" where
  "retry_entry_finish w p =
     (case w_entries w p of None \<Rightarrow> w\<lparr>w_fault := True\<rparr>
      | Some e \<Rightarrow>
          (let w1 = (if e_waiter e \<and> \<not> e_abandoned e
                     then (put_entry w p (e\<lparr>e_waiter := False\<rparr>))\<lparr>w_fired := w_fired w @ [p]\<rparr> else w)
           in retry_entry_release (ws_payload_release w1 (e_payload e)) p))"

section \<open>The drainer\<close>

text \<open>\<open>create_ok\<close> and \<open>start_ok\<close>: the reactor made the timer, and started it.\<close>

definition topic_hub_retry_arm :: "bool \<Rightarrow> bool \<Rightarrow> ws_local \<Rightarrow> ws_local \<times> bool" where
  "topic_hub_retry_arm create_ok start_ok l =
     (if l_armed l then (l, True)
      else if \<not> l_timer l \<and> \<not> create_ok then (l, False)
      else (let l = l\<lparr>l_timer := True\<rparr>
            in if start_ok then (l\<lparr>l_armed := True\<rparr>, True) else (l, False)))"

definition topic_hub_retry_timer_dispose :: "ws_local \<Rightarrow> ws_local" where
  "topic_hub_retry_timer_dispose l = (if \<not> l_timer l then l else l\<lparr>l_timer := False, l_armed := False\<rparr>)"

text \<open>The locals of the inner loop: the world, the entry, the targets kept so far, and
  the numbers delivered and gone.\<close>

record rt_state =
  rt_world :: hub_world
  rt_entry :: retry_entry
  rt_keep :: "retry_target list"
  rt_delivered :: nat
  rt_gone :: nat

definition retry_target_step :: "(ws_cmd list \<Rightarrow> bool) \<Rightarrow> retry_target \<Rightarrow> rt_state \<Rightarrow> rt_state" where
  "retry_target_step enq r s =
     (let w = rt_world s; h = w_hub w; e = rt_entry s in
      if h_inbox h ! r_slot r = None \<or> h_gen h ! r_slot r \<noteq> r_gen r
      then s\<lparr>rt_entry := e\<lparr>e_gone := e_gone e + 1\<rparr>, rt_gone := rt_gone s + 1\<rparr>
      else
        (let w1 = ws_payload_retain w (e_payload e)
         in case topic_hub_post_locked enq (w_hub w1) (r_slot r) (Publish (e_payload e) (e_topic e) (e_except e)) of
              (h', True) \<Rightarrow>
                s\<lparr>rt_world := w1\<lparr>w_hub := h'\<rparr>, rt_entry := e\<lparr>e_delivered := e_delivered e + 1\<rparr>,
                  rt_delivered := rt_delivered s + 1\<rparr>
            | (h', False) \<Rightarrow>
                s\<lparr>rt_world := ws_payload_release w1 (e_payload e), rt_keep := rt_keep s @ [r]\<rparr>))"

record drain_state =
  d_world :: hub_world
  d_live :: "ptr list"
  d_resolved :: "ptr list"
  d_delivered :: nat
  d_gone :: nat
  d_expired :: nat

definition retry_entry_step :: "(ws_cmd list \<Rightarrow> bool) \<Rightarrow> u64 \<Rightarrow> ptr \<Rightarrow> drain_state \<Rightarrow> drain_state" where
  "retry_entry_step enq now p d =
     (case w_entries (d_world d) p of None \<Rightarrow> d\<lparr>d_world := (d_world d)\<lparr>w_fault := True\<rparr>\<rparr>
      | Some e \<Rightarrow>
          (let s = fold (retry_target_step enq) (e_pending e)
                     \<lparr>rt_world = d_world d, rt_entry = e, rt_keep = [], rt_delivered = 0, rt_gone = 0\<rparr>;
               done = (rt_keep s = []); expd = (\<not> done \<and> now \<ge> e_deadline e);
               d' = d\<lparr>d_world := put_entry (rt_world s) p ((rt_entry s)\<lparr>e_pending := rt_keep s\<rparr>),
                      d_delivered := d_delivered d + rt_delivered s, d_gone := d_gone d + rt_gone s\<rparr>
           in if done \<or> expd
              then d'\<lparr>d_resolved := p # d_resolved d,
                      d_expired := d_expired d + (if expd then length (rt_keep s) else 0)\<rparr>
              else d'\<lparr>d_live := d_live d @ [p]\<rparr>))"

definition topic_hub_retry_drain :: "(ws_cmd list \<Rightarrow> bool) \<Rightarrow> u64 \<Rightarrow> hub_world \<Rightarrow> nat \<Rightarrow> hub_world" where
  "topic_hub_retry_drain enq now w th =
     (case ws_local_of w th of None \<Rightarrow> w
      | Some l \<Rightarrow>
          (let d = fold (retry_entry_step enq now) (l_retry l)
                     \<lparr>d_world = w, d_live = [], d_resolved = [], d_delivered = 0, d_gone = 0, d_expired = 0\<rparr>;
               w1 = put_local (d_world d) th (l\<lparr>l_retry := d_live d\<rparr>);
               w2 = fold (\<lambda>p w. retry_entry_finish w p) (d_resolved d) w1
           in upd_hub (\<lambda>h. h\<lparr>h_retry_delivered := h_retry_delivered h + of_nat (d_delivered d),
                h_retry_gone := h_retry_gone h + of_nat (d_gone d),
                h_retry_expired := h_retry_expired h + of_nat (d_expired d)\<rparr>) w2))"

text \<open>\<open>exc\<close>: the timer callback is invoked with an exception.\<close>

definition topic_hub_retry_tick :: "bool \<Rightarrow> (ws_cmd list \<Rightarrow> bool) \<Rightarrow> u64 \<Rightarrow> hub_world \<Rightarrow> nat \<Rightarrow> hub_world" where
  "topic_hub_retry_tick exc enq now w th =
     (if exc then w else case ws_local_of w th of None \<Rightarrow> w
      | Some l \<Rightarrow>
          (let w1 = topic_hub_retry_drain enq now w th
           in case ws_local_of w1 th of None \<Rightarrow> w1
             | Some l1 \<Rightarrow>
                 if l_retry l1 = [] \<and> l_timer l1 \<and> l_armed l1
                 then put_local w1 th (l1\<lparr>l_armed := False\<rparr>) else w1))"

definition teardown_entry :: "ptr \<Rightarrow> hub_world \<times> nat \<Rightarrow> hub_world \<times> nat" where
  "teardown_entry p s =
     (case s of (w, lost) \<Rightarrow>
        (case w_entries w p of None \<Rightarrow> (w\<lparr>w_fault := True\<rparr>, lost)
         | Some e \<Rightarrow>
             (retry_entry_finish (put_entry w p (e\<lparr>e_shutdown := True\<rparr>)) p, lost + length (e_pending e))))"

definition topic_hub_retry_teardown :: "hub_world \<Rightarrow> nat \<Rightarrow> ws_local \<Rightarrow> hub_world" where
  "topic_hub_retry_teardown w th l =
     (case fold teardown_entry (l_retry l) (w, 0) of (w1, lost) \<Rightarrow>
        upd_hub (\<lambda>h. h\<lparr>h_retry_shutdown := h_retry_shutdown h + of_nat lost\<rparr>)
          (put_local w1 th ((topic_hub_retry_timer_dispose l)\<lparr>l_retry := [], l_interval := 0\<rparr>)))"

definition topic_hub_retry_enqueue :: "bool \<Rightarrow> bool \<Rightarrow> ws_local \<Rightarrow> ptr \<Rightarrow> u32 \<Rightarrow> ws_local \<times> bool" where
  "topic_hub_retry_enqueue create_ok start_ok l p interval_ms =
     (let l1 = l\<lparr>l_retry := l_retry l @ [p],
                 l_interval := (if l_interval l = 0 then (if interval_ms \<noteq> 0 then interval_ms else 50)
                                else l_interval l)\<rparr>
      in case topic_hub_retry_arm create_ok start_ok l1 of
           (l2, True) \<Rightarrow> (l2, True)
         | (l2, False) \<Rightarrow> (l2\<lparr>l_retry := butlast (l_retry l2), l_interval := l_interval l\<rparr>, False))"

section \<open>Sending\<close>

definition topic_hub_send_fanout ::
    "(string \<Rightarrow> u32) \<Rightarrow> try_send \<Rightarrow> (ws_cmd list \<Rightarrow> bool) \<Rightarrow> hub_world \<Rightarrow> nat \<Rightarrow> string \<Rightarrow> string \<Rightarrow> bool \<Rightarrow>
     u64 \<Rightarrow> fan" where
  "topic_hub_send_fanout hf snd_fn enq w th topic data binary except_id =
     (let w1 = fst (publish_local hf snd_fn w th topic except_id);
          f = topic_hub_fanout_locked enq w1 (map_option l_slot (ws_local_of w1 th)) topic data binary
                except_id (ws_interest_build hf topic) True
      in f\<lparr>f_world := upd_hub (\<lambda>h. h\<lparr>h_posted := h_posted h + of_nat (f_posted f),
             h_skipped := h_skipped h + of_nat (f_skipped f)\<rparr>) (f_world f)\<rparr>)"

definition note_rejected :: "hub_world \<Rightarrow> hub_world" where
  "note_rejected w = upd_hub (\<lambda>h. h\<lparr>h_retry_rejected := h_retry_rejected h + 1\<rparr>) w"

text \<open>Parking the full targets of a fan-out: \<open>retry_entry_new\<close> and \<open>topic_hub_retry_enqueue\<close>,
  as \<open>topic_hub_try_send\<close> and \<open>topic_hub_send\<close> use them.\<close>

definition park_entry ::
    "bool \<Rightarrow> bool \<Rightarrow> fan \<Rightarrow> nat \<Rightarrow> ws_local \<Rightarrow> string \<Rightarrow> u64 \<Rightarrow> u64 \<Rightarrow> u32 \<Rightarrow> bool \<Rightarrow> hub_world \<times> ptr option" where
  "park_entry create_ok start_ok f th l topic except_id deadline interval_ms waiter =
     (case retry_entry_new (f_world f) topic (the (f_payload f)) except_id deadline (f_full f) waiter of
        (w1, p) \<Rightarrow>
          (case topic_hub_retry_enqueue create_ok start_ok l p interval_ms of
             (l', True) \<Rightarrow>
               (upd_hub (\<lambda>h. h\<lparr>h_retry_queued := h_retry_queued h + of_nat (length (f_full f))\<rparr>)
                  (put_local w1 th l'), Some p)
           | (l', False) \<Rightarrow> (note_rejected (retry_entry_discard (put_local w1 th l') p), None)))"

definition topic_hub_try_send ::
    "(string \<Rightarrow> u32) \<Rightarrow> try_send \<Rightarrow> (ws_cmd list \<Rightarrow> bool) \<Rightarrow> bool \<Rightarrow> bool \<Rightarrow> u64 \<Rightarrow> hub_world \<Rightarrow> nat \<Rightarrow>
     string \<Rightarrow> string \<Rightarrow> bool \<Rightarrow> u64 \<Rightarrow> u32 \<Rightarrow> u32 \<Rightarrow> nat \<Rightarrow> hub_world \<times> bool" where
  "topic_hub_try_send hf snd_fn enq create_ok start_ok now w th topic data binary except_id
       timeout_ms interval_ms queue_max =
     (let f = topic_hub_send_fanout hf snd_fn enq w th topic data binary except_id
      in if f_full f = [] then (release_base (f_world f) (f_payload f), True)
         else (case ws_local_of (f_world f) th of
             None \<Rightarrow> (release_base (f_world f) (f_payload f), False)
           | Some l \<Rightarrow>
               if length (l_retry l) \<ge> queue_max
               then (note_rejected (release_base (f_world f) (f_payload f)), False)
               else (case park_entry create_ok start_ok f th l topic except_id
                           (now + ucast timeout_ms) interval_ms False of
                       (w', Some p) \<Rightarrow> (w', True) | (w', None) \<Rightarrow> (w', False))))"

text \<open>\<open>topic_hub_send\<close> up to the suspend: its result, or the entry it is parked on.
  \<open>ctx\<close>: there is a coroutine to park; \<open>event_ok\<close>: \<open>async_plain_event_new\<close> returned one.\<close>

definition topic_hub_send_begin ::
    "(string \<Rightarrow> u32) \<Rightarrow> try_send \<Rightarrow> (ws_cmd list \<Rightarrow> bool) \<Rightarrow> bool \<Rightarrow> bool \<Rightarrow> bool \<Rightarrow> bool \<Rightarrow> u64 \<Rightarrow>
     hub_world \<Rightarrow> nat \<Rightarrow> string \<Rightarrow> string \<Rightarrow> bool \<Rightarrow> u64 \<Rightarrow> u32 \<Rightarrow> u32 \<Rightarrow> nat \<Rightarrow>
     hub_world \<times> (send_result + nat \<times> ptr)" where
  "topic_hub_send_begin hf snd_fn enq create_ok start_ok ctx event_ok now w th topic data binary
       except_id timeout_ms interval_ms queue_max =
     (if \<not> ctx then (w, Inl \<lparr>sr_status = SEND_NO_CONTEXT, sr_delivered = 0, sr_pending = 0\<rparr>)
      else
        (let f = topic_hub_send_fanout hf snd_fn enq w th topic data binary except_id;
             res = (\<lambda>st. Inl \<lparr>sr_status = st, sr_delivered = f_posted f, sr_pending = length (f_full f)\<rparr>)
         in if f_full f = [] then (release_base (f_world f) (f_payload f), res SEND_OK)
            else (case ws_local_of (f_world f) th of
                None \<Rightarrow> (release_base (f_world f) (f_payload f), res SEND_NO_QUEUE)
              | Some l \<Rightarrow>
                  if length (l_retry l) \<ge> queue_max \<or> \<not> event_ok
                  then (note_rejected (release_base (f_world f) (f_payload f)), res SEND_QUEUE_FULL)
                  else (case park_entry create_ok start_ok f th l topic except_id
                              (now + ucast timeout_ms) interval_ms True of
                          (w', Some p) \<Rightarrow> (w', Inr (f_posted f, p))
                        | (w', None) \<Rightarrow> (w', res SEND_QUEUE_FULL)))))"

definition topic_hub_send_end :: "hub_world \<Rightarrow> nat \<Rightarrow> ptr \<Rightarrow> hub_world \<times> send_result" where
  "topic_hub_send_end w posted p =
     (case w_entries w p of
        None \<Rightarrow> (w\<lparr>w_fault := True\<rparr>, \<lparr>sr_status = SEND_OK, sr_delivered = posted, sr_pending = 0\<rparr>)
      | Some e \<Rightarrow>
          (retry_entry_release (put_entry w p (e\<lparr>e_abandoned := True, e_waiter := False\<rparr>)) p,
           \<lparr>sr_status = (if e_shutdown e then SEND_SHUTDOWN
              else if e_pending e = [] then SEND_OK else SEND_EXPIRED),
            sr_delivered = posted + e_delivered e, sr_pending = length (e_pending e)\<rparr>))"

section \<open>Detach\<close>

definition retire_slot :: "topic_hub \<Rightarrow> nat \<Rightarrow> topic_hub" where
  "retire_slot h i = h\<lparr>h_inbox := (h_inbox h)[i := None], h_interest := (h_interest h)[i := None],
     h_taken := (h_taken h)[i := False]\<rparr>"

definition topic_hub_detach ::
    "(string \<Rightarrow> u32) \<Rightarrow> try_send \<Rightarrow> (ws_cmd list \<Rightarrow> bool) \<Rightarrow> hub_world \<Rightarrow> nat \<Rightarrow> hub_world" where
  "topic_hub_detach hf snd_fn enq w th =
     (case ws_local_of w th of None \<Rightarrow> w
      | Some l \<Rightarrow>
          (let queue = (case h_inbox (w_hub w) ! l_slot l of None \<Rightarrow> [] | Some q \<Rightarrow> q);
               w1 = upd_hub (\<lambda>h. retire_slot h (l_slot l)) w;
               w2 = topic_hub_retry_teardown w1 th l;
               w3 = topic_hub_drain hf snd_fn enq th queue w2
           in w3\<lparr>w_locals := (w_locals w3)[th := None]\<rparr>))"

end
