(* ===== verification/Topic_Refs.thy ===== *)
theory Topic_Refs
  imports Topic_Retry
begin

text \<open>
  Reference counting in the hub.  \<open>refcounted\<close> is the discipline the three kinds of
  objects share: a heap whose counters equal the number of owners, and no entry without
  an owner.  It is interpreted for payloads, queries and retry entries.  \<open>hub_refs\<close> says
  who the owners are: commands in mailboxes, entries on outbound queues, and the
  references the running code holds in local variables (\<open>PR\<close>, \<open>QR\<close>, \<open>ER\<close>).
\<close>

definition rc_of :: "ptr multiset \<Rightarrow> ptr \<Rightarrow> int option" where
  "rc_of owners p = (if p \<in># owners then Some (int (count owners p)) else None)"

definition rc_ok :: "('o \<Rightarrow> int) \<Rightarrow> (ptr \<rightharpoonup> 'o) \<Rightarrow> ptr multiset \<Rightarrow> bool" where
  "rc_ok refs heap owners \<longleftrightarrow> (\<forall>p. map_option refs (heap p) = rc_of owners p)"

lemma rc_of_add [simp]:
  "rc_of (add_mset p M) b = (if b = p then Some (int (count M p) + 1) else rc_of M b)"
  by (auto simp: rc_of_def)

lemma rc_of_eq: "rc_of M p = Some n \<longleftrightarrow> p \<in># M \<and> n = int (count M p)" "rc_of M p = None \<longleftrightarrow> p \<notin># M"
  by (auto simp: rc_of_def)

lemma rc_okD: "rc_ok refs heap owners \<Longrightarrow> map_option refs (heap p) = rc_of owners p"
  by (simp add: rc_ok_def)

lemma rc_ok_upd:
  assumes "rc_ok refs heap owners" "\<And>b. b \<noteq> p \<Longrightarrow> rc_of owners' b = rc_of owners b"
    and "map_option refs v = rc_of owners' p"
  shows "rc_ok refs (heap(p := v)) owners'"
  using assms by (simp add: rc_ok_def)

locale refcounted =
  fixes refs :: "'o \<Rightarrow> int" and set_refs :: "int \<Rightarrow> 'o \<Rightarrow> 'o"
  assumes refs_set [simp]: "refs (set_refs n x) = n"
begin

lemma live:
  assumes "rc_ok refs heap owners" "p \<in># owners"
  shows "\<exists>x. heap p = Some x \<and> refs x = int (count owners p)"
  using rc_okD [OF assms(1), of p] assms(2) by (auto simp: rc_of_def)

lemma new_object:
  assumes "rc_ok refs heap owners" "heap p = None" "refs x = 1"
  shows "rc_ok refs (heap(p \<mapsto> x)) (add_mset p owners)"
proof -
  have "rc_of owners p = None" using rc_okD [OF assms(1), of p] assms(2) by simp
  then show ?thesis
    using assms(3) by (intro rc_ok_upd [OF assms(1)]) (auto simp: rc_of_eq(2) not_in_iff)
qed

lemma new_shared:
  assumes "rc_ok refs heap owners" "heap p = None" "refs x = int k" "0 < k"
  shows "rc_ok refs (heap(p \<mapsto> x)) (replicate_mset k p + owners)"
proof -
  have "rc_of owners p = None" using rc_okD [OF assms(1), of p] assms(2) by simp
  then show ?thesis
    using assms(3,4) by (intro rc_ok_upd [OF assms(1)]) (auto simp: rc_of_def not_in_iff split: if_splits)
qed

lemma drop_all:
  assumes "rc_ok refs heap (replicate_mset k p + owners)" "p \<notin># owners"
  shows "rc_ok refs (heap(p := None)) owners"
  using assms(2) by (intro rc_ok_upd [OF assms(1)]) (auto simp: rc_of_def split: if_splits)

lemma retain:
  assumes "rc_ok refs heap owners" "heap p = Some x"
  shows "rc_ok refs (heap(p \<mapsto> set_refs (refs x + 1) x)) (add_mset p owners)"
proof -
  have "rc_of owners p = Some (refs x)" using rc_okD [OF assms(1), of p] assms(2) by simp
  then show ?thesis by (intro rc_ok_upd [OF assms(1)]) (auto simp: rc_of_eq(1))
qed

lemma release:
  assumes "rc_ok refs heap (add_mset p owners)"
  shows "\<exists>x. heap p = Some x \<and>
    rc_ok refs (if refs x = 1 then heap(p := None) else heap(p \<mapsto> set_refs (refs x - 1) x)) owners"
proof -
  obtain x where x: "heap p = Some x" "refs x = int (count owners p) + 1"
    using live [OF assms, of p] by auto
  have "rc_ok refs (heap(p := (if refs x = 1 then None else Some (set_refs (refs x - 1) x)))) owners"
    using x(2) by (intro rc_ok_upd [OF assms]) (auto simp: rc_of_def not_in_iff)
  then show ?thesis using x(1) by (auto split: if_splits)
qed

lemma update:
  assumes "rc_ok refs heap owners" "heap p = Some x" "refs y = refs x"
  shows "rc_ok refs (heap(p \<mapsto> y)) owners"
  using rc_okD [OF assms(1), of p] assms(2,3) by (intro rc_ok_upd [OF assms(1)]) auto

end

interpretation payload_rc: refcounted p_refs "\<lambda>n x. x\<lparr>p_refs := n\<rparr>"
  by unfold_locales simp

interpretation query_rc: refcounted q_refs "\<lambda>n x. x\<lparr>q_refs := n\<rparr>"
  by unfold_locales simp

interpretation entry_rc: refcounted e_refs "\<lambda>n x. x\<lparr>e_refs := n\<rparr>"
  by unfold_locales simp

section \<open>Owners\<close>

definition payloads_of :: "ws_cmd list \<Rightarrow> ptr list" where
  "payloads_of cs = concat (map (\<lambda>c. case c of Publish p _ _ \<Rightarrow> [p] | _ \<Rightarrow> []) cs)"

definition queries_of :: "ws_cmd list \<Rightarrow> ptr list" where
  "queries_of cs = concat (map (\<lambda>c. case c of Publish p _ _ \<Rightarrow> [] | Count q _ \<Rightarrow> [q] | Count_Reply q _ \<Rightarrow> [q]) cs)"

definition box :: "ws_cmd list option \<Rightarrow> ws_cmd list" where
  "box o' = (case o' of None \<Rightarrow> [] | Some q \<Rightarrow> q)"

definition queue_of :: "ws_local option \<Rightarrow> ptr list" where
  "queue_of o' = (case o' of None \<Rightarrow> [] | Some l \<Rightarrow> l_retry l)"

definition queued :: "hub_world \<Rightarrow> ptr list" where
  "queued w = concat (map queue_of (w_locals w))"

definition entry_payload :: "hub_world \<Rightarrow> ptr \<Rightarrow> ptr" where
  "entry_payload w p = e_payload (the (w_entries w p))"

definition payload_owners :: "hub_world \<Rightarrow> ptr multiset" where
  "payload_owners w =
     mset (concat (map (\<lambda>b. payloads_of (box b)) (h_inbox (w_hub w)))) +
     mset (map (entry_payload w) (queued w))"

definition query_owners :: "hub_world \<Rightarrow> ptr multiset" where
  "query_owners w = mset (concat (map (\<lambda>b. queries_of (box b)) (h_inbox (w_hub w))))"

definition hub_refs :: "hub_world \<Rightarrow> ptr multiset \<Rightarrow> ptr multiset \<Rightarrow> ptr multiset \<Rightarrow> bool" where
  "hub_refs w PR QR ER \<longleftrightarrow>
     rc_ok p_refs (w_payloads w) (payload_owners w + PR) \<and>
     rc_ok q_refs (w_queries w) (query_owners w + QR) \<and>
     rc_ok e_refs (w_entries w) (mset (queued w) + ER) \<and>
     distinct (queued w) \<and> \<not> w_fault w \<and>
     (\<forall>p\<ge>w_next w. w_payloads w p = None \<and> w_queries w p = None \<and> w_entries w p = None)"

lemma cmds_simps [simp]:
  "payloads_of [] = []" "queries_of [] = []" "box None = []" "box (Some cmds) = cmds"
  "payloads_of (Publish p t e # cs) = p # payloads_of cs"
  "payloads_of (Count q t # cs) = payloads_of cs"
  "payloads_of (Count_Reply q n # cs) = payloads_of cs"
  "queries_of (Publish p t e # cs) = queries_of cs"
  "queries_of (Count q t # cs) = q # queries_of cs"
  "queries_of (Count_Reply q n # cs) = q # queries_of cs"
  "payloads_of (xs @ ys) = payloads_of xs @ payloads_of ys"
  "queries_of (xs @ ys) = queries_of xs @ queries_of ys"
  "queue_of None = []" "queue_of (Some l) = l_retry l"
  by (simp_all add: payloads_of_def queries_of_def box_def queue_of_def)

lemma owners_cong:
  assumes "h_inbox (w_hub w') = h_inbox (w_hub w)" "w_entries w' = w_entries w"
    "map queue_of (w_locals w') = map queue_of (w_locals w)"
  shows "payload_owners w' = payload_owners w" "query_owners w' = query_owners w" "queued w' = queued w"
proof -
  have "entry_payload w' = entry_payload w"
    using assms(2) by (simp add: entry_payload_def fun_eq_iff)
  then show "payload_owners w' = payload_owners w" "query_owners w' = query_owners w" "queued w' = queued w"
    using assms by (simp_all add: payload_owners_def query_owners_def queued_def)
qed

lemma hub_refs_cong:
  assumes "hub_refs w PR QR ER"
    and "h_inbox (w_hub w') = h_inbox (w_hub w)" "w_entries w' = w_entries w"
      "map queue_of (w_locals w') = map queue_of (w_locals w)"
    and "w_payloads w' = w_payloads w" "w_queries w' = w_queries w" "w_next w' = w_next w"
      "w_fault w' = w_fault w"
  shows "hub_refs w' PR QR ER"
  using assms(1) unfolding hub_refs_def owners_cong [OF assms(2-4)] assms(3,5-8) .

lemma queue_of_same:
  assumes "ws_local_of w th = Some l" "l_retry l' = l_retry l"
  shows "map queue_of ((w_locals w)[th := Some l']) = map queue_of (w_locals w)"
  using assms by (simp add: ws_local_of_def list_eq_iff_nth_eq nth_list_update split: if_splits)

lemma hub_refs_run_tree:
  assumes "hub_refs w PR QR ER" "ws_local_of w th = Some l"
  shows "hub_refs (fst (run_tree w th l f)) PR QR ER"
  using queue_of_same [OF assms(2)]
  by (intro hub_refs_cong [OF assms(1)]) (simp_all add: run_tree_def split: prod.splits)

lemma hub_refs_note_drop [inv_intros]: "hub_refs w PR QR ER \<Longrightarrow> hub_refs (topic_hub_note_drop w) PR QR ER"
  by (erule hub_refs_cong) (simp_all add: topic_hub_note_drop_def)

section \<open>The primitive steps\<close>

lemma refs_payload_new:
  assumes "hub_refs w PR QR ER" "ws_payload_new w data binary = (w', p)"
  shows "hub_refs w' (add_mset p PR) QR ER \<and> w_hub w' = w_hub w \<and> w_locals w' = w_locals w"
proof -
  have w': "w' = w\<lparr>w_payloads := (w_payloads w)(p \<mapsto> \<lparr>p_refs = 1, p_data = data, p_binary = binary\<rparr>),
      w_next := w_next w + 1\<rparr>" and p: "p = w_next w"
    using assms(2) by (auto simp: ws_payload_new_def)
  have "rc_ok p_refs (w_payloads w') (add_mset p (payload_owners w + PR))"
    unfolding w' using assms(1) p by (auto simp: hub_refs_def intro!: payload_rc.new_object)
  moreover have "payload_owners w' = payload_owners w" "query_owners w' = query_owners w" "queued w' = queued w"
    by (rule owners_cong; simp add: w')+
  ultimately show ?thesis using assms(1) p by (auto simp: hub_refs_def w')
qed

lemma refs_payload_retain:
  assumes "hub_refs w PR QR ER" "p \<in># payload_owners w + PR"
  shows "hub_refs (ws_payload_retain w p) (add_mset p PR) QR ER \<and>
    w_hub (ws_payload_retain w p) = w_hub w \<and> w_locals (ws_payload_retain w p) = w_locals w"
proof -
  have rc: "rc_ok p_refs (w_payloads w) (payload_owners w + PR)" using assms(1) by (simp add: hub_refs_def)
  from payload_rc.live [OF this assms(2)] obtain x where x: "w_payloads w p = Some x" by blast
  let ?w = "ws_payload_retain w p"
  have w': "?w = w\<lparr>w_payloads := (w_payloads w)(p \<mapsto> x\<lparr>p_refs := p_refs x + 1\<rparr>)\<rparr>"
    by (simp add: ws_payload_retain_def x)
  have "payload_owners ?w = payload_owners w" "query_owners ?w = query_owners w" "queued ?w = queued w"
    by (rule owners_cong; simp add: w')+
  then show ?thesis
    using assms(1) x payload_rc.retain [OF rc x] by (auto simp: hub_refs_def w')
qed

lemma refs_payload_release:
  assumes "hub_refs w (add_mset p PR) QR ER"
  shows "hub_refs (ws_payload_release w p) PR QR ER \<and>
    w_hub (ws_payload_release w p) = w_hub w \<and> w_locals (ws_payload_release w p) = w_locals w \<and>
    w_entries (ws_payload_release w p) = w_entries w"
proof -
  have "rc_ok p_refs (w_payloads w) (add_mset p (payload_owners w + PR))"
    using assms by (simp add: hub_refs_def)
  from payload_rc.release [OF this] obtain x where x: "w_payloads w p = Some x"
    and rc: "rc_ok p_refs (if p_refs x = 1 then (w_payloads w)(p := None)
      else (w_payloads w)(p \<mapsto> x\<lparr>p_refs := p_refs x - 1\<rparr>)) (payload_owners w + PR)" by blast
  let ?w = "ws_payload_release w p"
  have w': "?w = w\<lparr>w_payloads := (if p_refs x = 1 then (w_payloads w)(p := None)
      else (w_payloads w)(p \<mapsto> x\<lparr>p_refs := p_refs x - 1\<rparr>))\<rparr>"
    by (simp add: ws_payload_release_def x)
  have "payload_owners ?w = payload_owners w" "query_owners ?w = query_owners w" "queued ?w = queued w"
    by (rule owners_cong; simp add: w')+
  then show ?thesis
    using assms rc x by (auto simp: hub_refs_def w')
qed

lemma refs_query_retain:
  assumes "hub_refs w PR QR ER" "q \<in># query_owners w + QR"
  shows "\<exists>x. w_queries w q = Some x \<and>
    ws_query_retain w q = w\<lparr>w_queries := (w_queries w)(q \<mapsto> x\<lparr>q_refs := q_refs x + 1\<rparr>)\<rparr> \<and>
    hub_refs (ws_query_retain w q) PR (add_mset q QR) ER"
proof -
  have rc: "rc_ok q_refs (w_queries w) (query_owners w + QR)" using assms(1) by (simp add: hub_refs_def)
  from query_rc.live [OF this assms(2)] obtain x where x: "w_queries w q = Some x" by blast
  let ?w = "ws_query_retain w q"
  have w': "?w = w\<lparr>w_queries := (w_queries w)(q \<mapsto> x\<lparr>q_refs := q_refs x + 1\<rparr>)\<rparr>"
    by (simp add: ws_query_retain_def x)
  have "payload_owners ?w = payload_owners w" "query_owners ?w = query_owners w" "queued ?w = queued w"
    by (rule owners_cong; simp add: w')+
  then show ?thesis
    using assms(1) x query_rc.retain [OF rc x] by (auto simp: hub_refs_def w')
qed

lemma refs_query_release:
  assumes "hub_refs w PR (add_mset q QR) ER"
  shows "hub_refs (ws_query_release w q) PR QR ER \<and>
    (\<exists>m. ws_query_release w q = w\<lparr>w_queries := m\<rparr> \<and>
       (\<forall>p x. m p = Some x \<longrightarrow> (\<exists>y. w_queries w p = Some y \<and> q_slot y = q_slot x)))"
proof -
  have "rc_ok q_refs (w_queries w) (add_mset q (query_owners w + QR))"
    using assms by (simp add: hub_refs_def)
  from query_rc.release [OF this] obtain x where x: "w_queries w q = Some x"
    and rc: "rc_ok q_refs (if q_refs x = 1 then (w_queries w)(q := None)
      else (w_queries w)(q \<mapsto> x\<lparr>q_refs := q_refs x - 1\<rparr>)) (query_owners w + QR)" by blast
  let ?w = "ws_query_release w q"
  have w': "?w = w\<lparr>w_queries := (if q_refs x = 1 then (w_queries w)(q := None)
      else (w_queries w)(q \<mapsto> x\<lparr>q_refs := q_refs x - 1\<rparr>))\<rparr>"
    by (simp add: ws_query_release_def x)
  have "payload_owners ?w = payload_owners w" "query_owners ?w = query_owners w" "queued ?w = queued w"
    by (rule owners_cong; simp add: w')+
  then have "hub_refs ?w PR QR ER"
    using assms rc x by (auto simp: hub_refs_def w')
  moreover have "\<exists>y. w_queries w p = Some y \<and> q_slot y = q_slot z"
    if "(if q_refs x = 1 then (w_queries w)(q := None)
      else (w_queries w)(q \<mapsto> x\<lparr>q_refs := q_refs x - 1\<rparr>)) p = Some z" for p z
    using that x by (auto split: if_splits)
  ultimately show ?thesis using w' by blast
qed

lemma refs_query_update:
  assumes "hub_refs w PR QR ER" "w_queries w q = Some x" "q_refs y = q_refs x"
  shows "hub_refs (w\<lparr>w_queries := (w_queries w)(q \<mapsto> y)\<rparr>) PR QR ER"
proof -
  let ?w = "w\<lparr>w_queries := (w_queries w)(q \<mapsto> y)\<rparr>"
  have "payload_owners ?w = payload_owners w" "query_owners ?w = query_owners w" "queued ?w = queued w"
    by (rule owners_cong; simp)+
  moreover have "rc_ok q_refs ((w_queries w)(q \<mapsto> y)) (query_owners w + QR)"
    using assms by (auto simp: hub_refs_def intro: query_rc.update)
  ultimately show ?thesis using assms(1,2) by (auto simp: hub_refs_def)
qed

text \<open>Replacing the contents of one mailbox moves the references of its commands.\<close>

lemma refs_inbox:
  assumes "hub_refs w PR QR ER" "i < length (h_inbox (w_hub w))"
    and "h_inbox h = (h_inbox (w_hub w))[i := b]"
    and "mset (payloads_of (box b)) + PR' = mset (payloads_of (box (h_inbox (w_hub w) ! i))) + PR"
    and "mset (queries_of (box b)) + QR' = mset (queries_of (box (h_inbox (w_hub w) ! i))) + QR"
  shows "hub_refs (w\<lparr>w_hub := h\<rparr>) PR' QR' ER"
proof -
  obtain M where M: "mset (concat (map (\<lambda>b. payloads_of (box b)) (h_inbox (w_hub w)))) =
        mset (payloads_of (box (h_inbox (w_hub w) ! i))) + M"
      "mset (concat (map (\<lambda>b. payloads_of (box b)) ((h_inbox (w_hub w))[i := b]))) = mset (payloads_of (box b)) + M"
    using mset_concat_update [OF assms(2), of "\<lambda>b. payloads_of (box b)"] by metis
  obtain K where K: "mset (concat (map (\<lambda>b. queries_of (box b)) (h_inbox (w_hub w)))) =
        mset (queries_of (box (h_inbox (w_hub w) ! i))) + K"
      "mset (concat (map (\<lambda>b. queries_of (box b)) ((h_inbox (w_hub w))[i := b]))) = mset (queries_of (box b)) + K"
    using mset_concat_update [OF assms(2), of "\<lambda>b. queries_of (box b)"] by metis
  let ?w = "w\<lparr>w_hub := h\<rparr>"
  have ep: "entry_payload ?w = entry_payload w" and qd: "queued ?w = queued w"
    by (simp_all add: entry_payload_def queued_def fun_eq_iff)
  have "payload_owners ?w + PR' = payload_owners w + PR"
    using M assms(4) by (simp add: payload_owners_def ep qd assms(3) ac_simps)
  moreover have "query_owners ?w + QR' = query_owners w + QR"
    using K assms(5) by (simp add: query_owners_def assms(3) ac_simps)
  ultimately show ?thesis using assms(1) qd by (simp add: hub_refs_def)
qed

lemma post_cases:
  assumes "topic_hub_post_locked enq h i cmd = (h', b)"
  obtains "\<not> b" "h' = h"
  | c where "b" "h_inbox h ! i = Some c" "h' = h\<lparr>h_inbox := (h_inbox h)[i := Some (c @ [cmd])]\<rparr>"
      "length c < TOPIC_HUB_MAILBOX_CAPACITY" "enq c"
  using assms by (auto simp: topic_hub_post_locked_def split: option.splits if_splits)

lemma refs_post:
  assumes "hub_refs w (mset (payloads_of [cmd]) + PR) (mset (queries_of [cmd]) + QR) ER"
    and "i < length (h_inbox (w_hub w))" "topic_hub_post_locked enq (w_hub w) i cmd = (h, True)"
  shows "hub_refs (w\<lparr>w_hub := h\<rparr>) PR QR ER"
  using assms(3)
proof (cases rule: post_cases)
  case (2 c)
  then show ?thesis
    by (intro refs_inbox [OF assms(1,2), of h "Some (c @ [cmd])"]) (simp_all add: ac_simps)
qed simp

end
