(* ===== verification/Topic_Hub_Inv.thy ===== *)
theory Topic_Hub_Inv
  imports Topic_Refs
begin

text \<open>
  Every operation of the hub keeps the reference counts exact and the slot numbers in
  range: \<open>hub_inv\<close> is \<open>hub_refs\<close> with the sizes of the hub's tables.  The extra owners
  \<open>PR\<close>, \<open>QR\<close>, \<open>ER\<close> carry what callers hold: the askers parked in \<open>topic_hub_count\<close> and the
  senders parked in \<open>topic_hub_send\<close>.
\<close>

definition hub_wf :: "hub_world \<Rightarrow> bool" where
  "hub_wf w \<longleftrightarrow>
     length (h_inbox (w_hub w)) = TOPIC_HUB_MAX_WORKERS \<and>
     length (h_gen (w_hub w)) = TOPIC_HUB_MAX_WORKERS \<and>
     length (h_taken (w_hub w)) = TOPIC_HUB_MAX_WORKERS \<and>
     length (h_interest (w_hub w)) = TOPIC_HUB_MAX_WORKERS \<and>
     h_slots_used (w_hub w) \<le> TOPIC_HUB_MAX_WORKERS \<and>
     (\<forall>th l. ws_local_of w th = Some l \<longrightarrow> l_slot l < TOPIC_HUB_MAX_WORKERS) \<and>
     (\<forall>q x. w_queries w q = Some x \<longrightarrow> q_slot x < TOPIC_HUB_MAX_WORKERS) \<and>
     (\<forall>p e. w_entries w p = Some e \<longrightarrow> list_all (\<lambda>r. r_slot r < TOPIC_HUB_MAX_WORKERS) (e_pending e))"

definition hub_inv :: "hub_world \<Rightarrow> ptr multiset \<Rightarrow> ptr multiset \<Rightarrow> ptr multiset \<Rightarrow> bool" where
  "hub_inv w PR QR ER \<longleftrightarrow> hub_refs w PR QR ER \<and> hub_wf w"

lemma hub_wfD:
  assumes "hub_wf w"
  shows "length (h_inbox (w_hub w)) = TOPIC_HUB_MAX_WORKERS"
    "h_slots_used (w_hub w) \<le> TOPIC_HUB_MAX_WORKERS"
    "ws_local_of w th = Some l \<Longrightarrow> l_slot l < TOPIC_HUB_MAX_WORKERS"
    "w_queries w q = Some x \<Longrightarrow> q_slot x < TOPIC_HUB_MAX_WORKERS"
    "w_entries w p = Some e \<Longrightarrow> list_all (\<lambda>r. r_slot r < TOPIC_HUB_MAX_WORKERS) (e_pending e)"
  using assms by (auto simp: hub_wf_def)

lemma ws_local_of_upd [simp]:
  "ws_local_of (w\<lparr>w_hub := h\<rparr>) th = ws_local_of w th"
  "ws_local_of (w\<lparr>w_payloads := ps\<rparr>) th = ws_local_of w th"
  "ws_local_of (w\<lparr>w_queries := qs\<rparr>) th = ws_local_of w th"
  "ws_local_of (w\<lparr>w_entries := es\<rparr>) th = ws_local_of w th"
  "ws_local_of (w\<lparr>w_next := n\<rparr>) th = ws_local_of w th"
  "ws_local_of (w\<lparr>w_fired := fs\<rparr>) th = ws_local_of w th"
  by (simp_all add: ws_local_of_def)

lemma ws_local_of_put:
  "ws_local_of (w\<lparr>w_locals := (w_locals w)[a := v]\<rparr>) th =
     (if th = a \<and> a < length (w_locals w) then v else ws_local_of w th)"
  by (auto simp: ws_local_of_def)

lemma ws_local_of_cong: "w_locals w' = w_locals w \<Longrightarrow> ws_local_of w' = ws_local_of w"
  by (simp add: ws_local_of_def fun_eq_iff)

text \<open>Steps that leave tables, attachments, queries and entries as they are.\<close>

lemma hub_wf_cong:
  assumes "hub_wf w" "w_locals w' = w_locals w" "w_queries w' = w_queries w" "w_entries w' = w_entries w"
    and "length (h_inbox (w_hub w')) = length (h_inbox (w_hub w))" "h_gen (w_hub w') = h_gen (w_hub w)"
      "h_taken (w_hub w') = h_taken (w_hub w)"
      "length (h_interest (w_hub w')) = length (h_interest (w_hub w))"
      "h_slots_used (w_hub w') = h_slots_used (w_hub w)"
  shows "hub_wf w'"
  using assms ws_local_of_cong [OF assms(2)] by (simp add: hub_wf_def)

lemma hub_wf_queries:
  assumes "hub_wf w" "\<And>q x. m q = Some x \<Longrightarrow> \<exists>y. w_queries w q = Some y \<and> q_slot y = q_slot x"
  shows "hub_wf (w\<lparr>w_queries := m\<rparr>)"
proof -
  have "q_slot x < TOPIC_HUB_MAX_WORKERS" if "m q = Some x" for q x
    using assms(2) [OF that] hub_wfD(4) [OF assms(1)] by metis
  then show ?thesis using assms(1) by (simp add: hub_wf_def)
qed

lemma hub_wf_local:
  assumes "hub_wf w" "l_slot l < TOPIC_HUB_MAX_WORKERS"
  shows "hub_wf (w\<lparr>w_locals := (w_locals w)[th := Some l]\<rparr>)"
  using assms by (simp add: hub_wf_def ws_local_of_put)

lemma post_wf:
  assumes "hub_wf w" "topic_hub_post_locked enq (w_hub w) i cmd = (h, b)"
  shows "hub_wf (w\<lparr>w_hub := h\<rparr>)"
  using assms(2) by (cases rule: post_cases) (use assms(1) in \<open>auto intro: hub_wf_cong\<close>)

lemma inv_run_tree:
  assumes "hub_inv w PR QR ER" "ws_local_of w th = Some l"
  shows "hub_inv (fst (run_tree w th l f)) PR QR ER"
proof -
  have sl: "l_slot l < TOPIC_HUB_MAX_WORKERS"
    using assms hub_wfD(3) by (auto simp: hub_inv_def)
  obtain t r where f: "f (slot_tree w l) = (t, r)" by fastforce
  have "hub_wf (w\<lparr>w_hub := (w_hub w)\<lparr>h_interest := (h_interest (w_hub w))[l_slot l := t_hub t]\<rparr>\<rparr>)"
    using assms(1) by (auto simp: hub_inv_def intro: hub_wf_cong)
  from hub_wf_local [OF this, of "l\<lparr>l_tree := t\<lparr>t_hub := None\<rparr>\<rparr>" th]
  have "hub_wf (fst (run_tree w th l f))"
    using sl by (simp add: run_tree_def f)
  then show ?thesis
    using assms hub_refs_run_tree by (auto simp: hub_inv_def)
qed

lemma inv_run_treeD:
  "hub_inv w PR QR ER \<Longrightarrow> ws_local_of w th = Some l \<Longrightarrow> run_tree w th l f = (w', r) \<Longrightarrow> hub_inv w' PR QR ER"
  using inv_run_tree [of w PR QR ER th l f] by simp

lemma inv_hub_counters:
  assumes "hub_inv w PR QR ER" "h_inbox h = h_inbox (w_hub w)" "h_gen h = h_gen (w_hub w)"
    "h_taken h = h_taken (w_hub w)" "h_interest h = h_interest (w_hub w)" "h_slots_used h = h_slots_used (w_hub w)"
  shows "hub_inv (w\<lparr>w_hub := h\<rparr>) PR QR ER"
  using assms unfolding hub_inv_def
  by (auto intro!: hub_wf_cong [of w] hub_refs_cong [of w])

lemma inv_note_drop [inv_intros]: "hub_inv w PR QR ER \<Longrightarrow> hub_inv (topic_hub_note_drop w) PR QR ER"
  unfolding topic_hub_note_drop_def by (erule inv_hub_counters) simp_all

lemma inv_payload_release:
  assumes "hub_inv w (add_mset p PR) QR ER"
  shows "hub_inv (ws_payload_release w p) PR QR ER"
proof -
  have "hub_refs w (add_mset p PR) QR ER" using assms by (simp add: hub_inv_def)
  note r = refs_payload_release [OF this]
  have "w_queries (ws_payload_release w p) = w_queries w"
    by (simp add: ws_payload_release_def split: option.splits)
  then show ?thesis
    using assms r by (auto simp: hub_inv_def intro: hub_wf_cong)
qed

lemma inv_query_release:
  assumes "hub_inv w PR (add_mset q QR) ER"
  shows "hub_inv (ws_query_release w q) PR QR ER"
proof -
  have "hub_refs w PR (add_mset q QR) ER" using assms by (simp add: hub_inv_def)
  from refs_query_release [OF this] obtain m where m: "ws_query_release w q = w\<lparr>w_queries := m\<rparr>"
      "\<forall>p x. m p = Some x \<longrightarrow> (\<exists>y. w_queries w p = Some y \<and> q_slot y = q_slot x)"
      "hub_refs (ws_query_release w q) PR QR ER" by blast
  have "hub_wf (w\<lparr>w_queries := m\<rparr>)"
    using assms m(2) by (intro hub_wf_queries) (auto simp: hub_inv_def)
  then show ?thesis using m by (simp add: hub_inv_def)
qed

lemma inv_query_update:
  assumes "hub_inv w PR QR ER" "w_queries w q = Some x" "q_refs y = q_refs x" "q_slot y = q_slot x"
  shows "hub_inv (w\<lparr>w_queries := (w_queries w)(q \<mapsto> y)\<rparr>) PR QR ER"
  using assms refs_query_update [of w PR QR ER q x y]
  by (auto simp: hub_inv_def split: if_splits intro!: hub_wf_queries)

lemma inv_post:
  assumes "hub_inv w (mset (payloads_of [cmd]) + PR) (mset (queries_of [cmd]) + QR) ER"
    and "i < TOPIC_HUB_MAX_WORKERS" "topic_hub_post_locked enq (w_hub w) i cmd = (h, True)"
  shows "hub_inv (w\<lparr>w_hub := h\<rparr>) PR QR ER"
  using assms refs_post [of w cmd PR QR ER i enq h] post_wf [OF _ assms(3)] hub_wfD(1) [of w]
  by (auto simp: hub_inv_def)

section \<open>Draining a mailbox\<close>

lemma inv_query_settle:
  assumes "hub_inv w PR (add_mset q QR) ER"
  shows "hub_inv (ws_query_settle w q n) PR QR ER"
proof -
  have "rc_ok q_refs (w_queries w) (query_owners w + add_mset q QR)"
    using assms by (simp add: hub_inv_def hub_refs_def)
  from query_rc.live [OF this, of q] obtain x where x: "w_queries w q = Some x" by auto
  define y where "y = x\<lparr>q_total := q_total x + n, q_pending := q_pending x - 1\<rparr>"
  define w1 where "w1 = w\<lparr>w_queries := (w_queries w)(q \<mapsto> y)\<rparr>"
  have "hub_inv w1 PR (add_mset q QR) ER"
    unfolding w1_def by (rule inv_query_update [OF assms x]) (simp_all add: y_def)
  moreover from this have "hub_inv (w1\<lparr>w_fired := w_fired w1 @ [q]\<rparr>) PR (add_mset q QR) ER"
    unfolding hub_inv_def by (auto intro!: hub_wf_cong [of w1] hub_refs_cong [of w1])
  ultimately have "hub_inv (if q_abandoned x then w
      else if q_pending y = 0 then w1\<lparr>w_fired := w_fired w1 @ [q]\<rparr> else w1) PR (add_mset q QR) ER"
    using assms by simp
  note r = inv_query_release [OF this]
  have "ws_query_settle w q n = ws_query_release (if q_abandoned x then w
      else if q_pending y = 0 then w1\<lparr>w_fired := w_fired w1 @ [q]\<rparr> else w1) q"
    by (simp only: ws_query_settle_def x option.case Let_def y_def w1_def)
  with r show ?thesis by simp
qed

lemma inv_answer_count:
  assumes "hub_inv w PR (add_mset q QR) ER"
  shows "hub_inv (topic_hub_answer_count hf enq w th q topic) PR QR ER"
proof -
  obtain w1 n where w1: "(case ws_local_of w th of None \<Rightarrow> (w, 0)
      | Some l \<Rightarrow> run_tree w th l (\<lambda>t. apsnd v_hits (ws_topic_count hf t topic))) = (w1, n)"
    by fastforce
  have inv1: "hub_inv w1 PR (add_mset q QR) ER"
    using w1 assms by (auto split: option.splits intro: inv_run_treeD)
  then have "rc_ok q_refs (w_queries w1) (query_owners w1 + add_mset q QR)"
    by (simp add: hub_inv_def hub_refs_def)
  from query_rc.live [OF this, of q] obtain x where x: "w_queries w1 q = Some x" by auto
  have sl: "q_slot x < TOPIC_HUB_MAX_WORKERS" using inv1 x hub_wfD(4) by (auto simp: hub_inv_def)
  obtain h b where p: "(if q_gen x = h_gen (w_hub w1) ! q_slot x
      then topic_hub_post_locked enq (w_hub w1) (q_slot x) (Count_Reply q (of_nat n))
      else (w_hub w1, False)) = (h, b)" by fastforce
  have eq: "topic_hub_answer_count hf enq w th q topic =
      (if b then w1\<lparr>w_hub := h\<rparr> else ws_query_release (topic_hub_note_drop w1) q)"
    unfolding topic_hub_answer_count_def w1 using x p by (cases b) (simp_all add: Let_def)
  show ?thesis
  proof (cases b)
    case True
    then have "topic_hub_post_locked enq (w_hub w1) (q_slot x) (Count_Reply q (of_nat n)) = (h, True)"
      using p by (simp split: if_splits)
    from inv_post [OF _ sl this] show ?thesis using inv1 True by (simp add: eq)
  next
    case False
    then show ?thesis using inv1 by (simp add: eq inv_query_release inv_note_drop)
  qed
qed

lemma inv_drain_one:
  assumes "hub_inv w (mset (payloads_of [cmd]) + PR) (mset (queries_of [cmd]) + QR) ER"
  shows "hub_inv (topic_hub_drain_one hf snd_fn enq th cmd w) PR QR ER"
proof (cases cmd)
  case (Publish p t e)
  then have "hub_inv (case ws_local_of w th of None \<Rightarrow> w
      | Some l \<Rightarrow> fst (run_tree w th l (\<lambda>tr. ws_topic_publish hf snd_fn tr t e))) (add_mset p PR) QR ER"
    using assms inv_run_tree by (auto split: option.splits)
  then show ?thesis
    using Publish by (simp add: topic_hub_drain_one_def inv_payload_release)
qed (use assms in \<open>auto simp: topic_hub_drain_one_def inv_answer_count inv_query_settle\<close>)

lemma inv_drain:
  assumes "hub_inv w (mset (payloads_of cmds) + PR) (mset (queries_of cmds) + QR) ER"
  shows "hub_inv (topic_hub_drain hf snd_fn enq th cmds w) PR QR ER"
  using assms unfolding topic_hub_drain_def
proof (induction cmds arbitrary: w)
  case (Cons c cmds)
  have "payloads_of (c # cmds) = payloads_of [c] @ payloads_of cmds"
    "queries_of (c # cmds) = queries_of [c] @ queries_of cmds"
    using cmds_simps(11,12) [of "[c]" cmds] by simp_all
  then have "hub_inv w (mset (payloads_of [c]) + (mset (payloads_of cmds) + PR))
      (mset (queries_of [c]) + (mset (queries_of cmds) + QR)) ER"
    using Cons.prems by (simp add: ac_simps)
  from inv_drain_one [OF this] show ?case using Cons.IH by simp
qed simp

lemma inv_mailbox_round:
  assumes inv: "hub_inv w PR QR ER"
  shows "hub_inv (mailbox_round hf snd_fn enq w th) PR QR ER"
proof (cases "ws_local_of w th")
  case None
  then show ?thesis using inv by (simp add: mailbox_round_def)
next
  case (Some l)
  show ?thesis
  proof (cases "h_inbox (w_hub w) ! l_slot l")
    case None
    then show ?thesis using inv Some by (simp add: mailbox_round_def)
  next
    case q: (Some q)
    let ?n = TOPIC_HUB_MAILBOX_BATCH
    let ?h = "(w_hub w)\<lparr>h_inbox := (h_inbox (w_hub w))[l_slot l := Some (drop ?n q)]\<rparr>"
    have sl: "l_slot l < length (h_inbox (w_hub w))"
      using inv Some hub_wfD(1,3) by (auto simp: hub_inv_def)
    have split: "payloads_of q = payloads_of (take ?n q) @ payloads_of (drop ?n q)"
      "queries_of q = queries_of (take ?n q) @ queries_of (drop ?n q)"
      by (simp_all flip: cmds_simps(11,12))
    have "hub_refs (w\<lparr>w_hub := ?h\<rparr>) (mset (payloads_of (take ?n q)) + PR) (mset (queries_of (take ?n q)) + QR) ER"
      using inv by (intro refs_inbox [OF _ sl, where b = "Some (drop ?n q)"])
        (auto simp: hub_inv_def q split ac_simps)
    moreover have "hub_wf (w\<lparr>w_hub := ?h\<rparr>)"
      using inv by (auto simp: hub_inv_def intro: hub_wf_cong)
    ultimately have "hub_inv (w\<lparr>w_hub := ?h\<rparr>) (mset (payloads_of (take ?n q)) + PR) (mset (queries_of (take ?n q)) + QR) ER"
      by (simp add: hub_inv_def)
    from inv_drain [OF this] show ?thesis
      using Some q by (simp add: mailbox_round_def)
  qed
qed

section \<open>The fan-out\<close>

definition base_ref :: "ptr option \<Rightarrow> ptr multiset" where
  "base_ref o' = (case o' of None \<Rightarrow> {#} | Some p \<Rightarrow> {#p#})"

definition fan_inv ::
    "hub_world \<Rightarrow> ptr multiset \<Rightarrow> ptr multiset \<Rightarrow> ptr multiset \<Rightarrow> fan \<Rightarrow> bool" where
  "fan_inv w0 PR QR ER s \<longleftrightarrow>
     hub_inv (f_world s) (base_ref (f_payload s) + PR) QR ER \<and>
     w_locals (f_world s) = w_locals w0 \<and> w_entries (f_world s) = w_entries w0 \<and>
     list_all (\<lambda>r. r_slot r < TOPIC_HUB_MAX_WORKERS) (f_full s) \<and>
     (f_full s \<noteq> [] \<longrightarrow> f_payload s \<noteq> None)"

lemma inv_payload_retain:
  assumes "hub_inv w PR QR ER" "p \<in># payload_owners w + PR"
  shows "hub_inv (ws_payload_retain w p) (add_mset p PR) QR ER \<and>
    w_hub (ws_payload_retain w p) = w_hub w \<and> w_locals (ws_payload_retain w p) = w_locals w \<and>
    w_entries (ws_payload_retain w p) = w_entries w"
proof -
  have r: "hub_refs (ws_payload_retain w p) (add_mset p PR) QR ER \<and>
      w_hub (ws_payload_retain w p) = w_hub w \<and> w_locals (ws_payload_retain w p) = w_locals w"
    using assms by (intro refs_payload_retain) (auto simp: hub_inv_def)
  have e: "w_queries (ws_payload_retain w p) = w_queries w" "w_entries (ws_payload_retain w p) = w_entries w"
    by (simp_all add: ws_payload_retain_def split: option.splits)
  then show ?thesis using assms(1) r by (auto simp: hub_inv_def intro: hub_wf_cong)
qed

lemma inv_payload_new:
  assumes "hub_inv w PR QR ER" "ws_payload_new w data binary = (w', p)"
  shows "hub_inv w' (add_mset p PR) QR ER \<and> w_hub w' = w_hub w \<and> w_locals w' = w_locals w \<and>
    w_entries w' = w_entries w"
proof -
  have r: "hub_refs w' (add_mset p PR) QR ER \<and> w_hub w' = w_hub w \<and> w_locals w' = w_locals w"
    using assms by (intro refs_payload_new) (auto simp: hub_inv_def)
  have e: "w_queries w' = w_queries w" "w_entries w' = w_entries w"
    using assms(2) by (auto simp: ws_payload_new_def)
  then show ?thesis using assms(1) r by (auto simp: hub_inv_def intro: hub_wf_cong)
qed

lemma payload_release_frame:
  "w_hub (ws_payload_release w p) = w_hub w" "w_locals (ws_payload_release w p) = w_locals w"
  "w_entries (ws_payload_release w p) = w_entries w"
  by (simp_all add: ws_payload_release_def split: option.splits)

text \<open>Posting one copy: the reference is taken before the post and given back when it fails.\<close>

lemma inv_post_copy:
  assumes inv: "hub_inv w PR QR ER" and p: "p \<in># payload_owners w + PR" and i: "i < TOPIC_HUB_MAX_WORKERS"
    and r: "topic_hub_post_locked enq (w_hub (ws_payload_retain w p)) i (Publish p topic e) = (h, b)"
  shows "hub_inv (if b then (ws_payload_retain w p)\<lparr>w_hub := h\<rparr>
    else ws_payload_release (ws_payload_retain w p) p) PR QR ER"
proof -
  note k = inv_payload_retain [OF inv p]
  show ?thesis
  proof (cases b)
    case True
    then show ?thesis
      using k r i inv_post [of "ws_payload_retain w p" "Publish p topic e" PR QR ER i enq h] by simp
  next
    case False
    then show ?thesis using k by (auto intro: inv_payload_release)
  qed
qed

lemma fan_inv_slot:
  assumes inv: "fan_inv w0 PR QR ER s" and i: "i < TOPIC_HUB_MAX_WORKERS"
  shows "fan_inv w0 PR QR ER (fanout_slot enq own topic data binary e interest reliable i s)"
proof (cases "h_inbox (w_hub (f_world s)) ! i = None \<or> own = Some i \<or>
    \<not> ws_interest_matches (h_interest (w_hub (f_world s)) ! i) interest")
  case True
  then show ?thesis using inv by (auto simp: fanout_slot_def Let_def fan_inv_def)
next
  case False
  obtain w1 p where w1: "(case f_payload s of Some p \<Rightarrow> (f_world s, p)
      | None \<Rightarrow> ws_payload_new (f_world s) data binary) = (w1, p)" by fastforce
  have w1_inv: "hub_inv w1 (add_mset p PR) QR ER" "w_locals w1 = w_locals w0" "w_entries w1 = w_entries w0"
    using inv w1 inv_payload_new [of "f_world s" PR QR ER data binary w1 p]
    by (auto simp: fan_inv_def base_ref_def split: option.splits)
  obtain h b where hb: "topic_hub_post_locked enq (w_hub (ws_payload_retain w1 p)) i (Publish p topic e) = (h, b)"
    by fastforce
  define w2 where "w2 = (if b then (ws_payload_retain w1 p)\<lparr>w_hub := h\<rparr>
    else ws_payload_release (ws_payload_retain w1 p) p)"
  have inv2: "hub_inv w2 (add_mset p PR) QR ER"
    unfolding w2_def by (rule inv_post_copy [OF w1_inv(1) _ i hb]) simp
  have fr2: "w_locals w2 = w_locals w0" "w_entries w2 = w_entries w0"
    using w1_inv inv_payload_retain [OF w1_inv(1), of p] by (simp_all add: w2_def payload_release_frame)
  have step: "fanout_slot enq own topic data binary e interest reliable i s =
      (if b then s\<lparr>f_world := w2, f_payload := Some p, f_posted := f_posted s + 1\<rparr>
       else if reliable then s\<lparr>f_world := w2, f_payload := Some p,
         f_full := f_full s @ [\<lparr>r_slot = i, r_gen = h_gen (w_hub (ws_payload_retain w1 p)) ! i\<rparr>]\<rparr>
       else s\<lparr>f_world := w2, f_payload := Some p, f_dropped := f_dropped s + 1\<rparr>)"
    using False w1 hb by (cases b) (auto simp: fanout_slot_def Let_def w2_def)
  show ?thesis
    unfolding step using inv inv2 fr2 i by (auto simp: fan_inv_def base_ref_def)
qed

lemma fan_inv_fold:
  assumes "fan_inv w0 PR QR ER s" "list_all (\<lambda>i. i < TOPIC_HUB_MAX_WORKERS) is"
  shows "fan_inv w0 PR QR ER (fold (fanout_slot enq own topic data binary e interest reliable) is s)"
  using assms by (induction "is" arbitrary: s) (auto intro: fan_inv_slot)

lemma fan_inv_fanout:
  assumes "hub_inv w PR QR ER"
  shows "fan_inv w PR QR ER (topic_hub_fanout_locked enq w own topic data binary e interest reliable)"
  unfolding topic_hub_fanout_locked_def
proof (rule fan_inv_fold)
  show "list_all (\<lambda>i. i < TOPIC_HUB_MAX_WORKERS) [0..<h_slots_used (w_hub w)]"
    using assms hub_wfD(2) [of w] by (auto simp: hub_inv_def list_all_iff)
qed (use assms in \<open>simp add: fan_inv_def base_ref_def\<close>)

lemma inv_release_base:
  "hub_inv w (base_ref o' + PR) QR ER \<Longrightarrow> hub_inv (release_base w o') PR QR ER"
  by (auto simp: release_base_def base_ref_def inv_payload_release split: option.splits)

lemma inv_publish_local:
  "hub_inv w PR QR ER \<Longrightarrow> hub_inv (fst (publish_local hf snd_fn w th topic e)) PR QR ER"
  by (auto simp: publish_local_def inv_run_tree split: option.splits)

lemma inv_publish:
  assumes "hub_inv w PR QR ER"
  shows "hub_inv (fst (topic_hub_publish hf snd_fn enq w th topic data binary e)) PR QR ER"
proof -
  obtain w1 sent where w1: "publish_local hf snd_fn w th topic e = (w1, sent)" by fastforce
  define f where "f = topic_hub_fanout_locked enq w1 (map_option l_slot (ws_local_of w1 th)) topic data binary
      e (ws_interest_build hf topic) False"
  have "hub_inv w1 PR QR ER" using inv_publish_local [OF assms, of hf snd_fn th topic e] w1 by simp
  from fan_inv_fanout [OF this] have "hub_inv (f_world f) (base_ref (f_payload f) + PR) QR ER"
    unfolding f_def fan_inv_def by blast
  then have "hub_inv (upd_hub (\<lambda>h. h\<lparr>h_posted := h_posted h + of_nat (f_posted f),
      h_skipped := h_skipped h + of_nat (f_skipped f),
      h_dropped := h_dropped h + of_nat (f_dropped f)\<rparr>) (f_world f)) (base_ref (f_payload f) + PR) QR ER"
    by (rule inv_hub_counters) simp_all
  from inv_release_base [OF this] show ?thesis
    by (simp add: topic_hub_publish_def w1 Let_def f_def)
qed

section \<open>Counting\<close>

lemma inv_ask_slot:
  assumes inv: "hub_inv w PR (add_mset q QR) ER" and i: "i < TOPIC_HUB_MAX_WORKERS"
  shows "hub_inv (ask_slot enq own q topic interest i w) PR (add_mset q QR) ER"
proof -
  have "q \<in># query_owners w + add_mset q QR" by simp
  from refs_query_retain [OF _ this] inv obtain x where x: "w_queries w q = Some x"
    and w1: "ws_query_retain w q = w\<lparr>w_queries := (w_queries w)(q \<mapsto> x\<lparr>q_refs := q_refs x + 1\<rparr>)\<rparr>"
    and r1: "hub_refs (ws_query_retain w q) PR (add_mset q (add_mset q QR)) ER"
    unfolding hub_inv_def by blast
  have "hub_wf (ws_query_retain w q)"
    unfolding w1 using inv x by (intro hub_wf_queries) (auto simp: hub_inv_def split: if_splits)
  then have inv1: "hub_inv (ws_query_retain w q) PR (add_mset q (add_mset q QR)) ER"
    using r1 by (simp add: hub_inv_def)
  obtain h b where hb: "topic_hub_post_locked enq (w_hub (ws_query_retain w q)) i (Count q topic) = (h, b)"
    by fastforce
  define w2 where "w2 = (ws_query_retain w q)\<lparr>w_hub := h\<rparr>"
  show ?thesis
  proof (cases b)
    case True
    have "hub_inv w2 PR (add_mset q QR) ER"
      unfolding w2_def using inv_post [of "ws_query_retain w q" "Count q topic" PR "add_mset q QR" ER i enq h]
        inv1 i hb True by simp
    moreover have "w_queries w2 q = Some (x\<lparr>q_refs := q_refs x + 1\<rparr>)" by (simp add: w2_def w1)
    ultimately have "hub_inv (w2\<lparr>w_queries := (w_queries w2)(q \<mapsto>
        x\<lparr>q_refs := q_refs x + 1, q_pending := q_pending x + 1\<rparr>)\<rparr>) PR (add_mset q QR) ER"
      by (rule inv_query_update) simp_all
    then show ?thesis
      using inv hb True by (simp add: ask_slot_def Let_def w2_def) (simp add: w1)
  next
    case False
    have "query_owners (ws_query_retain w q) + add_mset q (add_mset q QR) = add_mset q (add_mset q (query_owners (ws_query_retain w q) + QR))"
      by simp
    then have "rc_ok q_refs (w_queries (ws_query_retain w q)) (add_mset q (add_mset q (query_owners (ws_query_retain w q) + QR)))"
      using r1 by (simp only: hub_refs_def)
    from query_rc.live [OF this, of q] have "q_refs (the (w_queries (ws_query_retain w q) q)) \<noteq> 1" by auto
    then have "ws_query_unref (ws_query_retain w q) q = ws_query_release (ws_query_retain w q) q"
      by (auto simp: ws_query_unref_def ws_query_release_def split: option.splits)
    then show ?thesis
      using inv hb False inv_note_drop [OF inv_query_release [OF inv1]] by (simp add: ask_slot_def Let_def)
  qed
qed

lemma inv_ask_others:
  assumes "hub_inv w PR (add_mset q QR) ER"
  shows "hub_inv (topic_hub_ask_others hf enq w own q topic) PR (add_mset q QR) ER"
proof -
  have "hub_inv (fold (ask_slot enq own q topic i) is u) PR (add_mset q QR) ER"
    if "hub_inv u PR (add_mset q QR) ER" "list_all (\<lambda>i. i < TOPIC_HUB_MAX_WORKERS) is" for i "is" u
    using that by (induction "is" arbitrary: u) (auto intro: inv_ask_slot)
  moreover have "list_all (\<lambda>i. i < TOPIC_HUB_MAX_WORKERS) [0..<h_slots_used (w_hub w)]"
    using assms hub_wfD(2) [of w] by (auto simp: hub_inv_def list_all_iff)
  ultimately show ?thesis using assms unfolding topic_hub_ask_others_def by blast
qed

lemma inv_query_new:
  assumes "hub_inv w PR QR ER" "q = w_next w" "q_refs x = 1" "q_slot x < TOPIC_HUB_MAX_WORKERS"
  shows "hub_inv (w\<lparr>w_queries := (w_queries w)(q \<mapsto> x), w_next := w_next w + 1\<rparr>) PR (add_mset q QR) ER"
    (is "hub_inv ?w _ _ _")
proof -
  have "payload_owners ?w = payload_owners w" "query_owners ?w = query_owners w" "queued ?w = queued w"
    by (rule owners_cong; simp)+
  moreover have "rc_ok q_refs ((w_queries w)(q \<mapsto> x)) (add_mset q (query_owners w + QR))"
    using assms by (intro query_rc.new_object) (auto simp: hub_inv_def hub_refs_def)
  ultimately have "hub_refs ?w PR (add_mset q QR) ER"
    using assms(1,2) by (auto simp: hub_inv_def hub_refs_def)
  moreover have "hub_wf ?w"
    using assms(1,4) by (auto simp: hub_inv_def hub_wf_def)
  ultimately show ?thesis by (simp add: hub_inv_def)
qed

lemma inv_count_begin:
  assumes "hub_inv w PR QR ER" "topic_hub_count_begin hf enq park w th topic = (w', r)"
  shows "hub_inv w' PR (case r of Inl n \<Rightarrow> QR | Inr q \<Rightarrow> add_mset q QR) ER"
proof (cases "ws_local_of w th")
  case None
  then show ?thesis using assms by (auto simp: topic_hub_count_begin_def)
next
  case (Some l)
  obtain w1 n where w1: "run_tree w th l (\<lambda>t. apsnd v_hits (ws_topic_count hf t topic)) = (w1, n)" by fastforce
  have inv1: "hub_inv w1 PR QR ER" by (rule inv_run_treeD [OF assms(1) Some w1])
  have sl: "l_slot l < TOPIC_HUB_MAX_WORKERS" using assms(1) Some hub_wfD(3) by (auto simp: hub_inv_def)
  let ?x = "\<lparr>q_refs = 1, q_slot = l_slot l, q_gen = l_gen l, q_pending = 0,
      q_total = of_nat n, q_abandoned = False, q_done = True\<rparr>"
  have "hub_inv (w1\<lparr>w_queries := (w_queries w1)(w_next w1 \<mapsto> ?x), w_next := w_next w1 + 1\<rparr>) PR
      (add_mset (w_next w1) QR) ER"
    by (rule inv_query_new [OF inv1]) (use sl in simp_all)
  from inv_ask_others [OF this] show ?thesis
    using assms(2) Some w1 inv1 by (auto simp: topic_hub_count_begin_def Let_def split: if_splits)
qed

lemma inv_count_end:
  assumes "hub_inv w PR (add_mset q QR) ER"
  shows "hub_inv (fst (topic_hub_count_end w q)) PR QR ER"
proof -
  have "rc_ok q_refs (w_queries w) (query_owners w + add_mset q QR)"
    using assms by (simp add: hub_inv_def hub_refs_def)
  from query_rc.live [OF this, of q] obtain x where x: "w_queries w q = Some x" by auto
  have "hub_inv (w\<lparr>w_queries := (w_queries w)(q \<mapsto> x\<lparr>q_abandoned := True, q_done := False\<rparr>)\<rparr>) PR (add_mset q QR) ER"
    by (rule inv_query_update [OF assms x]) simp_all
  from inv_query_release [OF this] show ?thesis using x by (simp add: topic_hub_count_end_def)
qed

end
