(* ===== verification/Topic_Retry_Inv.thy ===== *)
theory Topic_Retry_Inv
  imports Topic_Hub_Inv
begin

text \<open>
  The reliable send, its queue and the attach and detach of workers keep \<open>hub_inv\<close>: an
  entry on an outbound queue owns one reference to its payload and is itself held by the
  queue and, while a \<open>topic_hub_send\<close> is parked on it, by that caller.
\<close>

section \<open>Entries\<close>

lemma refs_entries:
  assumes "hub_refs w PR QR ER"
    and "rc_ok e_refs m (mset (queued w) + ER')"
    and "\<And>q. q \<in> set (queued w) \<Longrightarrow> e_payload (the (m q)) = entry_payload w q"
    and "\<And>q. w_next w' \<le> q \<Longrightarrow> m q = None" "w_next w \<le> w_next w'"
    and "w' = w\<lparr>w_entries := m, w_next := w_next w'\<rparr>"
  shows "hub_refs w' PR QR ER'"
proof -
  have f: "w_entries w' = m" "w_hub w' = w_hub w" "w_locals w' = w_locals w" "w_payloads w' = w_payloads w"
      "w_queries w' = w_queries w" "w_fault w' = w_fault w"
    by (subst assms(6), simp)+
  have q: "queued w' = queued w" by (simp add: queued_def f)
  have pm: "map (entry_payload w') (queued w) = map (entry_payload w) (queued w)"
    using assms(3) by (auto simp: f entry_payload_def)
  have "payload_owners w' = payload_owners w" "query_owners w' = query_owners w"
    by (simp_all only: payload_owners_def query_owners_def f q pm)
  then show ?thesis
    using assms(1,2,4,5) by (auto simp: hub_refs_def f q)
qed

lemma hub_wf_entries:
  assumes "hub_wf w" "\<And>p e. m p = Some e \<Longrightarrow>
      w_entries w p = Some e \<or> list_all (\<lambda>r. r_slot r < TOPIC_HUB_MAX_WORKERS) (e_pending e)"
  shows "hub_wf (w\<lparr>w_entries := m\<rparr>)"
proof -
  have "list_all (\<lambda>r. r_slot r < TOPIC_HUB_MAX_WORKERS) (e_pending e)" if "m p = Some e" for p e
    using assms(2) [OF that] hub_wfD(5) [OF assms(1)] by blast
  then show ?thesis using assms(1) by (simp add: hub_wf_def)
qed

lemma entry_live:
  assumes "hub_inv w PR QR ER" "p \<in> set (queued w) \<or> p \<in># ER"
  shows "\<exists>e. w_entries w p = Some e \<and> e_refs e = int (count (mset (queued w) + ER) p)"
  using assms entry_rc.live [of "w_entries w" "mset (queued w) + ER" p]
  by (auto simp: hub_inv_def hub_refs_def)

lemma inv_put_entry:
  assumes inv: "hub_inv w PR QR ER" and e: "w_entries w p = Some e"
    and e': "e_refs e' = e_refs e" "e_payload e' = e_payload e"
      "list_all (\<lambda>r. r_slot r < TOPIC_HUB_MAX_WORKERS) (e_pending e')"
  shows "hub_inv (put_entry w p e') PR QR ER"
proof -
  have n: "w_next w \<le> q \<Longrightarrow> w_entries w q = None" for q
    using inv by (simp add: hub_inv_def hub_refs_def)
  have "hub_refs (put_entry w p e') PR QR ER"
  proof (rule refs_entries)
    show "hub_refs w PR QR ER" using inv by (simp add: hub_inv_def)
    show "rc_ok e_refs ((w_entries w)(p \<mapsto> e')) (mset (queued w) + ER)"
      using inv e e'(1) by (auto simp: hub_inv_def hub_refs_def intro: entry_rc.update)
  qed (use e e' n in \<open>auto simp: entry_payload_def\<close>)
  moreover have "hub_wf (put_entry w p e')"
    using inv e' by (intro hub_wf_entries) (auto simp: hub_inv_def split: if_splits)
  ultimately show ?thesis by (simp add: hub_inv_def)
qed

lemma inv_entry_release:
  assumes inv: "hub_inv w PR QR (add_mset p ER)"
  shows "hub_inv (retry_entry_release w p) PR QR ER \<and>
    (\<exists>v. retry_entry_release w p = w\<lparr>w_entries := (w_entries w)(p := v)\<rparr>)"
proof -
  have rc0: "rc_ok e_refs (w_entries w) (add_mset p (mset (queued w) + ER))"
    using inv by (simp add: hub_inv_def hub_refs_def)
  from entry_rc.release [OF this] obtain e where e: "w_entries w p = Some e"
    and rc: "rc_ok e_refs (if e_refs e = 1 then (w_entries w)(p := None)
      else (w_entries w)(p \<mapsto> e\<lparr>e_refs := e_refs e - 1\<rparr>)) (mset (queued w) + ER)" by blast
  define m where "m = (if e_refs e = 1 then (w_entries w)(p := None)
      else (w_entries w)(p \<mapsto> e\<lparr>e_refs := e_refs e - 1\<rparr>))"
  have w': "retry_entry_release w p = w\<lparr>w_entries := m\<rparr>"
    by (simp add: retry_entry_release_def e m_def)
  have n: "w_next w \<le> q \<Longrightarrow> w_entries w q = None" for q
    using inv by (simp add: hub_inv_def hub_refs_def)
  have gone: "p \<notin> set (queued w)" if "e_refs e = 1"
  proof
    assume "p \<in> set (queued w)"
    then have "0 < count (mset (queued w)) p" by (simp only: count_greater_zero_iff set_mset_mset)
    moreover have "e_refs e = int (count (mset (queued w)) p) + int (count ER p) + 1"
      using entry_live [OF inv, of p] e by simp
    ultimately show False using that by linarith
  qed
  have "hub_refs (w\<lparr>w_entries := m\<rparr>) PR QR ER"
  proof (rule refs_entries)
    show "hub_refs w PR QR (add_mset p ER)" using inv by (simp add: hub_inv_def)
    show "rc_ok e_refs m (mset (queued w) + ER)" using rc by (simp only: m_def)
    show "e_payload (the (m q)) = entry_payload w q" if "q \<in> set (queued w)" for q
      using that gone e by (auto simp: m_def entry_payload_def)
    show "m q = None" if "w_next (w\<lparr>w_entries := m\<rparr>) \<le> q" for q
      using that n [of q] n [of p] e by (auto simp: m_def)
  qed simp_all
  moreover have "hub_wf (w\<lparr>w_entries := m\<rparr>)"
    using inv e hub_wfD(5) [of w p e]
    by (intro hub_wf_entries) (auto simp: hub_inv_def m_def split: if_splits)
  moreover have "\<exists>v. m = (w_entries w)(p := v)" by (auto simp: m_def)
  ultimately show ?thesis by (auto simp: w' hub_inv_def)
qed

lemma inv_entry_finish:
  assumes inv: "hub_inv w (add_mset (entry_payload w p) PR) QR (add_mset p ER)"
  shows "hub_inv (retry_entry_finish w p) PR QR ER \<and>
    w_locals (retry_entry_finish w p) = w_locals w \<and> w_hub (retry_entry_finish w p) = w_hub w \<and>
    (\<forall>q. q \<noteq> p \<longrightarrow> w_entries (retry_entry_finish w p) q = w_entries w q)"
proof -
  obtain e where e: "w_entries w p = Some e" using entry_live [OF inv, of p] by auto
  have le: "list_all (\<lambda>r. r_slot r < TOPIC_HUB_MAX_WORKERS) (e_pending e)"
    using inv e hub_wfD(5) by (auto simp: hub_inv_def)
  define w1 where "w1 = (if e_waiter e \<and> \<not> e_abandoned e
      then (put_entry w p (e\<lparr>e_waiter := False\<rparr>))\<lparr>w_fired := w_fired w @ [p]\<rparr> else w)"
  have "hub_inv (put_entry w p (e\<lparr>e_waiter := False\<rparr>)) (add_mset (entry_payload w p) PR) QR (add_mset p ER)"
    by (rule inv_put_entry [OF inv e]) (use le in simp_all)
  then have "hub_inv ((put_entry w p (e\<lparr>e_waiter := False\<rparr>))\<lparr>w_fired := w_fired w @ [p]\<rparr>)
      (add_mset (entry_payload w p) PR) QR (add_mset p ER)"
    unfolding hub_inv_def
    by (auto intro!: hub_wf_cong [of "put_entry w p (e\<lparr>e_waiter := False\<rparr>)"]
        hub_refs_cong [of "put_entry w p (e\<lparr>e_waiter := False\<rparr>)"])
  then have "hub_inv w1 (add_mset (e_payload e) PR) QR (add_mset p ER)"
    using inv e by (auto simp: w1_def entry_payload_def)
  note r = inv_payload_release [OF this]
  have fr: "w_locals w1 = w_locals w" "w_hub w1 = w_hub w" "\<And>q. q \<noteq> p \<Longrightarrow> w_entries w1 q = w_entries w q"
    by (auto simp: w1_def)
  have "retry_entry_finish w p = retry_entry_release (ws_payload_release w1 (e_payload e)) p"
    by (simp only: retry_entry_finish_def e option.case Let_def w1_def)
  then show ?thesis
    using inv_entry_release [OF r] fr by (auto simp: payload_release_frame)
qed

lemma inv_finish_all:
  assumes "hub_inv w (mset (map (entry_payload w) ps) + PR) QR (mset ps + ER)" "distinct ps"
  shows "hub_inv (fold (\<lambda>p w. retry_entry_finish w p) ps w) PR QR ER \<and>
    w_locals (fold (\<lambda>p w. retry_entry_finish w p) ps w) = w_locals w \<and>
    w_hub (fold (\<lambda>p w. retry_entry_finish w p) ps w) = w_hub w \<and>
    (\<forall>q. q \<notin> set ps \<longrightarrow> w_entries (fold (\<lambda>p w. retry_entry_finish w p) ps w) q = w_entries w q)"
  using assms
proof (induction ps arbitrary: w)
  case (Cons p ps)
  let ?w = "retry_entry_finish w p"
  have f: "hub_inv ?w (mset (map (entry_payload w) ps) + PR) QR (mset ps + ER)"
      "w_locals ?w = w_locals w" "w_hub ?w = w_hub w" "\<And>q. q \<noteq> p \<Longrightarrow> w_entries ?w q = w_entries w q"
    using inv_entry_finish [of w p "mset (map (entry_payload w) ps) + PR" QR "mset ps + ER"] Cons.prems(1)
    by auto
  have "w_entries ?w q = w_entries w q" if "q \<in> set ps" for q
    using f(4) [of q] Cons.prems(2) that by auto
  then have pm: "map (entry_payload ?w) ps = map (entry_payload w) ps"
    by (simp add: entry_payload_def)
  from f(1) have "hub_inv ?w (mset (map (entry_payload ?w) ps) + PR) QR (mset ps + ER)"
    unfolding pm .
  from Cons.IH [OF this] show ?case using f(2,3,4) Cons.prems(2) by simp
qed simp

section \<open>Queues\<close>

lemma queued_update:
  assumes "ws_local_of w th = Some l"
  obtains M where "mset (queued w) = mset (l_retry l) + M"
    and "\<And>v. mset (queued (w\<lparr>w_locals := (w_locals w)[th := v]\<rparr>)) = mset (queue_of v) + M"
proof -
  have th: "th < length (w_locals w)" "w_locals w ! th = Some l"
    using assms by (auto simp: ws_local_of_def split: if_splits)
  show thesis
    using mset_concat_update [OF th(1), of queue_of] that th(2) by (simp add: queued_def) metis
qed

lemma inv_requeue:
  assumes inv: "hub_inv w PR QR ER" and l: "ws_local_of w th = Some l"
    and v: "\<And>l'. v = Some l' \<Longrightarrow> l_slot l' < TOPIC_HUB_MAX_WORKERS"
    and e: "mset (queue_of v) + ER' = mset (l_retry l) + ER"
    and p: "mset (map (entry_payload w) (queue_of v)) + PR' = mset (map (entry_payload w) (l_retry l)) + PR"
    and d: "distinct (queued (w\<lparr>w_locals := (w_locals w)[th := v]\<rparr>))"
  shows "hub_inv (w\<lparr>w_locals := (w_locals w)[th := v]\<rparr>) PR' QR ER'" (is "hub_inv ?w _ _ _")
proof -
  obtain M where M: "mset (queued w) = mset (l_retry l) + M" "mset (queued ?w) = mset (queue_of v) + M"
    using queued_update [OF l] by metis
  have ep: "entry_payload ?w = entry_payload w" by (simp add: entry_payload_def fun_eq_iff)
  have "image_mset (entry_payload w) (mset (queued ?w)) + PR' = image_mset (entry_payload w) (mset (queued w)) + PR"
    using p M by (simp add: ac_simps)
  then have "payload_owners ?w + PR' = payload_owners w + PR"
    by (simp add: payload_owners_def ep ac_simps)
  moreover have "mset (queued ?w) + ER' = mset (queued w) + ER"
    using e M by (simp add: ac_simps)
  moreover have "query_owners ?w = query_owners w" by (simp add: query_owners_def)
  ultimately have "hub_refs ?w PR' QR ER'"
    using inv d by (simp add: hub_inv_def hub_refs_def)
  moreover have "hub_wf ?w"
    using inv v by (auto simp: hub_inv_def hub_wf_def ws_local_of_put split: if_splits)
  ultimately show ?thesis by (simp add: hub_inv_def)
qed

lemma distinct_mset_part:
  assumes "mset xs = mset ys + M" "distinct xs"
  shows "distinct ys"
proof -
  obtain zs where "M = mset zs" by (metis ex_mset)
  then have "mset xs = mset (ys @ zs)" using assms(1) by simp
  then have "distinct (ys @ zs)" using assms(2) mset_eq_imp_distinct_iff by blast
  then show ?thesis by simp
qed

lemma distinct_queue:
  assumes "hub_inv w PR QR ER" "ws_local_of w th = Some l"
  shows "distinct (l_retry l)" "set (l_retry l) \<subseteq> set (queued w)"
proof -
  obtain M where M: "mset (queued w) = mset (l_retry l) + M" using queued_update [OF assms(2)] by metis
  have "distinct (queued w)" using assms(1) by (simp add: hub_inv_def hub_refs_def)
  then show "distinct (l_retry l)" by (rule distinct_mset_part [OF M])
  show "set (l_retry l) \<subseteq> set (queued w)"
    using arg_cong [OF M, of set_mset] by auto
qed

lemma owned_payload: "p \<in> set (queued w) \<Longrightarrow> entry_payload w p \<in># payload_owners w"
  by (auto simp: payload_owners_def)

section \<open>The retry tick\<close>

definition pend :: "hub_world \<Rightarrow> ptr \<Rightarrow> nat" where
  "pend w p = length (e_pending (the (w_entries w p)))"

definition rt_inv ::
    "hub_world \<Rightarrow> retry_entry \<Rightarrow> ptr multiset \<Rightarrow> ptr multiset \<Rightarrow> ptr multiset \<Rightarrow> nat \<Rightarrow> rt_state \<Rightarrow> bool" where
  "rt_inv w e PR QR ER n s \<longleftrightarrow>
     hub_inv (rt_world s) PR QR ER \<and> w_locals (rt_world s) = w_locals w \<and>
     w_entries (rt_world s) = w_entries w \<and>
     e_refs (rt_entry s) = e_refs e \<and> e_payload (rt_entry s) = e_payload e \<and>
     list_all (\<lambda>r. r_slot r < TOPIC_HUB_MAX_WORKERS) (rt_keep s) \<and>
     rt_delivered s + rt_gone s + length (rt_keep s) = n"

lemma rt_inv_step:
  assumes inv: "rt_inv w e PR QR ER n s" and p: "p \<in> set (queued w)" "w_entries w p = Some e"
    and i: "r_slot r < TOPIC_HUB_MAX_WORKERS"
  shows "rt_inv w e PR QR ER (Suc n) (retry_target_step enq r s)"
proof (cases "h_inbox (w_hub (rt_world s)) ! r_slot r = None \<or> h_gen (w_hub (rt_world s)) ! r_slot r \<noteq> r_gen r")
  case True
  then show ?thesis using inv by (auto simp: retry_target_step_def Let_def rt_inv_def)
next
  case False
  let ?w = "rt_world s" and ?p = "e_payload (rt_entry s)"
  have q: "queued ?w = queued w" "entry_payload ?w p = e_payload e"
    using inv p by (simp_all add: rt_inv_def queued_def entry_payload_def)
  then have own: "?p \<in># payload_owners ?w + PR"
    using owned_payload [of p ?w] p inv by (simp add: rt_inv_def)
  have inv0: "hub_inv ?w PR QR ER" using inv by (simp add: rt_inv_def)
  obtain h b where hb: "topic_hub_post_locked enq (w_hub (ws_payload_retain ?w ?p)) (r_slot r)
      (Publish ?p (e_topic (rt_entry s)) (e_except (rt_entry s))) = (h, b)" by fastforce
  note k = inv_post_copy [OF inv0 own i hb] inv_payload_retain [OF inv0 own]
  show ?thesis
    using False hb k inv i
    by (cases b) (auto simp: retry_target_step_def Let_def rt_inv_def payload_release_frame)
qed

lemma rt_inv_fold:
  assumes "rt_inv w e PR QR ER n s" "p \<in> set (queued w)" "w_entries w p = Some e"
    "list_all (\<lambda>r. r_slot r < TOPIC_HUB_MAX_WORKERS) rs"
  shows "rt_inv w e PR QR ER (n + length rs) (fold (retry_target_step enq) rs s)"
  using assms(1,4)
proof (induction rs arbitrary: s n)
  case (Cons r rs)
  then have "rt_inv w e PR QR ER (Suc n) (retry_target_step enq r s)"
    using rt_inv_step [OF _ assms(2,3)] by simp
  from Cons.IH [OF this] Cons.prems(2) show ?case by simp
qed simp

text \<open>After the entries \<open>ps\<close> of a queue have been visited: each is kept or resolved, and every
  target that was pending on them is delivered, gone, expired or still pending.\<close>

definition drain_inv ::
    "hub_world \<Rightarrow> ptr multiset \<Rightarrow> ptr multiset \<Rightarrow> ptr multiset \<Rightarrow> ptr list \<Rightarrow> drain_state \<Rightarrow> bool" where
  "drain_inv w PR QR ER ps d \<longleftrightarrow>
     hub_inv (d_world d) PR QR ER \<and> w_locals (d_world d) = w_locals w \<and>
     (\<forall>q. q \<in> set (queued w) \<longrightarrow> entry_payload (d_world d) q = entry_payload w q) \<and>
     (\<forall>q. q \<notin> set ps \<longrightarrow> w_entries (d_world d) q = w_entries w q) \<and>
     mset (d_live d) + mset (d_resolved d) = mset ps \<and>
     d_delivered d + d_gone d + d_expired d + sum_list (map (pend (d_world d)) (d_live d)) =
       sum_list (map (pend w) ps)"

lemma drain_inv_step:
  assumes inv: "drain_inv w PR QR ER ps d" and p: "p \<in> set (queued w)" "p \<notin> set ps"
  shows "drain_inv w PR QR ER (ps @ [p]) (retry_entry_step enq now p d)"
proof -
  let ?w = "d_world d"
  have inv0: "hub_inv ?w PR QR ER" and q: "queued ?w = queued w" and we: "w_entries ?w p = w_entries w p"
    using inv p(2) by (simp_all add: drain_inv_def queued_def)
  obtain e where e: "w_entries ?w p = Some e" using entry_live [OF inv0, of p] p(1) q by auto
  define s where "s = fold (retry_target_step enq) (e_pending e)
      \<lparr>rt_world = ?w, rt_entry = e, rt_keep = [], rt_delivered = 0, rt_gone = 0\<rparr>"
  have slots: "list_all (\<lambda>r. r_slot r < TOPIC_HUB_MAX_WORKERS) (e_pending e)"
    using inv0 e hub_wfD(5) by (auto simp: hub_inv_def)
  have "rt_inv ?w e PR QR ER 0 \<lparr>rt_world = ?w, rt_entry = e, rt_keep = [], rt_delivered = 0, rt_gone = 0\<rparr>"
    using inv0 by (simp add: rt_inv_def)
  from rt_inv_fold [OF this _ e slots] have rt: "rt_inv ?w e PR QR ER (length (e_pending e)) s"
    using p(1) q by (simp add: s_def)
  define e' where "e' = (rt_entry s)\<lparr>e_pending := rt_keep s\<rparr>"
  define w' where "w' = put_entry (rt_world s) p e'"
  have inv': "hub_inv w' PR QR ER"
    unfolding w'_def using rt e by (intro inv_put_entry) (auto simp: rt_inv_def e'_def)
  have fr: "w_locals w' = w_locals w" "\<And>q. q \<noteq> p \<Longrightarrow> w_entries w' q = w_entries ?w q"
      "w_entries w' p = Some e'" "e_payload e' = e_payload e"
    using rt inv by (auto simp: w'_def rt_inv_def drain_inv_def e'_def)
  have pay: "entry_payload w' q = entry_payload w q" if "q \<in> set (queued w)" for q
    using inv that fr e we by (cases "q = p") (auto simp: drain_inv_def entry_payload_def)
  have live: "q \<noteq> p" if "q \<in> set (d_live d)" for q
  proof
    assume "q = p"
    moreover have "set (d_live d) \<subseteq> set ps"
      using inv arg_cong [of _ _ set_mset] by (auto simp: drain_inv_def dest!: arg_cong [of _ _ set_mset])
    ultimately show False using that p(2) by blast
  qed
  then have "map (pend w') (d_live d) = map (pend ?w) (d_live d)"
    using fr(2) by (auto simp: pend_def)
  then have sums: "sum_list (map (pend w') (d_live d)) = sum_list (map (pend ?w) (d_live d))"
    by (rule arg_cong)
  have pp: "pend w p = rt_delivered s + rt_gone s + length (rt_keep s)" "pend w' p = length (rt_keep s)"
    using rt fr(3) e [unfolded we] by (simp_all add: pend_def rt_inv_def e'_def)
  have step: "retry_entry_step enq now p d =
      (let d' = d\<lparr>d_world := w', d_delivered := d_delivered d + rt_delivered s, d_gone := d_gone d + rt_gone s\<rparr>
       in if rt_keep s = [] \<or> now \<ge> e_deadline e
          then d'\<lparr>d_resolved := p # d_resolved d,
            d_expired := d_expired d + (if rt_keep s \<noteq> [] \<and> now \<ge> e_deadline e then length (rt_keep s) else 0)\<rparr>
          else d'\<lparr>d_live := d_live d @ [p]\<rparr>)"
    using e by (auto simp: retry_entry_step_def Let_def s_def w'_def e'_def)
  show ?thesis
    unfolding step using inv inv' fr pay sums pp
    by (auto simp: drain_inv_def Let_def)
qed

lemma drain_inv_fold:
  assumes "drain_inv w PR QR ER ps d" "set qs \<subseteq> set (queued w)" "distinct (ps @ qs)"
  shows "drain_inv w PR QR ER (ps @ qs) (fold (retry_entry_step enq now) qs d)"
  using assms
proof (induction qs arbitrary: ps d)
  case (Cons q qs)
  then have "drain_inv w PR QR ER (ps @ [q]) (retry_entry_step enq now q d)"
    by (intro drain_inv_step) auto
  from Cons.IH [OF this] Cons.prems show ?case by simp
qed simp

text \<open>The counters of the reliable send, and the number of targets still parked.\<close>

definition retry_stats :: "topic_hub \<Rightarrow> u64 \<times> u64 \<times> u64 \<times> u64 \<times> u64" where
  "retry_stats h = (h_retry_queued h, h_retry_delivered h, h_retry_gone h, h_retry_expired h, h_retry_shutdown h)"

definition retry_due :: "hub_world \<Rightarrow> nat" where
  "retry_due w = sum_list (map (pend w) (queued w))"

lemma stats_upd [simp]:
  "retry_stats (h\<lparr>h_inbox := b\<rparr>) = retry_stats h" "retry_stats (h\<lparr>h_interest := i\<rparr>) = retry_stats h"
  "retry_stats (h\<lparr>h_posted := n\<rparr>) = retry_stats h" "retry_stats (h\<lparr>h_skipped := n\<rparr>) = retry_stats h"
  "retry_stats (h\<lparr>h_dropped := n\<rparr>) = retry_stats h" "retry_stats (h\<lparr>h_retry_rejected := n\<rparr>) = retry_stats h"
  "retry_stats (h\<lparr>h_taken := b'\<rparr>) = retry_stats h" "retry_stats (h\<lparr>h_gen := g\<rparr>) = retry_stats h"
  "retry_stats (h\<lparr>h_slots_used := k\<rparr>) = retry_stats h"
  by (simp_all add: retry_stats_def)

text \<open>Who holds which slot, as far as the hub's tables show.\<close>

definition slot_view :: "topic_hub \<Rightarrow> bool list \<times> u32 list \<times> bool list \<times> nat" where
  "slot_view h = (map (\<lambda>b. b \<noteq> None) (h_inbox h), h_gen h, h_taken h, h_slots_used h)"

definition hub_view :: "topic_hub \<Rightarrow> (u64 \<times> u64 \<times> u64 \<times> u64 \<times> u64) \<times> (bool list \<times> u32 list \<times> bool list \<times> nat)" where
  "hub_view h = (retry_stats h, slot_view h)"

lemma view_upd [simp]:
  "hub_view (h\<lparr>h_interest := i\<rparr>) = hub_view h" "hub_view (h\<lparr>h_posted := n\<rparr>) = hub_view h"
  "hub_view (h\<lparr>h_skipped := n\<rparr>) = hub_view h" "hub_view (h\<lparr>h_dropped := n\<rparr>) = hub_view h"
  "hub_view (h\<lparr>h_retry_rejected := n\<rparr>) = hub_view h"
  by (simp_all add: hub_view_def slot_view_def)

lemma map_update_same: "f y = f (xs ! i) \<Longrightarrow> map f (xs[i := y]) = map f xs"
  by (cases "i < length xs") (auto simp: map_update list_update_same_conv list_update_beyond)

lemma view_inbox [simp]:
  "h_inbox h ! i \<noteq> None \<Longrightarrow> hub_view (h\<lparr>h_inbox := (h_inbox h)[i := Some c]\<rparr>) = hub_view h"
  by (simp add: hub_view_def slot_view_def map_update_same)

lemma view_post:
  "topic_hub_post_locked enq h i cmd = (h', b) \<Longrightarrow> hub_view h' = hub_view h"
  by (erule post_cases) auto

lemma payload_retain_hub [simp]: "w_hub (ws_payload_retain w p) = w_hub w"
  by (simp add: ws_payload_retain_def split: option.splits)

lemma view_target_step: "hub_view (w_hub (rt_world (retry_target_step enq r s))) = hub_view (w_hub (rt_world s))"
  by (auto simp: retry_target_step_def Let_def payload_release_frame dest: view_post split: prod.splits bool.splits)

lemma view_target_fold:
  "hub_view (w_hub (rt_world (fold (retry_target_step enq) rs s))) = hub_view (w_hub (rt_world s))"
  by (induction rs arbitrary: s) (simp_all add: view_target_step)

lemma view_entry_fold:
  "hub_view (w_hub (d_world (fold (retry_entry_step enq now) ps d))) = hub_view (w_hub (d_world d))"
proof (induction ps arbitrary: d)
  case (Cons p ps)
  have "hub_view (w_hub (d_world (retry_entry_step enq now p d))) = hub_view (w_hub (d_world d))"
    by (simp add: retry_entry_step_def Let_def view_target_fold split: option.splits)
  then show ?case using Cons.IH by simp
qed simp

definition retry_balance :: "hub_world \<Rightarrow> bool" where
  "retry_balance w \<longleftrightarrow>
     h_retry_queued (w_hub w) = h_retry_delivered (w_hub w) + h_retry_gone (w_hub w)
       + h_retry_expired (w_hub w) + h_retry_shutdown (w_hub w) + of_nat (retry_due w)"

lemma due_mset: "retry_due w = sum_mset (image_mset (pend w) (mset (queued w)))"
  unfolding retry_due_def by (metis mset_map sum_mset_sum_list)

lemma due_cong:
  assumes "map queue_of (w_locals w') = map queue_of (w_locals w)" "w_entries w' = w_entries w"
  shows "retry_due w' = retry_due w"
proof -
  have "pend w' = pend w" using assms(2) by (simp add: pend_def fun_eq_iff)
  then show ?thesis using assms(1) by (simp add: retry_due_def queued_def)
qed

text \<open>Replacing one queue by a part of it, the rest being resolved.\<close>

lemma inv_shrink:
  assumes inv: "hub_inv w PR QR ER" and l: "ws_local_of w th = Some l"
    and l': "l_slot l' = l_slot l" and part: "mset (l_retry l') + mset rs = mset (l_retry l)"
  shows "hub_inv (put_local w th l') (mset (map (entry_payload w) rs) + PR) QR (mset rs + ER)"
    "mset (queued w) = mset rs + mset (queued (put_local w th l'))" "distinct rs"
    "\<And>q. q \<in> set rs \<Longrightarrow> q \<notin> set (queued (put_local w th l'))"
proof -
  let ?w = "put_local w th l'"
  obtain M where M: "mset (queued w) = mset (l_retry l) + M" "mset (queued ?w) = mset (l_retry l') + M"
    using queued_update [OF l] by (metis queue_of_def option.simps(5))
  have dq: "distinct (queued w)" using inv by (simp add: hub_inv_def hub_refs_def)
  show q: "mset (queued w) = mset rs + mset (queued ?w)"
    using M part by (simp add: union_assoc [symmetric]) (simp add: ac_simps)
  have "mset (queued w) = mset (rs @ queued ?w)" using q by simp
  then have d: "distinct (rs @ queued ?w)" using dq mset_eq_imp_distinct_iff by blast
  then show "distinct rs" "\<And>q. q \<in> set rs \<Longrightarrow> q \<notin> set (queued ?w)" by auto
  have pm: "image_mset (entry_payload w) (mset (l_retry l)) =
      image_mset (entry_payload w) (mset (l_retry l')) + image_mset (entry_payload w) (mset rs)"
    unfolding part [symmetric] by simp
  show "hub_inv ?w (mset (map (entry_payload w) rs) + PR) QR (mset rs + ER)"
    using l' hub_wfD(3) [of w th l] inv l d part
    by (intro inv_requeue [OF inv l]) (auto simp: hub_inv_def pm ac_simps simp flip: part)
qed

lemma due_shrink:
  assumes q: "mset (queued w) = mset rs + mset (queued w1)" and w2: "queued w2 = queued w1"
    and p: "\<And>q. q \<in> set (queued w1) \<Longrightarrow> w_entries w2 q = w_entries w q"
  shows "retry_due w = sum_list (map (pend w) rs) + retry_due w2"
proof -
  have "map (pend w2) (queued w1) = map (pend w) (queued w1)" using p by (auto simp: pend_def)
  then have "sum_mset (image_mset (pend w2) (mset (queued w1))) = sum_mset (image_mset (pend w) (mset (queued w1)))"
    by (metis mset_map)
  moreover have "sum_mset (image_mset (pend w) (mset rs)) = sum_list (map (pend w) rs)"
    by (metis mset_map sum_mset_sum_list)
  ultimately show ?thesis by (simp add: due_mset q w2)
qed

lemma due_rewrite:
  assumes l: "ws_local_of w th = Some l" and d: "distinct (queued w)"
    and w': "w_locals w' = w_locals w" "\<And>q. q \<notin> set (l_retry l) \<Longrightarrow> w_entries w' q = w_entries w q"
  shows "retry_due w' + sum_list (map (pend w) (l_retry l)) = retry_due w + sum_list (map (pend w') (l_retry l))"
proof -
  obtain M where M: "mset (queued w) = mset (l_retry l) + M" using queued_update [OF l] by metis
  obtain zs where zs: "M = mset zs" by (metis ex_mset)
  then have "mset (queued w) = mset (l_retry l @ zs)" using M by simp
  then have "distinct (l_retry l @ zs)" using d mset_eq_imp_distinct_iff by blast
  then have "w_entries w' q = w_entries w q" if "q \<in> set zs" for q using w'(2) [of q] that by auto
  then have "map (pend w') zs = map (pend w) zs" by (auto simp: pend_def)
  then have "image_mset (pend w') M = image_mset (pend w) M" unfolding zs by (metis mset_map)
  moreover have "queued w' = queued w" using w'(1) by (simp add: queued_def)
  moreover have "sum_mset (image_mset f (mset xs)) = sum_list (map f xs)" for f :: "ptr \<Rightarrow> nat" and xs
    by (metis mset_map sum_mset_sum_list)
  ultimately show ?thesis by (simp add: due_mset M)
qed

lemma balance_move:
  assumes "retry_balance w" "retry_due w = d + g + x + s + retry_due w'"
    "h_retry_queued (w_hub w') = h_retry_queued (w_hub w)"
    "h_retry_delivered (w_hub w') = h_retry_delivered (w_hub w) + of_nat d"
    "h_retry_gone (w_hub w') = h_retry_gone (w_hub w) + of_nat g"
    "h_retry_expired (w_hub w') = h_retry_expired (w_hub w) + of_nat x"
    "h_retry_shutdown (w_hub w') = h_retry_shutdown (w_hub w) + of_nat s"
  shows "retry_balance w'"
  using assms by (simp add: retry_balance_def)

lemma retry_drain_ok:
  assumes inv: "hub_inv w PR QR ER"
  shows "hub_inv (topic_hub_retry_drain enq now w th) PR QR ER \<and>
    (retry_balance w \<longrightarrow> retry_balance (topic_hub_retry_drain enq now w th))"
proof (cases "ws_local_of w th")
  case None
  then show ?thesis using inv by (simp add: topic_hub_retry_drain_def)
next
  case (Some l)
  define d where "d = fold (retry_entry_step enq now) (l_retry l)
      \<lparr>d_world = w, d_live = [], d_resolved = [], d_delivered = 0, d_gone = 0, d_expired = 0\<rparr>"
  let ?W = "d_world d" and ?l = "l\<lparr>l_retry := d_live d\<rparr>"
  define w1 where "w1 = put_local ?W th ?l"
  define w2 where "w2 = fold (\<lambda>p w. retry_entry_finish w p) (d_resolved d) w1"
  have "drain_inv w PR QR ER [] \<lparr>d_world = w, d_live = [], d_resolved = [], d_delivered = 0, d_gone = 0, d_expired = 0\<rparr>"
    using inv by (simp add: drain_inv_def)
  from drain_inv_fold [OF this distinct_queue(2) [OF inv Some]] distinct_queue(1) [OF inv Some]
  have dr: "drain_inv w PR QR ER (l_retry l) d" by (simp add: d_def)
  then have W: "hub_inv ?W PR QR ER" "ws_local_of ?W th = Some l" "w_locals ?W = w_locals w"
      "mset (l_retry ?l) + mset (d_resolved d) = mset (l_retry l)"
    using ws_local_of_cong [of ?W w] Some by (auto simp: drain_inv_def)
  note sh = inv_shrink [OF W(1,2) _ W(4), folded w1_def, simplified]
  have ep: "entry_payload w1 = entry_payload ?W" by (simp add: entry_payload_def fun_eq_iff w1_def)
  have fin: "hub_inv w2 PR QR ER \<and> w_locals w2 = w_locals w1 \<and> w_hub w2 = w_hub w1 \<and>
      (\<forall>q. q \<notin> set (d_resolved d) \<longrightarrow> w_entries w2 q = w_entries w1 q)"
    unfolding w2_def using sh(1,3) ep by (intro inv_finish_all) simp_all
  let ?f = "\<lambda>h. h\<lparr>h_retry_delivered := h_retry_delivered h + of_nat (d_delivered d),
      h_retry_gone := h_retry_gone h + of_nat (d_gone d),
      h_retry_expired := h_retry_expired h + of_nat (d_expired d)\<rparr>"
  have res: "topic_hub_retry_drain enq now w th = upd_hub ?f w2"
    using Some by (simp only: topic_hub_retry_drain_def option.case Let_def d_def w1_def w2_def)
  have "hub_inv (upd_hub ?f w2) PR QR ER"
    using fin by (intro inv_hub_counters) auto
  moreover have "retry_balance (upd_hub ?f w2)" if bal: "retry_balance w"
  proof -
    have "retry_due ?W = sum_list (map (pend ?W) (d_resolved d)) + retry_due w2"
      using sh(2,4) fin by (intro due_shrink [of _ _ w1]) (auto simp: queued_def w1_def)
    moreover have "retry_due ?W + sum_list (map (pend w) (l_retry l)) = retry_due w + sum_list (map (pend ?W) (l_retry l))"
      using dr inv by (intro due_rewrite [OF Some]) (auto simp: drain_inv_def hub_inv_def hub_refs_def)
    moreover have "sum_list (map (pend ?W) (l_retry l)) =
        sum_list (map (pend ?W) (d_live d)) + sum_list (map (pend ?W) (d_resolved d))"
      using arg_cong [OF W(4), of "\<lambda>M. sum_mset (image_mset (pend ?W) M)"]
      by (simp flip: mset_map add: sum_mset_sum_list)
    moreover have "d_delivered d + d_gone d + d_expired d + sum_list (map (pend ?W) (d_live d)) =
        sum_list (map (pend w) (l_retry l))" using dr by (simp add: drain_inv_def)
    ultimately have "retry_due w = d_delivered d + d_gone d + d_expired d + 0 + retry_due w2" by linarith
    moreover have "retry_stats (w_hub w2) = retry_stats (w_hub w)"
      using fin view_entry_fold [of enq now "l_retry l"] by (simp add: w1_def d_def hub_view_def)
    moreover have "retry_due (upd_hub ?f w2) = retry_due w2"
      by (rule due_cong) simp_all
    ultimately show ?thesis
      by (intro balance_move [OF bal, of "d_delivered d" "d_gone d" "d_expired d" 0]) (simp_all add: retry_stats_def)
  qed
  ultimately show ?thesis by (simp add: res)
qed

end
