(* ===== verification/Topic_Send_Inv.thy ===== *)
theory Topic_Send_Inv
  imports Topic_Retry_Inv
begin

text \<open>
  The rest of the reliable send: the tick, parking, the two calls, the teardown on
  detach, and attach.  Each keeps \<open>hub_inv\<close> and the balance of the retry counters.
\<close>

section \<open>Steps outside the retry queue\<close>

text \<open>What the balance of the counters and the assignment of slots depend on.\<close>

definition local_view :: "ws_local \<Rightarrow> nat \<times> u32 \<times> ptr list" where
  "local_view l = (l_slot l, l_gen l, l_retry l)"

definition hub_same :: "hub_world \<Rightarrow> hub_world \<Rightarrow> bool" where
  "hub_same w w' \<longleftrightarrow> map (map_option local_view) (w_locals w') = map (map_option local_view) (w_locals w) \<and>
     w_entries w' = w_entries w \<and> hub_view (w_hub w') = hub_view (w_hub w)"

lemma queue_of_view: "queue_of o' = (case map_option local_view o' of None \<Rightarrow> [] | Some (i, g, q) \<Rightarrow> q)"
  by (cases o') (simp_all add: local_view_def)

lemma queues_view:
  assumes "map (map_option local_view) ls' = map (map_option local_view) ls"
  shows "map queue_of ls' = map queue_of ls"
proof -
  have "map (\<lambda>v. case v of None \<Rightarrow> [] | Some (i, g, q) \<Rightarrow> q) (map (map_option local_view) ls') =
      map (\<lambda>v. case v of None \<Rightarrow> [] | Some (i, g, q) \<Rightarrow> q) (map (map_option local_view) ls)"
    by (simp only: assms)
  then show ?thesis by (simp add: queue_of_view [abs_def] comp_def)
qed

lemma hub_same_refl [simp]: "hub_same w w"
  by (simp add: hub_same_def)

lemma hub_same_trans: "hub_same w w' \<Longrightarrow> hub_same w' w'' \<Longrightarrow> hub_same w w''"
  by (simp add: hub_same_def)

lemma hub_same_balance: "hub_same w w' \<Longrightarrow> retry_balance w \<Longrightarrow> retry_balance w'"
  using due_cong [of w' w] queues_view [of "w_locals w'" "w_locals w"]
  by (simp add: hub_same_def retry_balance_def hub_view_def retry_stats_def)

lemma same_release [inv_intros]:
  "hub_same w0 w \<Longrightarrow> hub_same w0 (ws_payload_release w p)"
  "hub_same w0 w \<Longrightarrow> hub_same w0 (ws_payload_retain w p)"
  "hub_same w0 w \<Longrightarrow> hub_same w0 (ws_query_release w p)"
  "hub_same w0 w \<Longrightarrow> hub_same w0 (ws_query_retain w p)"
  "hub_same w0 w \<Longrightarrow> hub_same w0 (topic_hub_note_drop w)"
  "hub_same w0 w \<Longrightarrow> hub_same w0 (w\<lparr>w_fault := b\<rparr>)"
  "hub_same w0 w \<Longrightarrow> hub_same w0 (w\<lparr>w_queries := m\<rparr>)"
  "hub_same w0 w \<Longrightarrow> hub_same w0 (w\<lparr>w_next := n\<rparr>)"
  "hub_same w0 w \<Longrightarrow> hub_same w0 (w\<lparr>w_fired := fs\<rparr>)"
  "hub_same w0 w \<Longrightarrow> hub_view h = hub_view (w_hub w) \<Longrightarrow> hub_same w0 (w\<lparr>w_hub := h\<rparr>)"
  by (auto simp: hub_same_def ws_payload_release_def ws_payload_retain_def ws_query_release_def
      ws_query_retain_def topic_hub_note_drop_def split: option.splits)

lemma same_run_tree:
  assumes "ws_local_of w th = Some l"
  shows "hub_same w (fst (run_tree w th l f))"
  using assms
  by (auto simp: hub_same_def run_tree_def ws_local_of_def local_view_def map_update_same
      split: prod.splits if_splits)

lemma same_run_treeD:
  "ws_local_of w th = Some l \<Longrightarrow> run_tree w th l f = (w', r) \<Longrightarrow> hub_same w w'"
  using same_run_tree [of w th l f] by simp

lemma same_fold:
  assumes "\<And>x w. hub_same w (f x w)" shows "hub_same w (fold f xs w)"
  using assms by (induction xs arbitrary: w) (auto intro: hub_same_trans)

lemma same_answer_count: "hub_same w (topic_hub_answer_count hf enq w th q topic)"
proof -
  obtain w1 n where w1: "(case ws_local_of w th of None \<Rightarrow> (w, 0)
      | Some l \<Rightarrow> run_tree w th l (\<lambda>t. apsnd v_hits (ws_topic_count hf t topic))) = (w1, n)"
    by fastforce
  have "hub_same w w1"
    using w1 by (auto split: option.splits intro: same_run_treeD)
  then show ?thesis
    by (auto simp: topic_hub_answer_count_def w1 dest: view_post intro!: inv_intros
        split: option.splits prod.splits bool.splits if_splits)
qed

lemma same_drain_one: "hub_same w (topic_hub_drain_one hf snd_fn enq th cmd w)"
  by (auto simp: topic_hub_drain_one_def ws_query_settle_def Let_def same_answer_count same_run_tree
      intro!: inv_intros split: ws_cmd.splits option.splits)

lemma same_drain: "hub_same w (topic_hub_drain hf snd_fn enq th cmds w)"
  unfolding topic_hub_drain_def by (rule same_fold) (rule same_drain_one)

lemma same_mailbox_round: "hub_same w (mailbox_round hf snd_fn enq w th)"
  by (auto simp: mailbox_round_def split: option.splits intro!: hub_same_trans [OF _ same_drain] inv_intros)

lemma same_fanout_slot:
  "hub_same (f_world s) (f_world (fanout_slot enq own topic data binary e interest reliable i s))"
  by (auto simp: fanout_slot_def Let_def ws_payload_new_def hub_same_def[of _ "_\<lparr>w_payloads := _\<rparr>"]
      dest: view_post intro!: inv_intros split: option.splits prod.splits bool.splits)

lemma same_fanout_fold:
  "hub_same (f_world s) (f_world (fold (fanout_slot enq own topic data binary e interest reliable) is s))"
  by (induction "is" arbitrary: s) (auto intro: hub_same_trans [OF same_fanout_slot])

lemma same_fanout: "hub_same w (f_world (topic_hub_fanout_locked enq w own topic data binary e interest reliable))"
  unfolding topic_hub_fanout_locked_def
  by (rule hub_same_trans [OF _ same_fanout_fold]) simp

lemma same_publish_local: "hub_same w (fst (publish_local hf snd_fn w th topic e))"
  by (auto simp: publish_local_def same_run_tree split: option.splits)

lemma same_release_base [inv_intros]: "hub_same w0 w \<Longrightarrow> hub_same w0 (release_base w o')"
  by (auto simp: release_base_def intro: inv_intros split: option.splits)

lemma same_publish: "hub_same w (fst (topic_hub_publish hf snd_fn enq w th topic data binary e))"
proof -
  obtain w1 n where w1: "publish_local hf snd_fn w th topic e = (w1, n)" by fastforce
  have "hub_same w w1" using same_publish_local [of w hf snd_fn th topic e] w1 by simp
  then show ?thesis
    by (auto simp: topic_hub_publish_def w1 Let_def intro!: inv_intros hub_same_trans [OF _ same_fanout])
qed

lemma same_send_fanout: "hub_same w (f_world (topic_hub_send_fanout hf snd_fn enq w th topic data binary e))"
proof -
  obtain w1 n where w1: "publish_local hf snd_fn w th topic e = (w1, n)" by fastforce
  have "hub_same w w1" using same_publish_local [of w hf snd_fn th topic e] w1 by simp
  then show ?thesis
    by (auto simp: topic_hub_send_fanout_def w1 Let_def intro!: inv_intros hub_same_trans [OF _ same_fanout])
qed

lemma same_ask_slot: "hub_same w (ask_slot enq own q topic interest i w)"
  by (auto simp: ask_slot_def Let_def ws_query_retain_def ws_query_unref_def dest!: view_post intro!: inv_intros
      split: option.splits prod.splits bool.splits)

lemma same_ask_others: "hub_same w (topic_hub_ask_others hf enq w own q topic)"
  unfolding topic_hub_ask_others_def by (rule same_fold) (rule same_ask_slot)

lemma same_count_begin: "hub_same w (fst (topic_hub_count_begin hf enq park w th topic))"
  by (auto simp: topic_hub_count_begin_def Let_def split: option.splits prod.splits
      intro!: hub_same_trans [OF _ same_ask_others] inv_intros intro: same_run_treeD)

lemma same_count_end: "hub_same w (fst (topic_hub_count_end w q))"
  by (auto simp: topic_hub_count_end_def intro!: inv_intros split: option.splits)

section \<open>The tick and the teardown\<close>

lemma put_local_same:
  assumes inv: "hub_inv w PR QR ER" and l: "ws_local_of w th = Some l" and l': "local_view l' = local_view l"
  shows "hub_inv (put_local w th l') PR QR ER" "hub_same w (put_local w th l')"
proof -
  show "hub_inv (put_local w th l') PR QR ER"
    using inv_shrink(1) [OF inv l, of l' "[]"] l' by (simp add: local_view_def)
  show "hub_same w (put_local w th l')"
    using l l' by (auto simp: hub_same_def ws_local_of_def map_update_same split: if_splits)
qed

lemma retry_tick_ok:
  assumes inv: "hub_inv w PR QR ER"
  shows "hub_inv (topic_hub_retry_tick exc enq now w th) PR QR ER \<and>
    (retry_balance w \<longrightarrow> retry_balance (topic_hub_retry_tick exc enq now w th))"
proof -
  note d = retry_drain_ok [OF inv, of enq now th]
  have "local_view (l\<lparr>l_armed := False\<rparr>) = local_view l" for l by (simp add: local_view_def)
  then show ?thesis
    using inv d put_local_same [of "topic_hub_retry_drain enq now w th" PR QR ER th]
    by (auto simp: topic_hub_retry_tick_def Let_def split: option.splits) (metis hub_same_balance)
qed

lemma inv_teardown_entry:
  assumes "hub_inv w (add_mset (entry_payload w p) PR) QR (add_mset p ER)"
  shows "hub_inv (fst (teardown_entry p (w, n))) PR QR ER \<and>
    w_locals (fst (teardown_entry p (w, n))) = w_locals w \<and> w_hub (fst (teardown_entry p (w, n))) = w_hub w \<and>
    (\<forall>q. q \<noteq> p \<longrightarrow> w_entries (fst (teardown_entry p (w, n))) q = w_entries w q) \<and>
    snd (teardown_entry p (w, n)) = n + pend w p"
proof -
  obtain e where e: "w_entries w p = Some e" using entry_live [OF assms, of p] by auto
  let ?w = "put_entry w p (e\<lparr>e_shutdown := True\<rparr>)"
  have le: "list_all (\<lambda>r. r_slot r < TOPIC_HUB_MAX_WORKERS) (e_pending e)"
    using assms e hub_wfD(5) by (auto simp: hub_inv_def)
  have "entry_payload ?w p = entry_payload w p" using e by (simp add: entry_payload_def)
  moreover have "hub_inv ?w (add_mset (entry_payload w p) PR) QR (add_mset p ER)"
    by (rule inv_put_entry [OF assms e]) (use le in simp_all)
  ultimately show ?thesis
    using inv_entry_finish [of ?w p PR QR ER] e by (simp add: teardown_entry_def pend_def)
qed

lemma inv_teardown_all:
  assumes "hub_inv w (mset (map (entry_payload w) ps) + PR) QR (mset ps + ER)" "distinct ps"
    and "fold teardown_entry ps (w, n) = (w', n')"
  shows "hub_inv w' PR QR ER \<and> w_locals w' = w_locals w \<and> w_hub w' = w_hub w \<and>
    (\<forall>q. q \<notin> set ps \<longrightarrow> w_entries w' q = w_entries w q) \<and> n' = n + sum_list (map (pend w) ps)"
  using assms
proof (induction ps arbitrary: w n)
  case (Cons p ps)
  obtain w1 n1 where w1: "teardown_entry p (w, n) = (w1, n1)" by fastforce
  have f: "hub_inv w1 (mset (map (entry_payload w) ps) + PR) QR (mset ps + ER)"
      "w_locals w1 = w_locals w" "w_hub w1 = w_hub w" "\<And>q. q \<noteq> p \<Longrightarrow> w_entries w1 q = w_entries w q"
      "n1 = n + pend w p"
    using inv_teardown_entry [of w p "mset (map (entry_payload w) ps) + PR" QR "mset ps + ER" n] Cons.prems(1) w1
    by auto
  have "w_entries w1 q = w_entries w q" if "q \<in> set ps" for q
    using f(4) [of q] Cons.prems(2) that by auto
  then have pm: "map (entry_payload w1) ps = map (entry_payload w) ps" "map (pend w1) ps = map (pend w) ps"
    by (simp_all add: entry_payload_def pend_def)
  from f(1) have "hub_inv w1 (mset (map (entry_payload w1) ps) + PR) QR (mset ps + ER)"
    unfolding pm .
  from Cons.IH [OF this, of n1] Cons.prems(2,3) w1 pm(2)
  have "hub_inv w' PR QR ER \<and> w_locals w' = w_locals w1 \<and> w_hub w' = w_hub w1 \<and>
    (\<forall>q. q \<notin> set ps \<longrightarrow> w_entries w' q = w_entries w1 q) \<and> n' = n1 + sum_list (map (pend w) ps)"
    by simp
  then show ?case using f(2-5) by simp
qed simp

lemma finish_frame [simp]:
  "w_hub (retry_entry_finish w p) = w_hub w" "w_locals (retry_entry_finish w p) = w_locals w"
  by (simp_all add: retry_entry_finish_def retry_entry_release_def payload_release_frame Let_def split: option.splits)

lemma teardown_frame:
  "w_locals (fst (fold teardown_entry ps s)) = w_locals (fst s) \<and> w_hub (fst (fold teardown_entry ps s)) = w_hub (fst s)"
  by (induction ps arbitrary: s) (auto simp: teardown_entry_def split: option.splits prod.splits)

text \<open>The queue may be cut loose before its entries are finished: they do not look at it.\<close>

lemma release_locals:
  "ws_payload_release (w\<lparr>w_locals := ls\<rparr>) p = (ws_payload_release w p)\<lparr>w_locals := ls\<rparr>"
  "retry_entry_release (w\<lparr>w_locals := ls\<rparr>) p = (retry_entry_release w p)\<lparr>w_locals := ls\<rparr>"
  by (simp_all add: retry_entry_release_def ws_payload_release_def split: option.splits)

lemma locals_last:
  "(w :: hub_world)\<lparr>w_locals := ls, w_entries := m\<rparr> = w\<lparr>w_entries := m, w_locals := ls\<rparr>"
  "(w :: hub_world)\<lparr>w_locals := ls, w_fired := fs\<rparr> = w\<lparr>w_fired := fs, w_locals := ls\<rparr>"
  by simp_all

lemma finish_locals:
  assumes "w_entries w p = Some e"
  shows "retry_entry_finish (w\<lparr>w_locals := ls\<rparr>) p = (retry_entry_finish w p)\<lparr>w_locals := ls\<rparr>"
  using assms by (simp add: retry_entry_finish_def Let_def locals_last release_locals)

lemma teardown_locals:
  "teardown_entry p (w\<lparr>w_locals := ls\<rparr>, n) = apfst (\<lambda>w. w\<lparr>w_locals := ls\<rparr>) (teardown_entry p (w, n))"
proof (cases "w_entries w p")
  case (Some e)
  then show ?thesis
    using finish_locals [of "put_entry w p (e\<lparr>e_shutdown := True\<rparr>)" p _ ls] by (simp add: teardown_entry_def locals_last)
qed (simp add: teardown_entry_def)

lemma teardown_fold_locals:
  "fold teardown_entry ps (w\<lparr>w_locals := ls\<rparr>, n) = apfst (\<lambda>w. w\<lparr>w_locals := ls\<rparr>) (fold teardown_entry ps (w, n))"
proof (induction ps arbitrary: w n)
  case (Cons p ps)
  obtain w1 n1 where "teardown_entry p (w, n) = (w1, n1)" by fastforce
  then show ?case using Cons.IH by (simp add: teardown_locals)
qed simp

lemma retry_teardown_ok:
  assumes inv: "hub_inv w PR QR ER" and l: "ws_local_of w th = Some l"
  defines "w' \<equiv> topic_hub_retry_teardown w th l"
  shows "hub_inv w' PR QR ER" "retry_balance w \<Longrightarrow> retry_balance w'"
    "ws_local_of w' th = Some ((topic_hub_retry_timer_dispose l)\<lparr>l_retry := [], l_interval := 0\<rparr>)"
    "w_locals w' = (w_locals w)[th := Some ((topic_hub_retry_timer_dispose l)\<lparr>l_retry := [], l_interval := 0\<rparr>)]"
    "slot_view (w_hub w') = slot_view (w_hub w)" "h_inbox (w_hub w') = h_inbox (w_hub w)"
proof -
  let ?l = "(topic_hub_retry_timer_dispose l)\<lparr>l_retry := [], l_interval := 0\<rparr>"
  define w0 where "w0 = put_local w th ?l"
  obtain w1 lost where w1: "fold teardown_entry (l_retry l) (w0, 0) = (w1, lost)" by fastforce
  have "w0 = w\<lparr>w_locals := (w_locals w)[th := Some ?l]\<rparr>" by (simp add: w0_def)
  from w1 [unfolded this teardown_fold_locals] obtain w2 where w2: "fold teardown_entry (l_retry l) (w, 0) = (w2, lost)"
      "w1 = w2\<lparr>w_locals := (w_locals w)[th := Some ?l]\<rparr>"
    by (cases "fold teardown_entry (l_retry l) (w, 0)") auto
  have wl: "w_locals w2 = w_locals w" "w_hub w2 = w_hub w"
    using teardown_frame [of "l_retry l" "(w, 0)"] w2(1) by simp_all
  note sh = inv_shrink [OF inv l, of ?l "l_retry l", folded w0_def, simplified]
  have lv: "l_slot ?l = l_slot l" by (simp add: topic_hub_retry_timer_dispose_def)
  have "entry_payload w0 = entry_payload w" "pend w0 = pend w"
    by (simp_all add: entry_payload_def pend_def fun_eq_iff w0_def)
  then have t: "hub_inv w1 PR QR ER \<and> w_locals w1 = w_locals w0 \<and> w_hub w1 = w_hub w0 \<and>
      (\<forall>q. q \<notin> set (l_retry l) \<longrightarrow> w_entries w1 q = w_entries w0 q) \<and> lost = sum_list (map (pend w) (l_retry l))"
    using inv_teardown_all [of w0 "l_retry l" PR QR ER 0 w1 lost] w1 sh(1,3) lv by simp
  let ?f = "\<lambda>h. h\<lparr>h_retry_shutdown := h_retry_shutdown h + of_nat lost\<rparr>"
  have w': "w' = upd_hub ?f w1"
    by (simp add: w'_def topic_hub_retry_teardown_def w2 wl)
  show "hub_inv w' PR QR ER" unfolding w' using t by (intro inv_hub_counters) auto
  show "w_locals w' = (w_locals w)[th := Some ?l]" by (simp add: w' w2(2))
  moreover have "th < length (w_locals w)" using l by (simp add: ws_local_of_def split: if_splits)
  ultimately show "ws_local_of w' th = Some ?l" by (simp add: ws_local_of_def)
  show "slot_view (w_hub w') = slot_view (w_hub w)" "h_inbox (w_hub w') = h_inbox (w_hub w)"
    using t by (simp_all add: w' w0_def slot_view_def)
  have "retry_due w = sum_list (map (pend w) (l_retry l)) + retry_due w1"
    using sh(2,4) lv t by (intro due_shrink [of _ _ w0]) (auto simp: queued_def w0_def)
  moreover have "retry_due w' = retry_due w1" unfolding w' by (rule due_cong) simp_all
  ultimately show "retry_balance w'" if "retry_balance w"
    using t by (intro balance_move [OF that, of 0 0 0 lost]) (simp_all add: w' w0_def)
qed

end
