(* ===== verification/Topic_Park_Inv.thy ===== *)
theory Topic_Park_Inv
  imports Topic_Send_Inv
begin

text \<open>
  Parking the full targets of a send, the two sending calls, and the attach and detach of
  workers keep \<open>hub_inv\<close> and the balance of the retry counters.
\<close>

section \<open>Parking\<close>

lemma inv_fresh:
  assumes "hub_inv w PR QR ER"
  shows "w_entries w (w_next w) = None" "w_next w \<notin> set (queued w)" "w_next w \<notin># ER"
proof -
  show n: "w_entries w (w_next w) = None" using assms by (simp add: hub_inv_def hub_refs_def)
  then show "w_next w \<notin> set (queued w)" "w_next w \<notin># ER"
    using entry_live [OF assms, of "w_next w"] by auto
qed

lemma inv_entry_new:
  assumes inv: "hub_inv w PR QR ER" and t: "list_all (\<lambda>r. r_slot r < TOPIC_HUB_MAX_WORKERS) targets"
    and new: "retry_entry_new w topic pay e deadline targets waiter = (w', a)"
  shows "hub_inv w' PR QR (replicate_mset (if waiter then 2 else 1) a + ER)"
    "a = w_next w" "w_locals w' = w_locals w" "w_hub w' = w_hub w"
    "entry_payload w' a = pay" "pend w' a = length targets"
    "\<And>q. q \<noteq> a \<Longrightarrow> w_entries w' q = w_entries w q"
proof -
  note fr = inv_fresh [OF inv]
  let ?k = "if waiter then 2 else 1"
  have rc: "rc_ok e_refs (w_entries w) (mset (queued w) + ER)" and nx: "\<And>q. w_next w \<le> q \<Longrightarrow> w_entries w q = None"
    and r: "hub_refs w PR QR ER" and wf: "hub_wf w"
    using inv by (simp_all add: hub_inv_def hub_refs_def)
  define x where "x = \<lparr>e_refs = (if waiter then 2 else 1), e_abandoned = False, e_shutdown = False, e_payload = pay,
      e_pending = targets, e_delivered = 0, e_gone = 0, e_except = e, e_deadline = deadline,
      e_waiter = waiter, e_topic = topic\<rparr>"
  have x1: "w' = put_entry (w\<lparr>w_next := w_next w + 1\<rparr>) (w_next w) x" and x2: "a = w_next w"
    using new [symmetric] by (simp_all only: retry_entry_new_def x_def prod.inject)
  have x3: "e_refs x = int ?k" "e_payload x = pay" "e_pending x = targets"
    by (simp_all add: x_def)
  show "a = w_next w" by (fact x2)
  show "w_locals w' = w_locals w" "w_hub w' = w_hub w" "entry_payload w' a = pay"
      "pend w' a = length targets" "\<And>q. q \<noteq> a \<Longrightarrow> w_entries w' q = w_entries w q"
    by (simp_all add: x1 x2 x3 entry_payload_def pend_def)
  have "rc_ok e_refs ((w_entries w)(a \<mapsto> x)) (replicate_mset ?k a + (mset (queued w) + ER))"
    by (rule entry_rc.new_shared [OF rc]) (simp_all add: fr(1) x2 x3)
  then have rc': "rc_ok e_refs ((w_entries w)(a \<mapsto> x)) (mset (queued w) + (replicate_mset ?k a + ER))"
    by (simp only: ac_simps)
  have "hub_refs w' PR QR (replicate_mset ?k a + ER)"
  proof (rule refs_entries [OF r rc'])
    show "e_payload (the (((w_entries w)(a \<mapsto> x)) q)) = entry_payload w q" if "q \<in> set (queued w)" for q
      using that fr(2) by (auto simp: entry_payload_def x2)
    show "((w_entries w)(a \<mapsto> x)) q = None" if "w_next w' \<le> q" for q
      using that nx [of q] by (simp add: x1 x2)
  qed (simp_all add: x1 x2)
  moreover have "hub_wf w'"
  proof (rule hub_wf_cong)
    show "hub_wf (w\<lparr>w_entries := (w_entries w)(w_next w \<mapsto> x)\<rparr>)"
      using wf t x3(3) by (intro hub_wf_entries) (auto split: if_splits)
  qed (simp_all add: x1)
  ultimately show "hub_inv w' PR QR (replicate_mset ?k a + ER)" by (simp add: hub_inv_def)
qed

lemma retry_arm_same:
  "topic_hub_retry_arm c s l = (l', b) \<Longrightarrow> l_slot l' = l_slot l \<and> l_gen l' = l_gen l \<and> l_retry l' = l_retry l"
  by (simp only: topic_hub_retry_arm_def Let_def) (simp split: if_split_asm; elim conjE; hypsubst; simp)

lemma retry_enqueue_cases:
  assumes "topic_hub_retry_enqueue c s l p interval = (l', b)"
  shows "l_slot l' = l_slot l" "l_gen l' = l_gen l" "l_retry l' = (if b then l_retry l @ [p] else l_retry l)"
proof -
  define l1 where "l1 = l\<lparr>l_retry := l_retry l @ [p],
      l_interval := (if l_interval l = 0 then (if interval \<noteq> 0 then interval else 50) else l_interval l)\<rparr>"
  obtain l2 b2 where arm: "topic_hub_retry_arm c s l1 = (l2, b2)" by fastforce
  have f: "l_slot l2 = l_slot l" "l_gen l2 = l_gen l" "l_retry l2 = l_retry l @ [p]"
    using retry_arm_same [OF arm] by (simp_all add: l1_def)
  have "(l', b) = (if b2 then (l2, True) else (l2\<lparr>l_retry := butlast (l_retry l2), l_interval := l_interval l\<rparr>, False))"
    using assms unfolding topic_hub_retry_enqueue_def Let_def l1_def [symmetric] arm by (cases b2) simp_all
  then show "l_slot l' = l_slot l" "l_gen l' = l_gen l" "l_retry l' = (if b then l_retry l @ [p] else l_retry l)"
    using f by (cases b2; simp)+
qed

lemma inv_entry_discard:
  assumes inv: "hub_inv w (add_mset (entry_payload w p) PR) QR (replicate_mset k p + ER)"
    and p: "p \<notin> set (queued w)" "p \<notin># ER" "0 < k"
  shows "hub_inv (retry_entry_discard w p) PR QR ER \<and> w_locals (retry_entry_discard w p) = w_locals w \<and>
    w_hub (retry_entry_discard w p) = w_hub w \<and>
    w_entries (retry_entry_discard w p) = (w_entries w)(p := None)"
proof -
  obtain e where e: "w_entries w p = Some e" using entry_live [OF inv, of p] p(3) by auto
  let ?w = "ws_payload_release w (e_payload e)"
  have r: "hub_inv ?w PR QR (replicate_mset k p + ER)"
    using inv e by (intro inv_payload_release) (simp add: entry_payload_def)
  have q: "queued ?w = queued w" by (simp add: queued_def payload_release_frame)
  have "rc_ok e_refs (w_entries ?w) (replicate_mset k p + (mset (queued ?w) + ER))"
    using r by (simp add: hub_inv_def hub_refs_def ac_simps)
  then have "rc_ok e_refs ((w_entries ?w)(p := None)) (mset (queued ?w) + ER)"
    using p q by (intro entry_rc.drop_all) auto
  then have "hub_refs (?w\<lparr>w_entries := (w_entries ?w)(p := None)\<rparr>) PR QR ER"
  proof (rule refs_entries [rotated])
    show "hub_refs ?w PR QR (replicate_mset k p + ER)" using r by (simp add: hub_inv_def)
    show "e_payload (the (((w_entries ?w)(p := None)) b)) = entry_payload ?w b" if "b \<in> set (queued ?w)" for b
      using that p(1) q by (auto simp: entry_payload_def)
    show "((w_entries ?w)(p := None)) b = None" if "w_next (?w\<lparr>w_entries := (w_entries ?w)(p := None)\<rparr>) \<le> b" for b
      using that r by (simp add: hub_inv_def hub_refs_def)
  qed simp_all
  moreover have "hub_wf (?w\<lparr>w_entries := (w_entries ?w)(p := None)\<rparr>)"
    using r by (intro hub_wf_entries) (auto simp: hub_inv_def split: if_splits)
  ultimately show ?thesis
    by (simp add: retry_entry_discard_def e Let_def hub_inv_def payload_release_frame)
qed

text \<open>A fan-out with full targets, parked or refused.\<close>

lemma due_append:
  assumes l: "ws_local_of w th = Some l" and q: "l_retry l' = l_retry l @ [a]"
  shows "retry_due (put_local w th l') = retry_due w + pend w a"
    "mset (queued (put_local w th l')) = add_mset a (mset (queued w))"
proof -
  obtain M where M: "mset (queued w) = mset (l_retry l) + M" "mset (queued (put_local w th l')) = mset (l_retry l') + M"
    using queued_update [OF l] by (metis queue_of_def option.simps(5))
  then show m: "mset (queued (put_local w th l')) = add_mset a (mset (queued w))" by (simp add: q)
  have "pend (put_local w th l') = pend w" by (simp add: pend_def fun_eq_iff)
  then show "retry_due (put_local w th l') = retry_due w + pend w a" by (simp add: due_mset m)
qed

lemma due_off_queue:
  assumes "map queue_of (w_locals w') = map queue_of (w_locals w)"
    "\<And>q. q \<noteq> a \<Longrightarrow> w_entries w' q = w_entries w q" "a \<notin> set (queued w)"
  shows "retry_due w' = retry_due w"
proof -
  have q: "queued w' = queued w" by (simp add: queued_def assms(1))
  have "pend w' x = pend w x" if "x \<in> set (queued w)" for x
    using assms(2) [of x] assms(3) that by (cases "x = a") (auto simp: pend_def)
  then have "map (pend w') (queued w) = map (pend w) (queued w)" by simp
  then show ?thesis unfolding retry_due_def q by (rule arg_cong)
qed

lemma park_entry_ok:
  assumes inv: "hub_inv (f_world f) (add_mset (the (f_payload f)) PR) QR ER"
    and t: "list_all (\<lambda>r. r_slot r < TOPIC_HUB_MAX_WORKERS) (f_full f)"
    and l: "ws_local_of (f_world f) th = Some l"
    and res: "park_entry c s f th l topic e deadline interval waiter = (w', o')"
  shows "hub_inv w' PR QR ((case o' of Some p \<Rightarrow> if waiter then {#p#} else {#} | None \<Rightarrow> {#}) + ER) \<and>
    (retry_balance (f_world f) \<longrightarrow> retry_balance w')"
proof -
  let ?w = "f_world f" and ?pay = "the (f_payload f)" and ?k = "if waiter then 2 else (1 :: nat)"
  obtain w1 a where new: "retry_entry_new ?w topic ?pay e deadline (f_full f) waiter = (w1, a)" by fastforce
  obtain l' b where enq: "topic_hub_retry_enqueue c s l a interval = (l', b)" by fastforce
  note n = inv_entry_new [OF inv t new] and q = retry_enqueue_cases [OF enq] and fr = inv_fresh [OF inv]
  have l1: "ws_local_of w1 th = Some l" using l n(3) ws_local_of_cong by metis
  have queue: "queued w1 = queued ?w" by (simp add: queued_def n(3))
  have aq: "a \<notin> set (queued w1)" using fr(2) n(2) queue by simp
  have due: "retry_due w1 = retry_due ?w"
    by (rule due_off_queue) (use n(3,7) aq queue in simp_all)
  show ?thesis
  proof (cases b)
    case True
    let ?w2 = "put_local w1 th l'"
    have r: "w' = upd_hub (\<lambda>h. h\<lparr>h_retry_queued := h_retry_queued h + of_nat (length (f_full f))\<rparr>) ?w2" "o' = Some a"
      using res True by (simp_all add: park_entry_def new enq)
    note ap = due_append [OF l1, of l' a]
    have lr: "l_retry l' = l_retry l @ [a]" using q(3) True by simp
    have "distinct (a # queued w1)" using n(1) aq by (simp add: hub_inv_def hub_refs_def)
    moreover have "mset (queued ?w2) = mset (a # queued w1)" using ap(2) lr by simp
    ultimately have d: "distinct (queued ?w2)" using mset_eq_imp_distinct_iff by blast
    have "hub_inv ?w2 PR QR ((if waiter then {#a#} else {#}) + ER)"
      using q(1) hub_wfD(3) [of w1 th l] n(1) l1 lr
      by (intro inv_requeue [OF n(1) l1 _ _ _ d]) (auto simp: hub_inv_def n(5) ac_simps numeral_2_eq_2)
    then have "hub_inv w' PR QR ((if waiter then {#a#} else {#}) + ER)"
      unfolding r(1) by (rule inv_hub_counters) simp_all
    moreover have "retry_due w' = retry_due ?w2" unfolding r(1) by (rule due_cong) simp_all
    then have "retry_due w' = retry_due ?w + length (f_full f)" using ap(1) lr due n(6) by simp
    moreover have "h_retry_queued (w_hub w') = h_retry_queued (w_hub ?w) + of_nat (length (f_full f))"
        "h_retry_delivered (w_hub w') = h_retry_delivered (w_hub ?w)" "h_retry_gone (w_hub w') = h_retry_gone (w_hub ?w)"
        "h_retry_expired (w_hub w') = h_retry_expired (w_hub ?w)"
        "h_retry_shutdown (w_hub w') = h_retry_shutdown (w_hub ?w)"
      by (simp_all add: r(1) n(4))
    ultimately show ?thesis by (simp add: r(2) retry_balance_def)
  next
    case False
    let ?w2 = "put_local w1 th l'"
    have lv: "local_view l' = local_view l" using q False by (simp add: local_view_def)
    note pl = put_local_same [OF n(1) l1 lv]
    define w3 where "w3 = retry_entry_discard ?w2 a"
    have r: "w' = note_rejected w3" "o' = None"
      using res False by (simp_all add: park_entry_def new enq w3_def)
    have ep: "entry_payload ?w2 a = ?pay" using n(5) by (simp add: entry_payload_def)
    have same: "map queue_of (w_locals ?w2) = map queue_of (w_locals w1)"
      using pl(2) by (intro queues_view) (simp only: hub_same_def)
    then have q2: "queued ?w2 = queued w1" by (simp add: queued_def)
    have "a \<notin># ER" "0 < ?k" using fr(3) n(2) by simp_all
    from inv_entry_discard [OF pl(1) [folded ep] _ this, folded w3_def] aq q2
    have dis: "hub_inv w3 PR QR ER" "w_locals w3 = w_locals ?w2" "w_hub w3 = w_hub w1"
        "w_entries w3 = (w_entries w1)(a := None)" by simp_all
    have "hub_inv w' PR QR ER"
      unfolding r note_rejected_def by (rule inv_hub_counters [OF dis(1)]) simp_all
    moreover have "retry_due w' = retry_due w1"
      by (rule due_off_queue [OF _ _ aq]) (use dis same in \<open>simp_all add: r note_rejected_def\<close>)
    moreover have "retry_stats (w_hub w') = retry_stats (w_hub ?w)"
      by (simp add: r note_rejected_def dis(3) n(4))
    ultimately show ?thesis
      using due by (simp add: r(2) retry_balance_def retry_stats_def)
  qed
qed

section \<open>The sending calls\<close>

lemma send_fanout_ok:
  assumes inv: "hub_inv w PR QR ER" and fd: "f = topic_hub_send_fanout hf snd_fn enq w th topic data binary e"
  shows "hub_inv (f_world f) (base_ref (f_payload f) + PR) QR ER"
    "list_all (\<lambda>r. r_slot r < TOPIC_HUB_MAX_WORKERS) (f_full f)" "f_full f \<noteq> [] \<Longrightarrow> f_payload f \<noteq> None"
proof -
  define w1 where "w1 = fst (publish_local hf snd_fn w th topic e)"
  define g where "g = topic_hub_fanout_locked enq w1 (map_option l_slot (ws_local_of w1 th)) topic data binary
      e (ws_interest_build hf topic) True"
  have "hub_inv w1 PR QR ER" unfolding w1_def by (rule inv_publish_local [OF inv])
  then have g: "fan_inv w1 PR QR ER g" unfolding g_def by (rule fan_inv_fanout)
  have f: "f = g\<lparr>f_world := upd_hub (\<lambda>h. h\<lparr>h_posted := h_posted h + of_nat (f_posted g),
      h_skipped := h_skipped h + of_nat (f_skipped g)\<rparr>) (f_world g)\<rparr>"
    by (simp only: fd topic_hub_send_fanout_def Let_def g_def w1_def)
  have "hub_inv (f_world f) (base_ref (f_payload g) + PR) QR ER"
    unfolding f using g by (simp, intro inv_hub_counters) (auto simp: fan_inv_def)
  then show "hub_inv (f_world f) (base_ref (f_payload f) + PR) QR ER" by (simp add: f)
  show "list_all (\<lambda>r. r_slot r < TOPIC_HUB_MAX_WORKERS) (f_full f)" "f_full f \<noteq> [] \<Longrightarrow> f_payload f \<noteq> None"
    using g by (auto simp: f fan_inv_def)
qed

lemma inv_note_rejected: "hub_inv w PR QR ER \<Longrightarrow> hub_inv (note_rejected w) PR QR ER"
  unfolding note_rejected_def by (erule inv_hub_counters) simp_all

lemma same_note_rejected [inv_intros]: "hub_same w0 w \<Longrightarrow> hub_same w0 (note_rejected w)"
  unfolding note_rejected_def by (erule same_release(10)) simp

lemma send_refused:
  assumes "hub_inv w PR QR ER" "f = topic_hub_send_fanout hf snd_fn enq w th topic data binary e"
  shows "hub_inv (release_base (f_world f) (f_payload f)) PR QR ER"
    "hub_inv (note_rejected (release_base (f_world f) (f_payload f))) PR QR ER"
    "retry_balance w \<Longrightarrow> retry_balance (release_base (f_world f) (f_payload f))"
    "retry_balance w \<Longrightarrow> retry_balance (note_rejected (release_base (f_world f) (f_payload f)))"
  using send_fanout_ok(1) [OF assms] same_send_fanout [of w hf snd_fn enq th topic data binary e]
  unfolding assms(2) [symmetric]
  by (auto intro: inv_release_base inv_note_rejected intro!: inv_intros elim!: hub_same_balance [rotated])

lemma send_parked:
  assumes inv: "hub_inv w PR QR ER" and f: "f = topic_hub_send_fanout hf snd_fn enq w th topic data binary e"
    and n: "f_full f \<noteq> []" and l: "ws_local_of (f_world f) th = Some l"
    and res: "park_entry c s f th l topic e deadline interval waiter = (w', o')"
  shows "hub_inv w' PR QR ((case o' of Some p \<Rightarrow> if waiter then {#p#} else {#} | None \<Rightarrow> {#}) + ER) \<and>
    (retry_balance w \<longrightarrow> retry_balance w')"
proof -
  obtain p where p: "f_payload f = Some p" using send_fanout_ok(3) [OF inv f] n by blast
  have "retry_balance (f_world f)" if "retry_balance w"
    using that same_send_fanout hub_same_balance unfolding f by blast
  moreover have "hub_inv (f_world f) (add_mset (the (f_payload f)) PR) QR ER"
    using send_fanout_ok(1) [OF inv f] p by (simp add: base_ref_def)
  ultimately show ?thesis
    using park_entry_ok [OF _ _ l res] send_fanout_ok(2) [OF inv f] by blast
qed

lemma try_send_ok:
  assumes inv: "hub_inv w PR QR ER"
    and res: "topic_hub_try_send hf snd_fn enq c s now w th topic data binary e timeout interval qmax = (w', b)"
  shows "hub_inv w' PR QR ER \<and> (retry_balance w \<longrightarrow> retry_balance w')"
proof -
  define f where "f = topic_hub_send_fanout hf snd_fn enq w th topic data binary e"
  note r = res [unfolded topic_hub_try_send_def Let_def, folded f_def]
  note k = send_refused [OF inv f_def]
  show ?thesis
  proof (cases "f_full f = [] \<or> ws_local_of (f_world f) th = None")
    case True
    then show ?thesis using inv r k(1,3) by (auto split: if_splits)
  next
    case False
    then obtain l where n: "f_full f \<noteq> []" and l: "ws_local_of (f_world f) th = Some l" by blast
    obtain w2 o2 where pk: "park_entry c s f th l topic e (now + ucast timeout) interval False = (w2, o2)" by fastforce
    note sp = send_parked [OF inv f_def n l pk]
    show ?thesis
      using inv r n l pk k(2,4) sp by (cases o2) (auto split: if_splits)
  qed
qed

lemma send_begin_ok:
  assumes inv: "hub_inv w PR QR ER"
    and res: "topic_hub_send_begin hf snd_fn enq c s ctx ev now w th topic data binary e timeout interval qmax = (w', r)"
  shows "hub_inv w' PR QR ((case r of Inl _ \<Rightarrow> {#} | Inr (n, p) \<Rightarrow> {#p#}) + ER) \<and>
    (retry_balance w \<longrightarrow> retry_balance w')"
proof -
  define f where "f = topic_hub_send_fanout hf snd_fn enq w th topic data binary e"
  note r = res [unfolded topic_hub_send_begin_def Let_def, folded f_def]
  note k = send_refused [OF inv f_def]
  show ?thesis
  proof (cases "f_full f = [] \<or> ws_local_of (f_world f) th = None")
    case True
    then show ?thesis using inv r k(1,3) by (auto split: if_splits)
  next
    case False
    then obtain l where n: "f_full f \<noteq> []" and l: "ws_local_of (f_world f) th = Some l" by blast
    obtain w2 o2 where pk: "park_entry c s f th l topic e (now + ucast timeout) interval True = (w2, o2)" by fastforce
    note sp = send_parked [OF inv f_def n l pk]
    show ?thesis
      using inv r n l pk k(2,4) sp by (cases o2) (auto split: if_splits)
  qed
qed

end
