(* ===== verification/Topic_Hub_Reach.thy ===== *)
theory Topic_Hub_Reach
  imports Topic_Park_Inv
begin

text \<open>
  The hub as a state machine over the operations of \<open>topic_hub.c\<close>, any number of threads
  interleaved, and the properties of its reachable states: reference counts, the balance
  of the reliable send, and the assignment of slots.
\<close>

section \<open>The end of a blocking send\<close>

lemma send_end_ok:
  assumes inv: "hub_inv w PR QR (add_mset p ER)"
  shows "hub_inv (fst (topic_hub_send_end w n p)) PR QR ER \<and>
    w_locals (fst (topic_hub_send_end w n p)) = w_locals w \<and>
    w_hub (fst (topic_hub_send_end w n p)) = w_hub w \<and>
    retry_due (fst (topic_hub_send_end w n p)) = retry_due w"
proof -
  obtain e where e: "w_entries w p = Some e" using entry_live [OF inv, of p] by auto
  have le: "list_all (\<lambda>r. r_slot r < TOPIC_HUB_MAX_WORKERS) (e_pending e)"
    using inv e hub_wfD(5) by (auto simp: hub_inv_def)
  define w1 where "w1 = put_entry w p (e\<lparr>e_abandoned := True, e_waiter := False\<rparr>)"
  define w2 where "w2 = retry_entry_release w1 p"
  have w2: "fst (topic_hub_send_end w n p) = w2" by (simp add: topic_hub_send_end_def e w1_def w2_def)
  have i1: "hub_inv w1 PR QR (add_mset p ER)"
    unfolding w1_def by (rule inv_put_entry [OF inv e]) (use le in simp_all)
  from inv_entry_release [OF i1] obtain v where i2: "hub_inv w2 PR QR ER"
    and v: "w2 = w1\<lparr>w_entries := (w_entries w1)(p := v)\<rparr>" unfolding w2_def by blast
  have l: "w_locals w2 = w_locals w" and h: "w_hub w2 = w_hub w" by (simp_all add: v w1_def)
  have q: "queued w2 = queued w" by (simp add: queued_def l)
  have "pend w2 x = pend w x" if x: "x \<in> set (queued w)" for x
  proof (cases "x = p")
    case True
    obtain e2 where e2: "w_entries w2 p = Some e2" using entry_live [OF i2, of p] x True q by auto
    have "w_entries w1 p = Some (e\<lparr>e_abandoned := True, e_waiter := False\<rparr>)" by (simp add: w1_def)
    with e2 have "e_pending e2 = e_pending e"
      by (auto simp: w2_def retry_entry_release_def split: if_splits)
    then show ?thesis using e e2 True by (simp add: pend_def)
  next
    case False
    then show ?thesis by (simp add: pend_def v w1_def)
  qed
  then have "map (pend w2) (queued w) = map (pend w) (queued w)" by simp
  then have "retry_due w2 = retry_due w" unfolding retry_due_def q by (rule arg_cong)
  then show ?thesis using i2 l h by (simp add: w2)
qed

section \<open>Slots\<close>

definition slot_of :: "hub_world \<Rightarrow> nat \<Rightarrow> (nat \<times> u32) option" where
  "slot_of w th = map_option (\<lambda>l. (l_slot l, l_gen l)) (ws_local_of w th)"

text \<open>A taken slot has a mailbox, lies below \<open>slots_used\<close> and belongs to exactly one
  attached thread, which carries its generation.\<close>

definition slots_ok :: "hub_world \<Rightarrow> bool" where
  "slots_ok w \<longleftrightarrow>
     (\<forall>i<TOPIC_HUB_MAX_WORKERS. (h_inbox (w_hub w) ! i \<noteq> None \<longleftrightarrow> h_taken (w_hub w) ! i) \<and>
        (h_taken (w_hub w) ! i \<longleftrightarrow> (\<exists>th g. slot_of w th = Some (i, g)))) \<and>
     (\<forall>th i g. slot_of w th = Some (i, g) \<longrightarrow>
        i < h_slots_used (w_hub w) \<and> g = h_gen (w_hub w) ! i \<and>
        (\<forall>th' g'. slot_of w th' = Some (i, g') \<longrightarrow> th' = th))"

lemma slots_okD:
  assumes "slots_ok w"
  shows "i < TOPIC_HUB_MAX_WORKERS \<Longrightarrow> h_inbox (w_hub w) ! i \<noteq> None \<longleftrightarrow> h_taken (w_hub w) ! i"
    "i < TOPIC_HUB_MAX_WORKERS \<Longrightarrow> h_taken (w_hub w) ! i \<longleftrightarrow> (\<exists>th g. slot_of w th = Some (i, g))"
    "slot_of w th = Some (i, g) \<Longrightarrow> i < h_slots_used (w_hub w)"
    "slot_of w th = Some (i, g) \<Longrightarrow> g = h_gen (w_hub w) ! i"
    "slot_of w th = Some (i, g) \<Longrightarrow> slot_of w th' = Some (i, g') \<Longrightarrow> th' = th"
  using assms unfolding slots_ok_def by blast+

definition slot_same :: "hub_world \<Rightarrow> hub_world \<Rightarrow> bool" where
  "slot_same w w' \<longleftrightarrow> slot_view (w_hub w') = slot_view (w_hub w) \<and> (\<forall>th. slot_of w' th = slot_of w th)"

lemma slot_same_ok:
  assumes "slot_same w w'" "slots_ok w" "hub_wf w" "hub_wf w'"
  shows "slots_ok w'"
proof -
  have m: "map (\<lambda>b. b \<noteq> None) (h_inbox (w_hub w')) = map (\<lambda>b. b \<noteq> None) (h_inbox (w_hub w))"
    and v: "h_gen (w_hub w') = h_gen (w_hub w)" "h_taken (w_hub w') = h_taken (w_hub w)"
      "h_slots_used (w_hub w') = h_slots_used (w_hub w)" "\<And>th. slot_of w' th = slot_of w th"
    using assms(1) by (simp_all add: slot_same_def slot_view_def)
  have "h_inbox (w_hub w') ! i \<noteq> None \<longleftrightarrow> h_inbox (w_hub w) ! i \<noteq> None" if "i < TOPIC_HUB_MAX_WORKERS" for i
    using arg_cong [OF m, of "\<lambda>xs. xs ! i"] that hub_wfD(1) [OF assms(3)] hub_wfD(1) [OF assms(4)] by simp
  then show ?thesis using assms(2) unfolding slots_ok_def v by simp
qed

lemma hub_same_local:
  assumes "hub_same w w'"
  shows "map_option local_view (ws_local_of w' th) = map_option local_view (ws_local_of w th)"
proof -
  have m: "map (map_option local_view) (w_locals w') = map (map_option local_view) (w_locals w)"
    using assms by (simp add: hub_same_def)
  then have "length (w_locals w') = length (w_locals w)" by (metis length_map)
  then show ?thesis
    using arg_cong [OF m, of "\<lambda>xs. xs ! th"] by (cases "th < length (w_locals w)") (simp_all add: ws_local_of_def)
qed

lemma hub_same_slot_same:
  assumes s: "hub_same w w'"
  shows "slot_same w w'"
proof -
  note hub_same_local [OF s]
  moreover have "slot_of u th = map_option (\<lambda>(i, g, q). (i, g)) (map_option local_view (ws_local_of u th))" for u th
    by (simp add: slot_of_def option.map_comp comp_def local_view_def)
  ultimately have "slot_of w' th = slot_of w th" for th by simp
  then show ?thesis using s by (simp add: slot_same_def hub_same_def hub_view_def)
qed

lemma slot_same_locals:
  "w_locals w' = w_locals w \<Longrightarrow> slot_view (w_hub w') = slot_view (w_hub w) \<Longrightarrow> slot_same w w'"
  using ws_local_of_cong [of w' w] by (simp add: slot_same_def slot_of_def)

lemma slot_same_trans: "slot_same w w' \<Longrightarrow> slot_same w' w'' \<Longrightarrow> slot_same w w''"
  by (simp add: slot_same_def)

lemma slot_same_put:
  assumes "ws_local_of w th = Some l" "l_slot l' = l_slot l" "l_gen l' = l_gen l"
  shows "slot_same w (put_local w th l')"
  using assms by (simp add: slot_same_def slot_of_def ws_local_of_put)

lemma target_locals: "w_locals (rt_world (fold (retry_target_step enq) rs s)) = w_locals (rt_world s)"
proof (induction rs arbitrary: s)
  case (Cons r rs)
  have "w_locals (rt_world (retry_target_step enq r s)) = w_locals (rt_world s)"
    by (simp add: retry_target_step_def Let_def payload_release_frame ws_payload_retain_def
        split: prod.splits bool.splits option.splits)
  then show ?case using Cons.IH by simp
qed simp

lemma entry_locals: "w_locals (d_world (fold (retry_entry_step enq now) ps d)) = w_locals (d_world d)"
proof (induction ps arbitrary: d)
  case (Cons p ps)
  have "w_locals (d_world (retry_entry_step enq now p d)) = w_locals (d_world d)"
    by (simp add: retry_entry_step_def Let_def target_locals split: option.splits)
  then show ?case using Cons.IH by simp
qed simp

lemma finish_all_frame:
  "w_hub (fold (\<lambda>p w. retry_entry_finish w p) ps w) = w_hub w \<and>
   w_locals (fold (\<lambda>p w. retry_entry_finish w p) ps w) = w_locals w"
  by (induction ps arbitrary: w) simp_all

lemma slot_same_retry_drain: "slot_same w (topic_hub_retry_drain enq now w th)"
proof (cases "ws_local_of w th")
  case (Some l)
  define d where "d = fold (retry_entry_step enq now) (l_retry l)
      \<lparr>d_world = w, d_live = [], d_resolved = [], d_delivered = 0, d_gone = 0, d_expired = 0\<rparr>"
  define w1 where "w1 = put_local (d_world d) th (l\<lparr>l_retry := d_live d\<rparr>)"
  define w2 where "w2 = fold (\<lambda>p w. retry_entry_finish w p) (d_resolved d) w1"
  have d: "w_locals (d_world d) = w_locals w" "slot_view (w_hub (d_world d)) = slot_view (w_hub w)"
    using entry_locals [of enq now "l_retry l"] view_entry_fold [of enq now "l_retry l"]
    by (simp_all add: d_def hub_view_def)
  have "slot_same (d_world d) w1"
    unfolding w1_def using Some ws_local_of_cong [OF d(1)] by (intro slot_same_put [of _ _ l]) simp_all
  moreover have "slot_same w1 w2"
    using finish_all_frame by (intro slot_same_locals) (simp_all add: w2_def)
  ultimately have same: "slot_same w w2" using slot_same_locals [OF d] slot_same_trans by blast
  have res: "topic_hub_retry_drain enq now w th = upd_hub (\<lambda>h. h\<lparr>h_retry_delivered := h_retry_delivered h + of_nat (d_delivered d),
      h_retry_gone := h_retry_gone h + of_nat (d_gone d),
      h_retry_expired := h_retry_expired h + of_nat (d_expired d)\<rparr>) w2"
    using Some by (simp only: topic_hub_retry_drain_def option.case Let_def d_def w1_def w2_def)
  show ?thesis
    unfolding res by (rule slot_same_trans [OF same slot_same_locals]) (simp_all add: slot_view_def)
qed (simp add: topic_hub_retry_drain_def slot_same_def)

lemma slot_same_retry_tick: "slot_same w (topic_hub_retry_tick exc enq now w th)"
proof -
  let ?w = "topic_hub_retry_drain enq now w th"
  have "slot_same ?w (put_local ?w th (l\<lparr>l_armed := False\<rparr>))" if "ws_local_of ?w th = Some l" for l
    using that by (rule slot_same_put) simp_all
  then show ?thesis
    using slot_same_retry_drain [of w enq now th] slot_same_locals [of w w]
    by (auto simp: topic_hub_retry_tick_def Let_def split: option.splits intro: slot_same_trans)
qed

lemma slot_same_park:
  assumes l: "ws_local_of (f_world f) th = Some l"
    and res: "park_entry c s f th l topic e deadline interval waiter = (w', o')"
  shows "slot_same (f_world f) w'"
proof -
  obtain w1 a where new: "retry_entry_new (f_world f) topic (the (f_payload f)) e deadline (f_full f) waiter = (w1, a)"
    by fastforce
  obtain l' b where enq: "topic_hub_retry_enqueue c s l a interval = (l', b)" by fastforce
  have n: "w_locals w1 = w_locals (f_world f)" "w_hub w1 = w_hub (f_world f)"
    using new by (auto simp: retry_entry_new_def)
  have "slot_same w1 (put_local w1 th l')"
    using l ws_local_of_cong [OF n(1)] retry_enqueue_cases [OF enq] by (intro slot_same_put [of _ _ l]) simp_all
  moreover have "slot_same (f_world f) w1" using n by (intro slot_same_locals) simp_all
  ultimately have "slot_same (f_world f) (put_local w1 th l')" using slot_same_trans by blast
  moreover have "slot_same (put_local w1 th l') w'"
    using res
    by (intro slot_same_locals)
      (auto simp: park_entry_def new enq note_rejected_def retry_entry_discard_def Let_def
        payload_release_frame slot_view_def split: bool.splits option.splits)
  ultimately show ?thesis using slot_same_trans by blast
qed

lemma slot_same_refused:
  assumes "f = topic_hub_send_fanout hf snd_fn enq w th topic data binary e"
  shows "slot_same w (f_world f)" "slot_same w (release_base (f_world f) (f_payload f))"
    "slot_same w (note_rejected (release_base (f_world f) (f_payload f)))"
  using same_send_fanout [of w hf snd_fn enq th topic data binary e]
  unfolding assms [symmetric] by (auto intro!: hub_same_slot_same inv_intros)

lemma slot_same_try_send:
  assumes res: "topic_hub_try_send hf snd_fn enq c s now w th topic data binary e timeout interval qmax = (w', b)"
  shows "slot_same w w'"
proof -
  define f where "f = topic_hub_send_fanout hf snd_fn enq w th topic data binary e"
  note r = res [unfolded topic_hub_try_send_def Let_def, folded f_def] and k = slot_same_refused [OF f_def]
  show ?thesis
  proof (cases "f_full f = [] \<or> ws_local_of (f_world f) th = None")
    case True
    then show ?thesis using r k by (auto split: if_splits)
  next
    case False
    then obtain l where n: "f_full f \<noteq> []" and l: "ws_local_of (f_world f) th = Some l" by blast
    obtain w2 o2 where pk: "park_entry c s f th l topic e (now + ucast timeout) interval False = (w2, o2)" by fastforce
    have "slot_same w w2" using slot_same_park [OF l pk] k(1) slot_same_trans by blast
    then show ?thesis using r n l pk k(3) by (cases o2) (auto split: if_splits)
  qed
qed

lemma slot_same_send_begin:
  assumes res: "topic_hub_send_begin hf snd_fn enq c s ctx ev now w th topic data binary e timeout interval qmax = (w', r')"
  shows "slot_same w w'"
proof -
  define f where "f = topic_hub_send_fanout hf snd_fn enq w th topic data binary e"
  note r = res [unfolded topic_hub_send_begin_def Let_def, folded f_def] and k = slot_same_refused [OF f_def]
  have refl: "slot_same w w" by (simp add: slot_same_def)
  show ?thesis
  proof (cases "f_full f = [] \<or> ws_local_of (f_world f) th = None")
    case True
    then show ?thesis using r k refl by (auto split: if_splits)
  next
    case False
    then obtain l where n: "f_full f \<noteq> []" and l: "ws_local_of (f_world f) th = Some l" by blast
    obtain w2 o2 where pk: "park_entry c s f th l topic e (now + ucast timeout) interval True = (w2, o2)" by fastforce
    have "slot_same w w2" using slot_same_park [OF l pk] k(1) slot_same_trans by blast
    then show ?thesis using r n l pk k(3) refl by (cases o2) (auto split: if_splits)
  qed
qed

section \<open>Attach\<close>

lemma find_slot:
  assumes "claim_slot h = Some (h', i, g)"
  shows "i < TOPIC_HUB_MAX_WORKERS" "\<not> h_taken h ! i" "g = h_gen h ! i + 1"
    "h' = h\<lparr>h_taken := (h_taken h)[i := True], h_inbox := (h_inbox h)[i := Some []],
       h_interest := (h_interest h)[i := Some (replicate WS_INTEREST_BUCKETS 0)],
       h_gen := (h_gen h)[i := h_gen h ! i + 1],
       h_slots_used := (if i \<ge> h_slots_used h then i + 1 else h_slots_used h)\<rparr>"
proof -
  from assms obtain j where j: "List.find (\<lambda>i. \<not> h_taken h ! i) [0..<TOPIC_HUB_MAX_WORKERS] = Some j"
    by (auto simp: claim_slot_def split: option.splits)
  then have "j < TOPIC_HUB_MAX_WORKERS" "\<not> h_taken h ! j" by (auto simp: find_Some_iff)
  with assms j show "i < TOPIC_HUB_MAX_WORKERS" "\<not> h_taken h ! i" "g = h_gen h ! i + 1"
    "h' = h\<lparr>h_taken := (h_taken h)[i := True], h_inbox := (h_inbox h)[i := Some []],
       h_interest := (h_interest h)[i := Some (replicate WS_INTEREST_BUCKETS 0)],
       h_gen := (h_gen h)[i := h_gen h ! i + 1],
       h_slots_used := (if i \<ge> h_slots_used h then i + 1 else h_slots_used h)\<rparr>"
    by (auto simp: claim_slot_def)
qed

lemma attach_cases:
  assumes "topic_hub_attach mb_ok w th = (w', r)"
  obtains "w' = w" "r = None"
  | h i g where "ws_local_of w th = None" "claim_slot (w_hub w) = Some (h, i, g)" "r = Some i"
      "w' = w\<lparr>w_hub := h, w_locals := (w_locals w)[th := Some
         \<lparr>l_slot = i, l_gen = g, l_tree = ws_topic_tree_create None [], l_retry = [], l_interval = 0,
          l_timer = False, l_armed = False\<rparr>]\<rparr>"
proof (cases "ws_local_of w th \<noteq> None \<or> \<not> mb_ok \<or> claim_slot (w_hub w) = None")
  case True
  then have "w' = w" "r = None" using assms by (auto simp: topic_hub_attach_def split: if_splits)
  then show thesis by (rule that(1))
next
  case False
  then obtain h i g where c: "claim_slot (w_hub w) = Some (h, i, g)" by auto
  have n: "ws_local_of w th = None" and m: "mb_ok" using False by auto
  have "(w', r) = topic_hub_attach mb_ok w th" using assms by simp
  then show thesis
    unfolding topic_hub_attach_def n c
    by (intro that(2) [OF n c]) (simp_all only: m simp_thms if_False option.case prod.case prod.inject)
qed

lemma inv_attach:
  assumes inv: "hub_inv w PR QR ER" and sl: "slots_ok w" and res: "topic_hub_attach mb_ok w th = (w', r)"
  shows "hub_inv w' PR QR ER"
  using res
proof (cases rule: attach_cases)
  case (2 h i g)
  note c = find_slot [OF 2(2)]
  have none: "h_inbox (w_hub w) ! i = None" using slots_okD(1) [OF sl c(1)] c(2) by simp
  have wf: "hub_wf w" and refs: "hub_refs w PR QR ER" using inv by (simp_all add: hub_inv_def)
  have r: "hub_refs (w\<lparr>w_hub := h\<rparr>) PR QR ER"
    using none c hub_wfD(1) [OF wf] by (intro refs_inbox [OF refs, of i h "Some []"]) simp_all
  have q: "map queue_of (w_locals w') = map queue_of (w_locals w)"
    unfolding 2(4) using 2(1)
    by (cases "th < length (w_locals w)") (auto simp: ws_local_of_def list_update_beyond intro!: map_update_same)
  have "hub_refs w' PR QR ER"
  proof (rule hub_refs_cong [OF r])
    show "map queue_of (w_locals w') = map queue_of (w_locals (w\<lparr>w_hub := h\<rparr>))" by (simp add: q)
  qed (simp_all add: 2(4))
  moreover have "hub_wf w'"
  proof -
    have lo: "ws_local_of w' t = Some l \<Longrightarrow> l_slot l < TOPIC_HUB_MAX_WORKERS" for t l
      using hub_wfD(3) [OF wf, of t l] c(1)
      by (cases "t = th"; cases "th < length (w_locals w)") (auto simp: ws_local_of_def 2(4) split: if_splits)
    have eq: "w_queries w' = w_queries w" "w_entries w' = w_entries w" by (simp_all add: 2(4))
    have "length (h_inbox (w_hub w')) = TOPIC_HUB_MAX_WORKERS" "length (h_gen (w_hub w')) = TOPIC_HUB_MAX_WORKERS"
        "length (h_taken (w_hub w')) = TOPIC_HUB_MAX_WORKERS" "length (h_interest (w_hub w')) = TOPIC_HUB_MAX_WORKERS"
        "h_slots_used (w_hub w') \<le> TOPIC_HUB_MAX_WORKERS"
      using wf c(1) by (simp_all add: hub_wf_def 2(4) c(4))
    then show ?thesis
      using lo hub_wfD(4,5) [OF wf] unfolding hub_wf_def [of w'] eq by blast
  qed
  ultimately show ?thesis by (simp add: hub_inv_def)
qed (use inv in simp)

lemma slots_attach:
  assumes wf: "hub_wf w" and sl: "slots_ok w" and th: "th < length (w_locals w)"
    and res: "topic_hub_attach mb_ok w th = (w', r)"
  shows "slots_ok w'"
  using res
proof (cases rule: attach_cases)
  case (2 h i g)
  note c = find_slot [OF 2(2)]
  have len: "length (h_inbox (w_hub w)) = TOPIC_HUB_MAX_WORKERS" "length (h_gen (w_hub w)) = TOPIC_HUB_MAX_WORKERS"
      "length (h_taken (w_hub w)) = TOPIC_HUB_MAX_WORKERS"
    using wf by (simp_all add: hub_wf_def)
  have so: "slot_of w' t = (if t = th then Some (i, g) else slot_of w t)" for t
    using th by (simp add: slot_of_def ws_local_of_def 2(4))
  have no: "slot_of w t \<noteq> Some (i, k)" for t k
    using slots_okD(2) [OF sl c(1)] c(2) by blast
  have bd: "j < TOPIC_HUB_MAX_WORKERS" if "slot_of w t = Some (j, k)" for t j k
    using that hub_wfD(3) [OF wf] by (auto simp: slot_of_def)
  have hub: "h_taken (w_hub w') = (h_taken (w_hub w))[i := True]" "h_inbox (w_hub w') = (h_inbox (w_hub w))[i := Some []]"
      "h_gen (w_hub w') = (h_gen (w_hub w))[i := g]"
      "h_slots_used (w_hub w') = (if i \<ge> h_slots_used (w_hub w) then i + 1 else h_slots_used (w_hub w))"
    using c(3) by (simp_all add: 2(4) c(4))
  have none: "slot_of w th = None" using 2(1) by (simp add: slot_of_def)
  show ?thesis
    unfolding slots_ok_def hub so
  proof (intro conjI allI impI)
    fix j assume j: "j < TOPIC_HUB_MAX_WORKERS"
    show "((h_inbox (w_hub w))[i := Some []] ! j \<noteq> None) = (h_taken (w_hub w))[i := True] ! j"
      using slots_okD(1) [OF sl j] j len by (cases "j = i") simp_all
    show "(h_taken (w_hub w))[i := True] ! j = (\<exists>t k. (if t = th then Some (i, g) else slot_of w t) = Some (j, k))"
    proof (cases "j = i")
      case True
      then show ?thesis using j len by auto
    next
      case False
      then have "(if t = th then Some (i, g) else slot_of w t) = Some (j, k) \<longleftrightarrow> slot_of w t = Some (j, k)" for t k
        using none by auto
      then show ?thesis using False slots_okD(2) [OF sl j] by simp
    qed
  next
    fix t j k assume a: "(if t = th then Some (i, g) else slot_of w t) = Some (j, k)"
    then show "j < (if h_slots_used (w_hub w) \<le> i then i + 1 else h_slots_used (w_hub w))"
      using slots_okD(3) [OF sl, of t j k] by (auto split: if_splits)
    show "k = (h_gen (w_hub w))[i := g] ! j"
      using a slots_okD(4) [OF sl, of t j k] no [of t k] bd [of t j k] c(1) len
      by (cases "j = i") (auto split: if_splits)
    show "t' = t" if "(if t' = th then Some (i, g) else slot_of w t') = Some (j, k')" for t' k'
      using a that slots_okD(5) [OF sl, of t j k t' k'] no [of t k] no [of t' k'] by (auto split: if_splits)
  qed
qed (use sl in simp)

section \<open>Detach\<close>

lemma inv_retire:
  assumes inv: "hub_inv w PR QR ER" and i: "i < TOPIC_HUB_MAX_WORKERS"
  shows "hub_inv (upd_hub (\<lambda>h. retire_slot h i) w) (mset (payloads_of (box (h_inbox (w_hub w) ! i))) + PR)
    (mset (queries_of (box (h_inbox (w_hub w) ! i))) + QR) ER"
proof -
  have wf: "hub_wf w" and refs: "hub_refs w PR QR ER" using inv by (simp_all add: hub_inv_def)
  have "hub_refs (w\<lparr>w_hub := retire_slot (w_hub w) i\<rparr>) (mset (payloads_of (box (h_inbox (w_hub w) ! i))) + PR)
      (mset (queries_of (box (h_inbox (w_hub w) ! i))) + QR) ER"
    using i hub_wfD(1) [OF wf] by (intro refs_inbox [OF refs, of i _ None]) (simp_all add: retire_slot_def)
  moreover have "hub_wf (w\<lparr>w_hub := retire_slot (w_hub w) i\<rparr>)"
    using wf by (simp add: hub_wf_def retire_slot_def)
  ultimately show ?thesis by (simp add: hub_inv_def)
qed

lemma balance_retire: "retry_balance (upd_hub (\<lambda>h. retire_slot h i) w) = retry_balance w"
proof -
  have "retry_due (upd_hub (\<lambda>h. retire_slot h i) w) = retry_due w" by (rule due_cong) simp_all
  then show ?thesis by (simp add: retry_balance_def retire_slot_def)
qed

lemma slots_detached:
  assumes sl: "slots_ok w" and wf: "hub_wf w" "hub_wf w'" and th: "slot_of w th = Some (i, g)"
    and view: "slot_view (w_hub w') = slot_view (retire_slot (w_hub w) i)"
    and so: "\<And>t. slot_of w' t = (if t = th then None else slot_of w t)"
  shows "slots_ok w'"
proof -
  have len: "length (h_inbox (w_hub w)) = TOPIC_HUB_MAX_WORKERS" "length (h_taken (w_hub w)) = TOPIC_HUB_MAX_WORKERS"
      "length (h_inbox (w_hub w')) = TOPIC_HUB_MAX_WORKERS"
    using wf by (simp_all add: hub_wf_def)
  have m: "map (\<lambda>b. b \<noteq> None) (h_inbox (w_hub w')) = map (\<lambda>b. b \<noteq> None) ((h_inbox (w_hub w))[i := None])"
    and v: "h_gen (w_hub w') = h_gen (w_hub w)" "h_taken (w_hub w') = (h_taken (w_hub w))[i := False]"
      "h_slots_used (w_hub w') = h_slots_used (w_hub w)"
    using view by (simp_all add: slot_view_def retire_slot_def)
  have box: "h_inbox (w_hub w') ! j \<noteq> None \<longleftrightarrow> j \<noteq> i \<and> h_inbox (w_hub w) ! j \<noteq> None"
    if "j < TOPIC_HUB_MAX_WORKERS" for j
    using arg_cong [OF m, of "\<lambda>xs. xs ! j"] that len by (cases "j = i") simp_all
  have uniq: "slot_of w t \<noteq> Some (i, k)" if "t \<noteq> th" for t k
    using slots_okD(5) [OF sl th, of t k] that by blast
  show ?thesis
    unfolding slots_ok_def v so
  proof (intro conjI allI impI)
    fix j assume j: "j < TOPIC_HUB_MAX_WORKERS"
    show "(h_inbox (w_hub w') ! j \<noteq> None) = (h_taken (w_hub w))[i := False] ! j"
      using slots_okD(1) [OF sl j] box [OF j] j len by (cases "j = i") simp_all
    show "(h_taken (w_hub w))[i := False] ! j = (\<exists>t k. (if t = th then None else slot_of w t) = Some (j, k))"
    proof (cases "j = i")
      case True
      then show ?thesis using j len uniq by auto
    next
      case False
      then have "(if t = th then None else slot_of w t) = Some (j, k) \<longleftrightarrow> slot_of w t = Some (j, k)" for t k
        using th by auto
      then show ?thesis using False slots_okD(2) [OF sl j] by simp
    qed
  next
    fix t j k assume "(if t = th then None else slot_of w t) = Some (j, k)"
    then have a: "slot_of w t = Some (j, k)" by (simp split: if_splits)
    show "j < h_slots_used (w_hub w)" "k = h_gen (w_hub w) ! j"
      using slots_okD(3,4) [OF sl a] by simp_all
    show "t' = t" if "(if t' = th then None else slot_of w t') = Some (j, k')" for t' k'
      using that slots_okD(5) [OF sl a, of t' k'] by (simp split: if_splits)
  qed
qed

lemma detach_ok:
  assumes inv: "hub_inv w PR QR ER" and sl: "slots_ok w" and bal: "retry_balance w"
  shows "hub_inv (topic_hub_detach hf snd_fn enq w th) PR QR ER \<and> slots_ok (topic_hub_detach hf snd_fn enq w th) \<and>
    retry_balance (topic_hub_detach hf snd_fn enq w th)"
proof (cases "ws_local_of w th")
  case None
  then show ?thesis using assms by (simp add: topic_hub_detach_def)
next
  case (Some l)
  let ?q = "box (h_inbox (w_hub w) ! l_slot l)"
  define w1 where "w1 = upd_hub (\<lambda>h. retire_slot h (l_slot l)) w"
  define w2 where "w2 = topic_hub_retry_teardown w1 th l"
  define w3 where "w3 = topic_hub_drain hf snd_fn enq th ?q w2"
  define w4 where "w4 = w3\<lparr>w_locals := (w_locals w3)[th := None]\<rparr>"
  have res: "topic_hub_detach hf snd_fn enq w th = w4"
    using Some by (simp only: topic_hub_detach_def option.case Let_def box_def w1_def w2_def w3_def w4_def)
  have i: "l_slot l < TOPIC_HUB_MAX_WORKERS" using inv Some hub_wfD(3) by (auto simp: hub_inv_def)
  have l1: "ws_local_of w1 th = Some l" using Some by (simp add: w1_def)
  note inv1 = inv_retire [OF inv i, folded w1_def]
  note t = retry_teardown_ok [OF inv1 l1, folded w2_def]
  have inv3: "hub_inv w3 PR QR ER" unfolding w3_def by (rule inv_drain [OF t(1)])
  have same: "hub_same w2 w3" unfolding w3_def by (rule same_drain)
  obtain l3 where l3: "ws_local_of w3 th = Some l3" "l_retry l3 = []"
    using hub_same_local [OF same, of th] t(3) by (auto simp: local_view_def)
  have "queued w4 = queued w3 \<and> map queue_of (w_locals w4) = map queue_of (w_locals w3)"
    using l3 by (auto simp: w4_def queued_def ws_local_of_def intro!: map_update_same arg_cong [of _ _ concat]
        split: if_splits)
  then have q4: "queued w4 = queued w3" "map queue_of (w_locals w4) = map queue_of (w_locals w3)" by simp_all
  have inv4: "hub_inv w4 PR QR ER"
    unfolding w4_def using l3(2) inv3 q4(1)
    by (intro inv_requeue [OF inv3 l3(1)]) (simp_all add: hub_inv_def hub_refs_def w4_def)
  have "retry_balance w3" using t(2) bal hub_same_balance [OF same] by (simp add: w1_def balance_retire)
  moreover have "retry_due w4 = retry_due w3" using q4(2) by (rule due_cong) (simp add: w4_def)
  ultimately have bal4: "retry_balance w4" by (simp add: retry_balance_def w4_def)
  have "slot_of w4 t = (if t = th then None else slot_of w t)" for t
  proof (cases "t = th")
    case True
    then show ?thesis using l3(1) by (simp add: slot_of_def w4_def ws_local_of_put ws_local_of_def split: if_splits)
  next
    case False
    then have "slot_of w4 t = slot_of w3 t" by (simp add: slot_of_def w4_def ws_local_of_put)
    also have "\<dots> = slot_of w2 t" using hub_same_slot_same [OF same] by (simp add: slot_same_def)
    also have "\<dots> = slot_of w t" using False t(4) by (simp add: slot_of_def ws_local_of_def w1_def)
    finally show ?thesis using False by simp
  qed
  moreover have "slot_view (w_hub w4) = slot_view (retire_slot (w_hub w) (l_slot l))"
    using same t(5) by (simp add: w4_def w1_def hub_same_def hub_view_def)
  ultimately have "slots_ok w4"
    using inv inv4 Some by (intro slots_detached [OF sl, of w4 th "l_slot l" "l_gen l"]) (auto simp: hub_inv_def slot_of_def)
  then show ?thesis using inv4 bal4 by (simp add: res)
qed

section \<open>Reachable states\<close>

text \<open>
  A state of the hub: the world, the queries on which askers are parked and the entries on
  which senders are parked.  Every step is one call of one thread; the parameters of a step
  (the transport, which enqueues and timers succeed, the clock) are arbitrary.
\<close>

definition hub_start :: "nat \<Rightarrow> hub_world" where
  "hub_start n = \<lparr>w_hub = topic_hub_create, w_locals = replicate n None, w_payloads = Map.empty,
     w_queries = Map.empty, w_entries = Map.empty, w_next = 0, w_fired = [], w_fault = False\<rparr>"

inductive hub_reach :: "(string \<Rightarrow> u32) \<Rightarrow> hub_world \<Rightarrow> ptr list \<Rightarrow> ptr list \<Rightarrow> bool" for hf where
  start: "hub_reach hf (hub_start n) [] []"
| attach: "hub_reach hf w qs es \<Longrightarrow> th < length (w_locals w) \<Longrightarrow>
    topic_hub_attach mb_ok w th = (w', r) \<Longrightarrow> hub_reach hf w' qs es"
| detach: "hub_reach hf w qs es \<Longrightarrow> hub_reach hf (topic_hub_detach hf snd_fn enq w th) qs es"
| next_id: "hub_reach hf w qs es \<Longrightarrow> hub_reach hf (upd_hub (\<lambda>h. fst (topic_hub_next_id h)) w) qs es"
| tree_op: "hub_reach hf w qs es \<Longrightarrow> ws_local_of w th = Some l \<Longrightarrow>
    hub_reach hf (fst (run_tree w th l (\<lambda>t. (f t, ())))) qs es"
| publish: "hub_reach hf w qs es \<Longrightarrow>
    hub_reach hf (fst (topic_hub_publish hf snd_fn enq w th topic data binary e)) qs es"
| mailbox: "hub_reach hf w qs es \<Longrightarrow> hub_reach hf (mailbox_round hf snd_fn enq w th) qs es"
| count: "hub_reach hf w qs es \<Longrightarrow> topic_hub_count_begin hf enq park w th topic = (w', Inl n) \<Longrightarrow> hub_reach hf w' qs es"
| count_park: "hub_reach hf w qs es \<Longrightarrow> topic_hub_count_begin hf enq park w th topic = (w', Inr q) \<Longrightarrow>
    hub_reach hf w' (q # qs) es"
| count_end: "hub_reach hf w qs es \<Longrightarrow> q \<in> set qs \<Longrightarrow>
    hub_reach hf (fst (topic_hub_count_end w q)) (remove1 q qs) es"
| tick: "hub_reach hf w qs es \<Longrightarrow> hub_reach hf (topic_hub_retry_tick exc enq now w th) qs es"
| try_send: "hub_reach hf w qs es \<Longrightarrow>
    topic_hub_try_send hf snd_fn enq c s now w th topic data binary e timeout interval qmax = (w', b) \<Longrightarrow>
    hub_reach hf w' qs es"
| send: "hub_reach hf w qs es \<Longrightarrow>
    topic_hub_send_begin hf snd_fn enq c s ctx ev now w th topic data binary e timeout interval qmax = (w', Inl r) \<Longrightarrow>
    hub_reach hf w' qs es"
| send_park: "hub_reach hf w qs es \<Longrightarrow>
    topic_hub_send_begin hf snd_fn enq c s ctx ev now w th topic data binary e timeout interval qmax = (w', Inr (n, p)) \<Longrightarrow>
    hub_reach hf w' qs (p # es)"
| send_end: "hub_reach hf w qs es \<Longrightarrow> p \<in> set es \<Longrightarrow>
    hub_reach hf (fst (topic_hub_send_end w n p)) qs (remove1 p es)"

definition hub_ok :: "hub_world \<Rightarrow> ptr list \<Rightarrow> ptr list \<Rightarrow> bool" where
  "hub_ok w qs es \<longleftrightarrow> hub_inv w {#} (mset qs) (mset es) \<and> slots_ok w \<and> retry_balance w"

lemma hub_okD: "hub_ok w qs es \<Longrightarrow> hub_inv w {#} (mset qs) (mset es)" "hub_ok w qs es \<Longrightarrow> retry_balance w"
  by (simp_all add: hub_ok_def)

lemma hub_ok_same:
  assumes "hub_ok w qs es" "hub_same w w'" "hub_inv w' {#} (mset qs') (mset es')"
  shows "hub_ok w' qs' es'"
  using assms slot_same_ok [OF hub_same_slot_same [OF assms(2)]] hub_same_balance [OF assms(2)]
  by (simp add: hub_ok_def hub_inv_def)

lemma hub_ok_slot_same:
  assumes "hub_ok w qs es" "slot_same w w'" "hub_inv w' {#} (mset qs') (mset es')" "retry_balance w'"
  shows "hub_ok w' qs' es'"
  using assms slot_same_ok [OF assms(2)] by (simp add: hub_ok_def hub_inv_def)

lemma rc_ok_empty: "rc_ok refs Map.empty {#}"
  by (simp add: rc_ok_def rc_of_def)

lemma hub_ok_start: "hub_ok (hub_start n) [] []"
proof -
  let ?w = "hub_start n"
  have l: "ws_local_of ?w th = None" for th by (simp add: ws_local_of_def hub_start_def)
  have q: "queued ?w = []" by (simp add: queued_def hub_start_def)
  have box: "h_inbox (w_hub ?w) = replicate TOPIC_HUB_MAX_WORKERS None"
    by (simp add: hub_start_def topic_hub_create_def)
  have "payload_owners ?w = {#}" "query_owners ?w = {#}"
    by (simp_all add: payload_owners_def query_owners_def q box)
  then have "hub_refs ?w {#} {#} {#}" by (simp add: hub_refs_def q rc_ok_empty) (simp add: hub_start_def rc_ok_empty)
  moreover have "hub_wf ?w" using l by (simp add: hub_wf_def) (simp add: hub_start_def topic_hub_create_def)
  moreover have "slots_ok ?w" using l by (simp add: slots_ok_def slot_of_def) (simp add: hub_start_def topic_hub_create_def)
  moreover have "retry_balance ?w"
    using q by (simp add: retry_balance_def retry_due_def) (simp add: hub_start_def topic_hub_create_def)
  ultimately show ?thesis by (simp add: hub_ok_def hub_inv_def)
qed

lemma hub_reach_ok: "hub_reach hf w qs es \<Longrightarrow> hub_ok w qs es"
proof (induction rule: hub_reach.induct)
  case (start n)
  show ?case by (rule hub_ok_start)
next
  case (attach w qs es th mb_ok w' r)
  then have i: "hub_inv w {#} (mset qs) (mset es)" and s: "slots_ok w" by (simp_all add: hub_ok_def)
  have wf: "hub_wf w" using i by (simp add: hub_inv_def)
  have "retry_balance w'"
    using attach.hyps(3)
  proof (cases rule: attach_cases)
    case (2 h i g)
    have "map queue_of (w_locals w') = map queue_of (w_locals w)"
      unfolding 2(4) using 2(1) attach.hyps(2) by (auto simp: ws_local_of_def intro!: map_update_same)
    then have "retry_due w' = retry_due w" by (rule due_cong) (simp add: 2(4))
    moreover have "retry_stats (w_hub w') = retry_stats (w_hub w)"
      by (simp add: 2(4) find_slot(4) [OF 2(2)])
    ultimately show ?thesis using attach.IH by (simp add: hub_ok_def retry_balance_def retry_stats_def)
  qed (use attach.IH in \<open>simp add: hub_ok_def\<close>)
  then show ?case
    using inv_attach [OF i s attach.hyps(3)] slots_attach [OF wf s attach.hyps(2,3)] by (simp add: hub_ok_def)
next
  case (detach w qs es snd_fn enq th)
  then show ?case using detach_ok unfolding hub_ok_def by blast
next
  case (next_id w qs es)
  let ?w = "upd_hub (\<lambda>h. fst (topic_hub_next_id h)) w"
  have "hub_same w ?w" by (simp add: hub_same_def topic_hub_next_id_def hub_view_def slot_view_def retry_stats_def)
  moreover have "hub_inv ?w {#} (mset qs) (mset es)"
    using next_id.IH by (intro inv_hub_counters) (simp_all add: hub_ok_def topic_hub_next_id_def)
  ultimately show ?case using next_id.IH hub_ok_same by blast
next
  case (tree_op w qs es th l f)
  show ?case
    by (rule hub_ok_same [OF tree_op.IH same_run_tree [OF tree_op.hyps(2)]
          inv_run_tree [OF hub_okD(1) [OF tree_op.IH] tree_op.hyps(2)]])
next
  case (publish w qs es snd_fn enq th topic data binary e)
  show ?case by (rule hub_ok_same [OF publish.IH same_publish inv_publish [OF hub_okD(1) [OF publish.IH]]])
next
  case (mailbox w qs es snd_fn enq th)
  show ?case
    by (rule hub_ok_same [OF mailbox.IH same_mailbox_round inv_mailbox_round [OF hub_okD(1) [OF mailbox.IH]]])
next
  case (count w qs es enq park th topic w' n)
  have "hub_same w w'" using same_count_begin [of w hf enq park th topic] count.hyps(2) by simp
  then show ?case
    using inv_count_begin [OF hub_okD(1) [OF count.IH] count.hyps(2)] by (intro hub_ok_same [OF count.IH]) simp_all
next
  case (count_park w qs es enq park th topic w' q)
  have "hub_same w w'" using same_count_begin [of w hf enq park th topic] count_park.hyps(2) by simp
  then show ?case
    using inv_count_begin [OF hub_okD(1) [OF count_park.IH] count_park.hyps(2)]
    by (intro hub_ok_same [OF count_park.IH]) simp_all
next
  case (count_end w qs es q)
  then have "mset qs = add_mset q (mset (remove1 q qs))" by simp
  then have "hub_inv (fst (topic_hub_count_end w q)) {#} (mset (remove1 q qs)) (mset es)"
    using count_end.IH by (intro inv_count_end) (simp add: hub_ok_def)
  then show ?case by (rule hub_ok_same [OF count_end.IH same_count_end])
next
  case (tick w qs es exc enq now th)
  note r = retry_tick_ok [OF hub_okD(1) [OF tick.IH], of exc enq now th]
  show ?case
    using r hub_okD(2) [OF tick.IH] by (intro hub_ok_slot_same [OF tick.IH slot_same_retry_tick]) simp_all
next
  case (try_send w qs es snd_fn enq c s now th topic data binary e timeout interval qmax w' b)
  note r = try_send_ok [OF hub_okD(1) [OF try_send.IH] try_send.hyps(2)]
  show ?case
    using r hub_okD(2) [OF try_send.IH]
    by (intro hub_ok_slot_same [OF try_send.IH slot_same_try_send [OF try_send.hyps(2)]]) simp_all
next
  case (send w qs es snd_fn enq c s ctx ev now th topic data binary e timeout interval qmax w' r)
  note r = send_begin_ok [OF hub_okD(1) [OF send.IH] send.hyps(2)]
  show ?case
    using r hub_okD(2) [OF send.IH]
    by (intro hub_ok_slot_same [OF send.IH slot_same_send_begin [OF send.hyps(2)]]) simp_all
next
  case (send_park w qs es snd_fn enq c s ctx ev now th topic data binary e timeout interval qmax w' n p)
  note r = send_begin_ok [OF hub_okD(1) [OF send_park.IH] send_park.hyps(2)]
  show ?case
    using r hub_okD(2) [OF send_park.IH]
    by (intro hub_ok_slot_same [OF send_park.IH slot_same_send_begin [OF send_park.hyps(2)]]) simp_all
next
  case (send_end w qs es p n)
  then have "mset es = add_mset p (mset (remove1 p es))" by simp
  then have e: "hub_inv w {#} (mset qs) (add_mset p (mset (remove1 p es)))"
    using send_end.IH by (simp add: hub_ok_def)
  note r = send_end_ok [OF this, of n]
  have "slot_same w (fst (topic_hub_send_end w n p))" using r by (intro slot_same_locals) simp_all
  moreover have "retry_balance (fst (topic_hub_send_end w n p))"
    using r send_end.IH by (simp add: hub_ok_def retry_balance_def)
  ultimately show ?case using r hub_ok_slot_same [OF send_end.IH] by simp
qed

end
