(* ===== verification/Topic_Fanout.thy ===== *)
theory Topic_Fanout
  imports Topic_Hub_Reach
begin

text \<open>
  What the fan-out of a publish does to one other worker: if that worker's tree holds a
  matching filter and its mailbox takes the command, the command is appended there and
  carries the published bytes.
\<close>

section \<open>The bytes of a payload\<close>

definition carries :: "string \<Rightarrow> bool \<Rightarrow> hub_world \<Rightarrow> ptr \<Rightarrow> bool" where
  "carries data binary w p \<longleftrightarrow> (\<forall>x. w_payloads w p = Some x \<longrightarrow> p_data x = data \<and> p_binary x = binary)"

lemma carries_retain: "carries d b w p \<Longrightarrow> carries d b (ws_payload_retain w q) p"
  by (auto simp: carries_def ws_payload_retain_def split: option.splits)

lemma carries_release: "carries d b w p \<Longrightarrow> carries d b (ws_payload_release w q) p"
  by (auto simp: carries_def ws_payload_release_def split: option.splits if_splits)

lemma carries_hub [simp]: "carries d b (w\<lparr>w_hub := h\<rparr>) p = carries d b w p"
  by (simp add: carries_def)

lemma carries_new: "ws_payload_new w d b = (w', p) \<Longrightarrow> carries d b w' p"
  by (auto simp: carries_def ws_payload_new_def)

section \<open>One slot\<close>

definition fan_ok :: "string \<Rightarrow> bool \<Rightarrow> fan \<Rightarrow> bool" where
  "fan_ok d b s \<longleftrightarrow> (\<forall>p. f_payload s = Some p \<longrightarrow> carries d b (f_world s) p)"

text \<open>The world after the payload of a fan-out is there and retained for one more copy.\<close>

definition fan_copy :: "fan \<Rightarrow> string \<Rightarrow> bool \<Rightarrow> hub_world \<times> ptr" where
  "fan_copy s data binary =
     (case (case f_payload s of Some p \<Rightarrow> (f_world s, p) | None \<Rightarrow> ws_payload_new (f_world s) data binary) of
        (w, p) \<Rightarrow> (ws_payload_retain w p, p))"

lemma fan_copy_ok:
  assumes "fan_ok d b s" "fan_copy s d b = (w, p)"
  shows "carries d b w p" "w_hub w = w_hub (f_world s)" "f_payload s = Some q \<Longrightarrow> p = q"
  using assms
  by (auto simp: fan_copy_def fan_ok_def intro!: carries_retain dest: carries_new split: option.splits prod.splits)
    (simp_all add: ws_payload_new_def)

lemma fanout_slot_send:
  assumes "h_inbox (w_hub (f_world s)) ! i \<noteq> None" "own \<noteq> Some i"
    "ws_interest_matches (h_interest (w_hub (f_world s)) ! i) interest" "fan_copy s d b = (w, p)"
  shows "fanout_slot enq own topic d b e interest reliable i s =
    (case topic_hub_post_locked enq (w_hub w) i (Publish p topic e) of
       (h, True) \<Rightarrow> s\<lparr>f_world := w\<lparr>w_hub := h\<rparr>, f_payload := Some p, f_posted := f_posted s + 1\<rparr>
     | (h, False) \<Rightarrow>
         (let s' = s\<lparr>f_world := ws_payload_release w p, f_payload := Some p\<rparr>
          in if reliable then s'\<lparr>f_full := f_full s @ [\<lparr>r_slot = i, r_gen = h_gen (w_hub w) ! i\<rparr>]\<rparr>
             else s'\<lparr>f_dropped := f_dropped s + 1\<rparr>))"
proof -
  obtain w1 p1 where w1: "(case f_payload s of Some p \<Rightarrow> (f_world s, p)
      | None \<Rightarrow> ws_payload_new (f_world s) d b) = (w1, p1)" by fastforce
  then have "w = ws_payload_retain w1 p" "p1 = p" using assms(4) by (auto simp: fan_copy_def)
  then show ?thesis using assms(1-3) w1 by (simp add: fanout_slot_def Let_def del: not_None_eq)
qed

lemma fanout_slot_ok:
  assumes ok: "fan_ok d b s" and s'_def: "s' = fanout_slot enq own topic d b e interest reliable i s"
  shows "fan_ok d b s'" "h_interest (w_hub (f_world s')) = h_interest (w_hub (f_world s))"
    "length (h_inbox (w_hub (f_world s'))) = length (h_inbox (w_hub (f_world s)))"
    "f_payload s = Some q \<Longrightarrow> f_payload s' = Some q"
    "j \<noteq> i \<Longrightarrow> h_inbox (w_hub (f_world s')) ! j = h_inbox (w_hub (f_world s)) ! j"
proof -
  let ?skip = "h_inbox (w_hub (f_world s)) ! i = None \<or> own = Some i \<or>
    \<not> ws_interest_matches (h_interest (w_hub (f_world s)) ! i) interest"
  have "fan_ok d b s' \<and> h_interest (w_hub (f_world s')) = h_interest (w_hub (f_world s)) \<and>
    length (h_inbox (w_hub (f_world s'))) = length (h_inbox (w_hub (f_world s))) \<and>
    (f_payload s = Some q \<longrightarrow> f_payload s' = Some q) \<and>
    (j \<noteq> i \<longrightarrow> h_inbox (w_hub (f_world s')) ! j = h_inbox (w_hub (f_world s)) ! j)"
  proof (cases ?skip)
    case True
    then show ?thesis using ok by (auto simp: s'_def fanout_slot_def Let_def fan_ok_def)
  next
    case False
    obtain w p where c: "fan_copy s d b = (w, p)" by fastforce
    note k = fan_copy_ok [OF ok c]
    obtain h r where post: "topic_hub_post_locked enq (w_hub w) i (Publish p topic e) = (h, r)" by fastforce
    have s': "s' = (if r then s\<lparr>f_world := w\<lparr>w_hub := h\<rparr>, f_payload := Some p, f_posted := f_posted s + 1\<rparr>
        else if reliable then s\<lparr>f_world := ws_payload_release w p, f_payload := Some p,
          f_full := f_full s @ [\<lparr>r_slot = i, r_gen = h_gen (w_hub w) ! i\<rparr>]\<rparr>
        else s\<lparr>f_world := ws_payload_release w p, f_payload := Some p, f_dropped := f_dropped s + 1\<rparr>)"
      using False c post by (cases r) (simp_all add: s'_def fanout_slot_send Let_def)
    have "h_interest h = h_interest (w_hub w)" "length (h_inbox h) = length (h_inbox (w_hub w))"
        "j \<noteq> i \<Longrightarrow> h_inbox h ! j = h_inbox (w_hub w) ! j"
      using post by (auto elim!: post_cases)
    then show ?thesis
      using k by (simp add: s' fan_ok_def payload_release_frame carries_release)
  qed
  then show "fan_ok d b s'" "h_interest (w_hub (f_world s')) = h_interest (w_hub (f_world s))"
    "length (h_inbox (w_hub (f_world s'))) = length (h_inbox (w_hub (f_world s)))"
    "f_payload s = Some q \<Longrightarrow> f_payload s' = Some q"
    "j \<noteq> i \<Longrightarrow> h_inbox (w_hub (f_world s')) ! j = h_inbox (w_hub (f_world s)) ! j" by blast+
qed

lemma fanout_fold_ok:
  assumes "fan_ok d b s" "s' = fold (fanout_slot enq own topic d b e interest reliable) is s"
  shows "fan_ok d b s' \<and> h_interest (w_hub (f_world s')) = h_interest (w_hub (f_world s)) \<and>
    length (h_inbox (w_hub (f_world s'))) = length (h_inbox (w_hub (f_world s))) \<and>
    (\<forall>q. f_payload s = Some q \<longrightarrow> f_payload s' = Some q) \<and>
    (\<forall>j. j \<notin> set is \<longrightarrow> h_inbox (w_hub (f_world s')) ! j = h_inbox (w_hub (f_world s)) ! j)"
  using assms
proof (induction "is" arbitrary: s)
  case (Cons i "is")
  define s1 where "s1 = fanout_slot enq own topic d b e interest reliable i s"
  note k = fanout_slot_ok [OF Cons.prems(1) s1_def]
  have "s' = fold (fanout_slot enq own topic d b e interest reliable) is s1"
    using Cons.prems(2) by (simp add: s1_def)
  from Cons.IH [OF k(1) this] k show ?case by simp
qed simp

text \<open>A slot that is interested and has room gets exactly one command.\<close>

lemma fanout_reaches:
  assumes i: "i < h_slots_used (w_hub w)" "own \<noteq> Some i" and c: "h_inbox (w_hub w) ! i = Some c"
    and len: "i < length (h_inbox (w_hub w))"
    and room: "length c < TOPIC_HUB_MAILBOX_CAPACITY" "enq c"
    and hit: "ws_interest_matches (h_interest (w_hub w) ! i) interest"
    and f: "f = topic_hub_fanout_locked enq w own topic d b e interest reliable"
  shows "\<exists>p. f_payload f = Some p \<and> carries d b (f_world f) p \<and>
    h_inbox (w_hub (f_world f)) ! i = Some (c @ [Publish p topic e])"
proof -
  define stp where "stp = fanout_slot enq own topic d b e interest reliable"
  define s0 where "s0 = \<lparr>f_world = w, f_payload = None, f_posted = 0, f_full = [], f_skipped = 0, f_dropped = 0\<rparr>"
  define s1 where "s1 = fold stp [0..<i] s0"
  define s2 where "s2 = stp i s1"
  have "[0..<h_slots_used (w_hub w)] = [0..<i] @ i # [i + 1..<h_slots_used (w_hub w)]"
    using i(1) by (metis add.left_neutral le_add_diff_inverse less_imp_le_nat upt_add_eq_append upt_conv_Cons
        Suc_eq_plus1 zero_le)
  then have f3: "f = fold stp [i + 1..<h_slots_used (w_hub w)] s2"
    by (simp add: f topic_hub_fanout_locked_def stp_def s0_def s1_def s2_def)
  have "fan_ok d b s0" by (simp add: fan_ok_def s0_def)
  from fanout_fold_ok [OF this s1_def [unfolded stp_def]] c
  have k1: "fan_ok d b s1" "h_interest (w_hub (f_world s1)) = h_interest (w_hub w)"
      "h_inbox (w_hub (f_world s1)) ! i = Some c" "length (h_inbox (w_hub (f_world s1))) = length (h_inbox (w_hub w))"
    by (simp_all add: s0_def)
  obtain w2 p where cp: "fan_copy s1 d b = (w2, p)" by fastforce
  note k2 = fan_copy_ok [OF k1(1) cp]
  have s2: "s2 = s1\<lparr>f_world := w2\<lparr>w_hub := (w_hub w2)\<lparr>h_inbox := (h_inbox (w_hub w2))[i := Some (c @ [Publish p topic e])]\<rparr>\<rparr>,
      f_payload := Some p, f_posted := f_posted s1 + 1\<rparr>"
    using k1 k2(2) i(2) hit room fanout_slot_send [OF _ i(2) _ cp]
    by (simp add: s2_def stp_def topic_hub_post_locked_def)
  then have "fan_ok d b s2" using k2(1) by (simp add: fan_ok_def)
  from fanout_fold_ok [OF this f3 [unfolded stp_def]] show ?thesis
    using s2 k1(4) k2(2) len by (auto simp: fan_ok_def)
qed

section \<open>Publishing across workers\<close>

lemma run_tree_other:
  assumes sl: "slots_ok w" and l: "ws_local_of w th = Some l" "ws_local_of w th' = Some l'" "th \<noteq> th'"
  shows "l_slot l \<noteq> l_slot l'"
  using slots_okD(5) [OF sl, of th' "l_slot l'" "l_gen l'" th "l_gen l"] l by (auto simp: slot_of_def)

lemma publish_local_other:
  assumes sl: "slots_ok w" and l': "ws_local_of w th' = Some l'" "th \<noteq> th'"
    and w1: "publish_local hf snd_fn w th topic e = (w1, n)"
  shows "h_inbox (w_hub w1) = h_inbox (w_hub w)" "h_slots_used (w_hub w1) = h_slots_used (w_hub w)"
    "h_interest (w_hub w1) ! l_slot l' = h_interest (w_hub w) ! l_slot l'"
    "map_option l_slot (ws_local_of w1 th) \<noteq> Some (l_slot l')"
proof -
  have same: "hub_same w w1" using same_publish_local [of w hf snd_fn th topic e] w1 by simp
  have ne: "l_slot l \<noteq> l_slot l'" if "ws_local_of w th = Some l" for l
    using run_tree_other [OF sl that l'] .
  show "h_inbox (w_hub w1) = h_inbox (w_hub w)"
    using w1 by (auto simp: publish_local_def run_tree_def split: option.splits prod.splits)
  show "h_slots_used (w_hub w1) = h_slots_used (w_hub w)"
    using same by (simp add: hub_same_def hub_view_def slot_view_def)
  show "h_interest (w_hub w1) ! l_slot l' = h_interest (w_hub w) ! l_slot l'"
    using w1 ne by (auto simp: publish_local_def run_tree_def split: option.splits prod.splits)
  have "slot_of w1 th = slot_of w th" using hub_same_slot_same [OF same] by (simp add: slot_same_def)
  then have "map_option fst (slot_of w1 th) = map_option fst (slot_of w th)" by simp
  then show "map_option l_slot (ws_local_of w1 th) \<noteq> Some (l_slot l')"
    using ne by (auto simp: slot_of_def option.map_comp comp_def)
qed

lemma publish_delivers:
  assumes ok: "hub_ok w qs es" and l': "ws_local_of w th' = Some l'" "th \<noteq> th'"
    and hit: "ws_interest_matches (h_interest (w_hub w) ! l_slot l') (ws_interest_build hf topic)"
    and c: "h_inbox (w_hub w) ! l_slot l' = Some c" and room: "length c < TOPIC_HUB_MAILBOX_CAPACITY" "enq c"
    and w': "w' = fst (topic_hub_publish hf snd_fn enq w th topic data binary e)"
  shows "\<exists>p x. h_inbox (w_hub w') ! l_slot l' = Some (c @ [Publish p topic e]) \<and>
    w_payloads w' p = Some x \<and> p_data x = data \<and> p_binary x = binary"
proof -
  obtain w1 n where w1: "publish_local hf snd_fn w th topic e = (w1, n)" by fastforce
  have inv: "hub_inv w {#} (mset qs) (mset es)" and sl: "slots_ok w" using ok by (simp_all add: hub_ok_def)
  note o' = publish_local_other [OF sl l' w1]
  define f where "f = topic_hub_fanout_locked enq w1 (map_option l_slot (ws_local_of w1 th)) topic data binary
      e (ws_interest_build hf topic) False"
  have i: "l_slot l' < h_slots_used (w_hub w)" "l_slot l' < length (h_inbox (w_hub w))"
    using slots_okD(3) [OF sl, of th' "l_slot l'" "l_gen l'"] l' inv hub_wfD(1,3) [of w]
    by (auto simp: slot_of_def hub_inv_def)
  obtain p where p: "f_payload f = Some p" "carries data binary (f_world f) p"
      "h_inbox (w_hub (f_world f)) ! l_slot l' = Some (c @ [Publish p topic e])"
    using fanout_reaches [OF _ o'(4) _ _ room _ f_def] i o' c hit by auto
  have w'f: "w' = ws_payload_release (upd_hub (\<lambda>h. h\<lparr>h_posted := h_posted h + of_nat (f_posted f),
      h_skipped := h_skipped h + of_nat (f_skipped f), h_dropped := h_dropped h + of_nat (f_dropped f)\<rparr>) (f_world f)) p"
    by (simp add: w' topic_hub_publish_def w1 f_def [symmetric] Let_def release_base_def p(1))
  have box: "h_inbox (w_hub w') ! l_slot l' = Some (c @ [Publish p topic e])"
    using p(3) by (simp add: w'f payload_release_frame)
  have cw: "carries data binary w' p" unfolding w'f by (rule carries_release) (use p(2) in simp)
  have inv': "hub_inv w' {#} (mset qs) (mset es)" unfolding w' by (rule inv_publish [OF inv])
  have "length (h_inbox (w_hub w')) = length (h_inbox (w_hub w))"
    using inv inv' by (simp add: hub_inv_def hub_wf_def)
  then have "h_inbox (w_hub w') ! l_slot l' \<in> set (h_inbox (w_hub w'))" using i(2) by simp
  then have "p \<in># payload_owners w' + {#}" unfolding box by (force simp: payload_owners_def)
  moreover have "rc_ok p_refs (w_payloads w') (payload_owners w' + {#})"
    using inv' by (simp add: hub_inv_def hub_refs_def)
  ultimately obtain x where "w_payloads w' p = Some x" using payload_rc.live by blast
  then show ?thesis using box cw by (auto simp: carries_def)
qed

end
