(* ===== verification/Topic_Hub_Props.thy ===== *)
theory Topic_Hub_Props
  imports Topic_Fanout
begin

text \<open>
  The properties of the hub, and the states that witness them: two attached workers, the
  second with a subscriber, and a publish from the first.
\<close>

section \<open>A hub with two workers\<close>

lemma claim_at:
  assumes "i < TOPIC_HUB_MAX_WORKERS" "\<And>j. j < i \<Longrightarrow> h_taken h ! j" "\<not> h_taken h ! i"
  shows "List.find (\<lambda>i. \<not> h_taken h ! i) [0..<TOPIC_HUB_MAX_WORKERS] = Some i"
proof -
  have "[0..<TOPIC_HUB_MAX_WORKERS] = [0..<i] @ i # [i + 1..<TOPIC_HUB_MAX_WORKERS]"
    using assms(1) by (metis add.left_neutral le_add_diff_inverse less_imp_le_nat upt_add_eq_append upt_conv_Cons
        Suc_eq_plus1 zero_le)
  moreover have "List.find (\<lambda>i. \<not> h_taken h ! i) ([0..<i] @ i # xs) = Some i" for xs
  proof -
    have "List.find (\<lambda>i. \<not> h_taken h ! i) (ys @ i # xs) = Some i" if "\<forall>j\<in>set ys. h_taken h ! j" for ys
      using that assms(3) by (induction ys) auto
    then show ?thesis using assms(2) by simp
  qed
  ultimately show ?thesis by simp
qed

definition demo_two :: hub_world where
  "demo_two = fst (topic_hub_attach True (fst (topic_hub_attach True (hub_start 2) 0)) 1)"

definition demo_sub :: "ws_topic_tree \<Rightarrow> ws_topic_tree" where
  "demo_sub t = fst (ws_topic_subscribe (\<lambda>_. 7) (ws_session_open t 1) 0 ''a/#'' 0)"

definition demo_hub :: hub_world where
  "demo_hub = fst (run_tree demo_two 1 (the (ws_local_of demo_two 1)) (\<lambda>t. (demo_sub t, ())))"

lemma demo_two_eval:
  "length (w_locals demo_two) = 2" "ws_local_of demo_two 0 \<noteq> None"
  "ws_local_of demo_two 1 = Some \<lparr>l_slot = 1, l_gen = 1, l_tree = ws_topic_tree_create None [], l_retry = [],
     l_interval = 0, l_timer = False, l_armed = False\<rparr>"
  "h_inbox (w_hub demo_two) ! 1 = Some []"
  "h_interest (w_hub demo_two) ! 1 = Some (replicate WS_INTEREST_BUCKETS 0)"
  "length (h_interest (w_hub demo_two)) = TOPIC_HUB_MAX_WORKERS"
proof -
  have m: "TOPIC_HUB_MAX_WORKERS > 1" by (simp add: TOPIC_HUB_MAX_WORKERS_def)
  define w1 where "w1 = fst (topic_hub_attach True (hub_start 2) 0)"
  have f0: "List.find (\<lambda>i. \<not> h_taken (w_hub (hub_start 2)) ! i) [0..<TOPIC_HUB_MAX_WORKERS] = Some 0"
    using m by (intro claim_at) (simp_all add: hub_start_def topic_hub_create_def)
  have w1: "w_locals w1 = [Some \<lparr>l_slot = 0, l_gen = 1, l_tree = ws_topic_tree_create None [], l_retry = [],
      l_interval = 0, l_timer = False, l_armed = False\<rparr>, None]"
    "h_taken (w_hub w1) = (replicate TOPIC_HUB_MAX_WORKERS False)[0 := True]"
    "h_gen (w_hub w1) = (replicate TOPIC_HUB_MAX_WORKERS 0)[0 := 1]"
    "length (h_inbox (w_hub w1)) = TOPIC_HUB_MAX_WORKERS" "length (h_interest (w_hub w1)) = TOPIC_HUB_MAX_WORKERS"
    using f0 m
    by (simp_all add: w1_def topic_hub_attach_def claim_slot_def ws_local_of_def)
      (simp_all add: hub_start_def topic_hub_create_def numeral_2_eq_2)
  have f1: "List.find (\<lambda>i. \<not> h_taken (w_hub w1) ! i) [0..<TOPIC_HUB_MAX_WORKERS] = Some 1"
    using m by (intro claim_at) (simp_all add: w1)
  have d2: "demo_two = fst (topic_hub_attach True w1 1)" by (simp only: demo_two_def w1_def)
  show "length (w_locals demo_two) = 2" "ws_local_of demo_two 0 \<noteq> None"
    "ws_local_of demo_two 1 = Some \<lparr>l_slot = 1, l_gen = 1, l_tree = ws_topic_tree_create None [], l_retry = [],
       l_interval = 0, l_timer = False, l_armed = False\<rparr>"
    "h_inbox (w_hub demo_two) ! 1 = Some []"
    "h_interest (w_hub demo_two) ! 1 = Some (replicate WS_INTEREST_BUCKETS 0)"
    "length (h_interest (w_hub demo_two)) = TOPIC_HUB_MAX_WORKERS"
    using f1 m by (simp_all add: d2 topic_hub_attach_def claim_slot_def ws_local_of_def w1)
qed

lemma attach_length: "length (w_locals (fst (topic_hub_attach mb w th))) = length (w_locals w)"
  by (simp add: topic_hub_attach_def split: option.splits prod.splits)

lemma demo_two_reach: "hub_reach hf demo_two [] []"
proof -
  let ?w = "fst (topic_hub_attach True (hub_start 2) 0)"
  have "hub_reach hf ?w [] []"
    by (rule hub_reach.attach [OF hub_reach.start _ prod.collapse [symmetric]]) (simp add: hub_start_def)
  moreover have "1 < length (w_locals ?w)" by (simp add: attach_length) (simp add: hub_start_def)
  ultimately show ?thesis
    unfolding demo_two_def by (rule hub_reach.attach [OF _ _ prod.collapse [symmetric]])
qed

text \<open>A tree operation of an attached thread works on the tree with the slot's counters.\<close>

lemma run_tree_slot:
  assumes "ws_local_of w th = Some l" "l_slot l < length (h_interest (w_hub w))" "run_tree w th l f = (w', r)"
  shows "\<exists>l'. ws_local_of w' th = Some l' \<and> l_slot l' = l_slot l \<and> slot_tree w' l' = fst (f (slot_tree w l)) \<and>
    h_interest (w_hub w') ! l_slot l = t_hub (fst (f (slot_tree w l))) \<and> h_inbox (w_hub w') = h_inbox (w_hub w)"
proof -
  obtain t where t: "f (slot_tree w l) = (t, r)" using assms(3) by (auto simp: run_tree_def split: prod.splits)
  then have w': "w' = w\<lparr>w_hub := (w_hub w)\<lparr>h_interest := (h_interest (w_hub w))[l_slot l := t_hub t]\<rparr>,
      w_locals := (w_locals w)[th := Some (l\<lparr>l_tree := t\<lparr>t_hub := None\<rparr>\<rparr>)]\<rparr>"
    using assms(3) by (simp add: run_tree_def)
  have "th < length (w_locals w)" using assms(1) by (simp add: ws_local_of_def split: if_splits)
  then show ?thesis
    using assms(2) t by (intro exI [of _ "l\<lparr>l_tree := t\<lparr>t_hub := None\<rparr>\<rparr>"])
      (simp add: w' ws_local_of_def slot_tree_def)
qed

lemma demo_hub_eval:
  "\<exists>l. ws_local_of demo_hub 1 = Some l \<and> l_slot l = 1 \<and> h_inbox (w_hub demo_hub) ! 1 = Some [] \<and>
     slot_tree demo_hub l = demo_sub (ws_topic_tree_create (Some (replicate WS_INTEREST_BUCKETS 0)) [])"
proof -
  obtain l where l: "ws_local_of demo_two 1 = Some l" "l_slot l = 1"
      "slot_tree demo_two l = ws_topic_tree_create (Some (replicate WS_INTEREST_BUCKETS 0)) []"
    using demo_two_eval(3,5) by (simp add: slot_tree_def ws_topic_tree_create_def)
  have "run_tree demo_two 1 l (\<lambda>t. (demo_sub t, ())) = (demo_hub, ())"
    unfolding demo_hub_def l(1) option.sel by (simp add: prod_eq_iff)
  from run_tree_slot [OF l(1) _ this] show ?thesis
    using l(2,3) demo_two_eval(4,6) by (auto simp: TOPIC_HUB_MAX_WORKERS_def)
qed

lemma demo_hub_reach: "hub_reach hf demo_hub [] []"
  unfolding demo_hub_def by (rule hub_reach.tree_op [OF demo_two_reach]) (simp only: demo_two_eval(3) option.sel)

section \<open>A tick past the deadline\<close>

definition entry_flags :: "retry_entry \<Rightarrow> u64 \<times> bool \<times> bool" where
  "entry_flags e = (e_deadline e, e_waiter e, e_abandoned e)"

lemma flags_target_fold: "entry_flags (rt_entry (fold (retry_target_step enq) rs s)) = entry_flags (rt_entry s)"
proof (induction rs arbitrary: s)
  case (Cons r rs)
  have "entry_flags (rt_entry (retry_target_step enq r s)) = entry_flags (rt_entry s)"
    by (simp add: retry_target_step_def Let_def entry_flags_def split: prod.splits bool.splits)
  then show ?case using Cons.IH by simp
qed simp

lemma entries_target_fold: "w_entries (rt_world (fold (retry_target_step enq) rs s)) = w_entries (rt_world s)"
proof (induction rs arbitrary: s)
  case (Cons r rs)
  have "w_entries (rt_world (retry_target_step enq r s)) = w_entries (rt_world s)"
    by (simp add: retry_target_step_def Let_def payload_release_frame ws_payload_retain_def
        split: prod.splits bool.splits option.splits)
  then show ?case using Cons.IH by simp
qed simp

lemma flags_entry_step:
  "map_option entry_flags (w_entries (d_world (retry_entry_step enq now p d)) q) = map_option entry_flags (w_entries (d_world d) q)"
proof (cases "w_entries (d_world d) p")
  case (Some e)
  define s where "s = fold (retry_target_step enq) (e_pending e)
      \<lparr>rt_world = d_world d, rt_entry = e, rt_keep = [], rt_delivered = 0, rt_gone = 0\<rparr>"
  have "entry_flags ((rt_entry s)\<lparr>e_pending := rt_keep s\<rparr>) = entry_flags e"
    using flags_target_fold [of enq "e_pending e"] by (simp add: s_def entry_flags_def)
  moreover have "w_entries (d_world (retry_entry_step enq now p d)) =
      (w_entries (d_world d))(p \<mapsto> (rt_entry s)\<lparr>e_pending := rt_keep s\<rparr>)"
    using Some entries_target_fold [of enq "e_pending e"] by (simp add: retry_entry_step_def Let_def s_def)
  ultimately show ?thesis using Some by simp
qed (simp add: retry_entry_step_def)

lemma drain_all_due:
  assumes "\<forall>p\<in>set ps. \<exists>e. w_entries (d_world d) p = Some e \<and> e_deadline e \<le> now"
    and "d' = fold (retry_entry_step enq now) ps d"
  shows "d_live d' = d_live d \<and> d_resolved d' = rev ps @ d_resolved d \<and>
    (\<forall>q. map_option entry_flags (w_entries (d_world d') q) = map_option entry_flags (w_entries (d_world d) q))"
  using assms(1) unfolding assms(2)
proof (induction ps arbitrary: d)
  case (Cons p ps)
  let ?d = "retry_entry_step enq now p d"
  obtain e where e: "w_entries (d_world d) p = Some e" "e_deadline e \<le> now" using Cons.prems by auto
  have fl: "map_option entry_flags (w_entries (d_world ?d) q) = map_option entry_flags (w_entries (d_world d) q)" for q
    by (rule flags_entry_step)
  have "\<exists>e. w_entries (d_world ?d) q = Some e \<and> e_deadline e \<le> now" if q: "q \<in> set ps" for q
  proof -
    obtain e where "w_entries (d_world d) q = Some e" "e_deadline e \<le> now" using Cons.prems q by auto
    then show ?thesis using fl [of q] by (auto simp: entry_flags_def)
  qed
  moreover have "d_live ?d = d_live d" "d_resolved ?d = p # d_resolved d"
    using e by (simp_all add: retry_entry_step_def Let_def)
  ultimately show ?case using Cons.IH [of ?d] fl by simp
qed simp

lemma finish_fired:
  assumes "w_entries w p = Some e"
  shows "w_fired (retry_entry_finish w p) = w_fired w @ (if e_waiter e \<and> \<not> e_abandoned e then [p] else [])"
    "q \<noteq> p \<Longrightarrow> w_entries (retry_entry_finish w p) q = w_entries w q"
proof -
  have f: "w_fired (ws_payload_release u x) = w_fired u" "w_fired (retry_entry_release u y) = w_fired u"
      "q \<noteq> y \<Longrightarrow> w_entries (retry_entry_release u y) q = w_entries u q" for u x y
    by (simp_all add: ws_payload_release_def retry_entry_release_def split: option.splits)
  show "w_fired (retry_entry_finish w p) = w_fired w @ (if e_waiter e \<and> \<not> e_abandoned e then [p] else [])"
    "q \<noteq> p \<Longrightarrow> w_entries (retry_entry_finish w p) q = w_entries w q"
    using assms by (simp_all add: retry_entry_finish_def Let_def f payload_release_frame)
qed

lemma finish_all_fired:
  assumes "distinct ps" "\<forall>p\<in>set ps. w_entries w p \<noteq> None"
  shows "set (w_fired w) \<subseteq> set (w_fired (fold (\<lambda>p w. retry_entry_finish w p) ps w)) \<and>
    (\<forall>p\<in>set ps. e_waiter (the (w_entries w p)) \<and> \<not> e_abandoned (the (w_entries w p)) \<longrightarrow>
       p \<in> set (w_fired (fold (\<lambda>p w. retry_entry_finish w p) ps w)))"
  using assms
proof (induction ps arbitrary: w)
  case (Cons p ps)
  then obtain e where e: "w_entries w p = Some e" by auto
  have same: "w_entries (retry_entry_finish w p) q = w_entries w q" if "q \<in> set ps" for q
    using that Cons.prems(1) by (intro finish_fired(2) [OF e]) auto
  have "set (w_fired w) \<subseteq> set (w_fired (retry_entry_finish w p))"
      "e_waiter e \<and> \<not> e_abandoned e \<Longrightarrow> p \<in> set (w_fired (retry_entry_finish w p))"
    by (simp_all add: finish_fired(1) [OF e])
  then show ?case using Cons.IH [of "retry_entry_finish w p"] Cons.prems same e by auto
qed simp

section \<open>Properties\<close>

text \<open>
  C10. Reference counting in the hub is exact in every reachable state, however calls of
  different threads interleave: nothing is ever used after it was freed, a payload's
  counter is the number of mailbox commands and parked entries that carry it, a query's
  the number of commands that carry it plus the askers parked on it, an entry's the
  queues that hold it plus the senders parked on it, and an object with no owner is freed.
\<close>

theorem hub_refcounts_exact:
  assumes "hub_reach hf w qs es"
  shows "\<not> w_fault w \<and>
    (\<forall>p. map_option p_refs (w_payloads w p) = rc_of (payload_owners w) p) \<and>
    (\<forall>q. map_option q_refs (w_queries w q) = rc_of (query_owners w + mset qs) q) \<and>
    (\<forall>p. map_option e_refs (w_entries w p) = rc_of (mset (queued w) + mset es) p)"
  using hub_okD(1) [OF hub_reach_ok [OF assms]] by (simp add: hub_inv_def hub_refs_def rc_ok_def)

theorem hub_refcounts_exact_witness:
  "\<not> w_fault (fst (topic_hub_publish (\<lambda>_. 7) (\<lambda>_. (True, [])) (\<lambda>_. True) demo_hub 0 ''a/b'' ''x'' False 0))"
  using hub_refcounts_exact [OF hub_reach.publish [OF demo_hub_reach]] by blast



text \<open>
  C12. The reliable send loses count of nothing: in every reachable state the targets ever
  parked are exactly those delivered, gone, expired, dropped at shutdown, or still parked
  on some worker's outbound queue (counters modulo \<open>2^64\<close>).
\<close>

theorem retry_conservation:
  assumes "hub_reach hf w qs es"
  shows "h_retry_queued (w_hub w) = h_retry_delivered (w_hub w) + h_retry_gone (w_hub w)
    + h_retry_expired (w_hub w) + h_retry_shutdown (w_hub w)
    + of_nat (\<Sum>p\<leftarrow>queued w. length (e_pending (the (w_entries w p))))"
  using hub_okD(2) [OF hub_reach_ok [OF assms]] by (simp add: retry_balance_def retry_due_def pend_def [abs_def])

definition demo_parked :: hub_world where
  "demo_parked = fst (topic_hub_try_send (\<lambda>_. 7) (\<lambda>_. (True, [])) (\<lambda>_. False) True True 5 demo_hub 0
     ''a/b'' ''x'' False 0 100 50 8)"

theorem retry_conservation_witness:
  "h_retry_queued (w_hub demo_parked) = h_retry_delivered (w_hub demo_parked) + h_retry_gone (w_hub demo_parked)
    + h_retry_expired (w_hub demo_parked) + h_retry_shutdown (w_hub demo_parked)
    + of_nat (\<Sum>p\<leftarrow>queued demo_parked. length (e_pending (the (w_entries demo_parked p))))"
  unfolding demo_parked_def
  by (rule retry_conservation [OF hub_reach.try_send [OF demo_hub_reach prod.collapse [symmetric]]])

text \<open>
  C15. Slots: two attached threads never share a slot; an attached thread's slot is taken,
  has a mailbox, lies in the range the fan-out walks and carries the thread's generation;
  and a slot is taken only while some thread is attached to it.
\<close>

theorem hub_slots_exclusive:
  assumes "hub_reach hf w qs es"
  shows "(\<forall>th l. ws_local_of w th = Some l \<longrightarrow>
      h_taken (w_hub w) ! l_slot l \<and> h_inbox (w_hub w) ! l_slot l \<noteq> None \<and>
      l_slot l < h_slots_used (w_hub w) \<and> h_gen (w_hub w) ! l_slot l = l_gen l \<and>
      (\<forall>th' l'. ws_local_of w th' = Some l' \<longrightarrow> l_slot l' = l_slot l \<longrightarrow> th' = th)) \<and>
    (\<forall>i<TOPIC_HUB_MAX_WORKERS. h_taken (w_hub w) ! i \<longrightarrow> (\<exists>th l. ws_local_of w th = Some l \<and> l_slot l = i))"
proof -
  have sl: "slots_ok w" and wf: "hub_wf w"
    using hub_reach_ok [OF assms] by (simp_all add: hub_ok_def hub_inv_def)
  have so: "slot_of w th = Some (l_slot l, l_gen l)" if "ws_local_of w th = Some l" for th l
    using that by (simp add: slot_of_def)
  have "h_taken (w_hub w) ! l_slot l \<and> h_inbox (w_hub w) ! l_slot l \<noteq> None \<and>
      l_slot l < h_slots_used (w_hub w) \<and> h_gen (w_hub w) ! l_slot l = l_gen l \<and>
      (\<forall>th' l'. ws_local_of w th' = Some l' \<longrightarrow> l_slot l' = l_slot l \<longrightarrow> th' = th)"
    if l: "ws_local_of w th = Some l" for th l
    using slots_okD(1,2) [OF sl hub_wfD(3) [OF wf l]] slots_okD(3-5) [OF sl so [OF l]] so [OF l] so by metis
  moreover have "\<exists>th l. ws_local_of w th = Some l \<and> l_slot l = i"
    if "i < TOPIC_HUB_MAX_WORKERS" "h_taken (w_hub w) ! i" for i
    using slots_okD(2) [OF sl that(1)] that(2) by (auto simp: slot_of_def)
  ultimately show ?thesis by blast
qed

theorem hub_slots_exclusive_witness: "h_inbox (w_hub demo_hub) ! 1 \<noteq> None"
proof -
  obtain l where "ws_local_of demo_hub 1 = Some l" "l_slot l = 1" using demo_hub_eval by blast
  then show ?thesis using hub_slots_exclusive [OF demo_hub_reach] by metis
qed

text \<open>
  C11. A publish crosses workers: if another attached worker's tree, in any state it can
  reach, holds a filter that matches the topic, and that worker's mailbox is below its
  capacity and takes the element, then after the publish the command stands at the end
  of that mailbox and refers to a live payload with the published bytes.
\<close>

theorem publish_reaches_worker:
  assumes "hub_reach hf w qs es" "ws_local_of w th' = Some l'" "th \<noteq> th'"
    and "topic_reach hf (slot_tree w l')" "(s, f) \<in> subscriptions (slot_tree w l')" "topic_matches f topic"
    and "h_inbox (w_hub w) ! l_slot l' = Some c" "length c < TOPIC_HUB_MAILBOX_CAPACITY" "enq c"
    and "w' = fst (topic_hub_publish hf snd_fn enq w th topic data binary e)"
  shows "\<exists>p x. h_inbox (w_hub w') ! l_slot l' = Some (c @ [Publish p topic e]) \<and>
    w_payloads w' p = Some x \<and> p_data x = data \<and> p_binary x = binary"
proof -
  have "ws_interest_matches (h_interest (w_hub w) ! l_slot l') (ws_interest_build hf topic)"
    using interest_hit [OF assms(4-6)] by (simp add: slot_tree_def)
  then show ?thesis by (rule publish_delivers [OF hub_reach_ok [OF assms(1)] assms(2,3) _ assms(7-10)])
qed

lemma demo_sub_reach:
  "topic_reach (\<lambda>_. 7) (demo_sub (ws_topic_tree_create (Some (replicate WS_INTEREST_BUCKETS 0)) []))"
  "(0, ''a/#'') \<in> subscriptions (demo_sub (ws_topic_tree_create (Some (replicate WS_INTEREST_BUCKETS 0)) []))"
proof -
  let ?t = "demo_sub (ws_topic_tree_create (Some (replicate WS_INTEREST_BUCKETS 0)) [])"
  show "topic_reach (\<lambda>_. 7) ?t"
    unfolding demo_sub_def by (intro topic_reach.intros) (simp add: ws_session_open_def)
  have "length (t_sessions ?t) = 1" "''a/#'' \<in> set (ws_topic_list (t_sessions ?t ! 0))" by code_simp+
  then show "(0, ''a/#'') \<in> subscriptions ?t" by (simp add: subscriptions_def)
qed

theorem publish_reaches_worker_witness:
  "\<exists>p (x :: ws_payload). h_inbox (w_hub (fst (topic_hub_publish (\<lambda>_. 7) (\<lambda>_. (True, [])) (\<lambda>_. True) demo_hub 0 ''a/b'' ''x'' False 0))) ! 1
      = Some [Publish p ''a/b'' 0] \<and> p_data x = ''x''"
proof -
  obtain l where l: "ws_local_of demo_hub 1 = Some l" "l_slot l = 1" "h_inbox (w_hub demo_hub) ! 1 = Some []"
      "slot_tree demo_hub l = demo_sub (ws_topic_tree_create (Some (replicate WS_INTEREST_BUCKETS 0)) [])"
    using demo_hub_eval by blast
  have cap: "length ([] :: ws_cmd list) < TOPIC_HUB_MAILBOX_CAPACITY" by (simp add: TOPIC_HUB_MAILBOX_CAPACITY_def)
  have "topic_matches ''a/#'' ''a/b''" by code_simp
  note r = publish_reaches_worker [OF demo_hub_reach l(1), where th = 0, OF _ demo_sub_reach [folded l(4)] this,
      where enq = "\<lambda>_. True" and c = "[]", OF _ _ _ _ refl, unfolded l(2), OF _ l(3)]
  obtain p and x :: ws_payload where "h_inbox (w_hub (fst (topic_hub_publish (\<lambda>_. 7) (\<lambda>_. (True, [])) (\<lambda>_. True) demo_hub 0
      ''a/b'' ''x'' False 0))) ! 1 = Some ([] @ [Publish p ''a/b'' 0])" "p_data x = ''x''"
    using r [OF zero_neq_one cap TrueI, of "\<lambda>_. (True, [])" "''x''" False 0] by blast
  then show ?thesis by (auto simp only: append_Nil)
qed


text \<open>
  C13. No parked send waits past its deadline: the first tick of its thread at or after the
  deadlines of the queued entries empties the queue, fires every waiter that is still
  there, and stops the timer.
\<close>

theorem retry_tick_settles:
  assumes "hub_reach hf w qs es" "ws_local_of w th = Some l"
    and "\<forall>p\<in>set (l_retry l). e_deadline (the (w_entries w p)) \<le> now"
  shows "\<exists>l'. ws_local_of (topic_hub_retry_tick False enq now w th) th = Some l' \<and> l_retry l' = [] \<and>
    \<not> (l_armed l' \<and> l_timer l') \<and>
    (\<forall>p\<in>set (l_retry l). e_waiter (the (w_entries w p)) \<and> \<not> e_abandoned (the (w_entries w p)) \<longrightarrow>
       p \<in> set (w_fired (topic_hub_retry_tick False enq now w th)))"
proof -
  have inv: "hub_inv w {#} (mset qs) (mset es)" by (rule hub_okD(1) [OF hub_reach_ok [OF assms(1)]])
  note dq = distinct_queue [OF inv assms(2)]
  have live: "w_entries w p \<noteq> None" if "p \<in> set (l_retry l)" for p
    using entry_live [OF inv, of p] that dq(2) by auto
  let ?d0 = "\<lparr>d_world = w, d_live = [], d_resolved = [], d_delivered = 0, d_gone = 0, d_expired = 0\<rparr>"
  define d where "d = fold (retry_entry_step enq now) (l_retry l) ?d0"
  have "\<forall>p\<in>set (l_retry l). \<exists>e. w_entries (d_world ?d0) p = Some e \<and> e_deadline e \<le> now"
    using assms(3) live by force
  from drain_all_due [OF this d_def]
  have d: "d_live d = []" "d_resolved d = rev (l_retry l)"
      "\<And>q. map_option entry_flags (w_entries (d_world d) q) = map_option entry_flags (w_entries w q)" by auto
  have wl: "w_locals (d_world d) = w_locals w" using entry_locals [of enq now "l_retry l"] by (simp add: d_def)
  define w1 where "w1 = put_local (d_world d) th (l\<lparr>l_retry := []\<rparr>)"
  define w2 where "w2 = fold (\<lambda>p w. retry_entry_finish w p) (rev (l_retry l)) w1"
  define w3 where "w3 = topic_hub_retry_drain enq now w th"
  have r: "w_locals w3 = w_locals w1" "w_fired w3 = w_fired w2"
    using assms(2) d finish_all_frame [of "rev (l_retry l)" w1]
    by (simp_all add: w3_def topic_hub_retry_drain_def Let_def d_def [symmetric] w1_def [symmetric] w2_def)
  have th: "th < length (w_locals w)" using assms(2) by (simp add: ws_local_of_def split: if_splits)
  have l3: "ws_local_of w3 th = Some (l\<lparr>l_retry := []\<rparr>)" using r(1) th by (simp add: ws_local_of_def w1_def wl)
  have fl: "map_option entry_flags (w_entries w1 p) = map_option entry_flags (w_entries w p)" for p
    using d(3) by (simp add: w1_def)
  have "p \<in> set (w_fired w3)"
    if p: "p \<in> set (l_retry l)" "e_waiter (the (w_entries w p))" "\<not> e_abandoned (the (w_entries w p))" for p
  proof -
    have l1: "\<forall>p\<in>set (rev (l_retry l)). w_entries w1 p \<noteq> None" using live fl by (metis option.map_disc_iff set_rev)
    obtain e where e: "w_entries w p = Some e" using live p(1) by auto
    then obtain e1 where "w_entries w1 p = Some e1" "entry_flags e1 = entry_flags e" using fl [of p] by auto
    then show ?thesis
      using finish_all_fired [OF _ l1] dq(1) p e r(2) by (auto simp: w2_def entry_flags_def)
  qed
  moreover have "topic_hub_retry_tick False enq now w th =
      (if l_timer l \<and> l_armed l then put_local w3 th (l\<lparr>l_retry := [], l_armed := False\<rparr>) else w3)"
    using assms(2) l3 by (simp add: topic_hub_retry_tick_def w3_def [symmetric])
  ultimately show ?thesis using l3 th r(1) wl by (auto simp: ws_local_of_def w1_def)
qed

lemma demo_parked_local: "\<exists>l. ws_local_of demo_parked 0 = Some l"
proof -
  have "slot_of demo_two 0 \<noteq> None" using demo_two_eval(2) by (simp add: slot_of_def)
  moreover have "hub_same demo_two demo_hub"
    unfolding demo_hub_def by (rule same_run_tree) (simp only: demo_two_eval(3) option.sel)
  then have "slot_same demo_two demo_hub" by (rule hub_same_slot_same)
  moreover have "slot_same demo_hub demo_parked"
    unfolding demo_parked_def by (rule slot_same_try_send [OF prod.collapse [symmetric]])
  ultimately have "slot_of demo_parked 0 \<noteq> None" by (simp add: slot_same_def)
  then show ?thesis by (simp add: slot_of_def)
qed

theorem retry_tick_settles_witness:
  "\<exists>l'. ws_local_of (topic_hub_retry_tick False (\<lambda>_. False) (- 1) demo_parked 0) 0 = Some l' \<and> l_retry l' = []"
proof -
  obtain l where l: "ws_local_of demo_parked 0 = Some l" using demo_parked_local by blast
  have reach: "hub_reach (\<lambda>_. 7) demo_parked [] []"
    unfolding demo_parked_def by (rule hub_reach.try_send [OF demo_hub_reach prod.collapse [symmetric]])
  have "\<forall>p\<in>set (l_retry l). e_deadline (the (w_entries demo_parked p)) \<le> - 1" by simp
  from retry_tick_settles [OF reach l this] show ?thesis by blast
qed

end
