(* ===== verification/Wire_Digits.thy ===== *)
theory Wire_Digits
  imports Wire_Prelude
begin

text \<open>
  Decimal and hexadecimal numerals, as the text protocols print and scan them: the
  canonical printer of a number in a base, the value of a digit string, and the guarded
  64-bit scanning loop that recurs in the sources.
\<close>

section \<open>Digits in a base\<close>

definition digit_char :: "nat \<Rightarrow> char" where
  "digit_char d = (if d < 10 then char_of (48 + d) else char_of (87 + d))"

definition digit_of :: "char \<Rightarrow> nat option" where
  "digit_of c =
     (if 48 \<le> code c \<and> code c \<le> 57 then Some (code c - 48)
      else if 97 \<le> code c \<and> code c \<le> 102 then Some (code c - 87)
      else if 65 \<le> code c \<and> code c \<le> 70 then Some (code c - 55)
      else None)"

function numeral_in :: "nat \<Rightarrow> nat \<Rightarrow> string" where
  "numeral_in b n = (if n < b \<or> b < 2 then [digit_char n] else numeral_in b (n div b) @ [digit_char (n mod b)])"
  by auto
termination by (relation "measure snd") (auto intro: div_less_dividend)

declare numeral_in.simps [simp del]

abbreviation dec :: "nat \<Rightarrow> string" where "dec \<equiv> numeral_in 10"
abbreviation hex :: "nat \<Rightarrow> string" where "hex \<equiv> numeral_in 16"

definition dec_val :: "string \<Rightarrow> nat" where
  "dec_val s = foldl (\<lambda>a c. a * 10 + digit_val c) 0 s"

lemma code_of_small [simp]: "n < 256 \<Longrightarrow> code (char_of n) = n"
  by simp

lemma ascii_lower_low:
  assumes "ascii_lower c = d" "code d < 97"
  shows "c = d"
proof (rule ccontr)
  assume "c \<noteq> d"
  then have up: "65 \<le> code c \<and> code c \<le> 90" "char_of (code c + 32) = d"
    using assms(1) by (auto simp: ascii_lower_def split: if_splits)
  have "code (char_of (code c + 32)) = code c + 32" using up(1) by (intro code_of_small) linarith
  then show False using up(1) assms(2) unfolding up(2) by linarith
qed

lemma is_digit_digit_char [simp]: "d < 10 \<Longrightarrow> is_digit (digit_char d)" "d < 10 \<Longrightarrow> digit_val (digit_char d) = d"
  by (simp_all add: is_digit_def digit_char_def digit_val_def)

lemma digit_val_less: "is_digit c \<Longrightarrow> digit_val c < 10"
  by (auto simp: is_digit_def digit_val_def)

lemma dec_nonempty [simp]: "numeral_in b n \<noteq> []"
  by (subst numeral_in.simps) simp

lemma dec_digits: "\<forall>c\<in>set (dec n). is_digit c"
proof (induction n rule: less_induct)
  case (less n)
  have "\<forall>c\<in>set (dec (n div 10)). is_digit c" if "n \<ge> 10" using that by (intro less.IH) simp
  then show ?case by (subst numeral_in.simps) auto
qed

lemma dec_val_snoc: "dec_val (s @ [c]) = dec_val s * 10 + digit_val c"
  by (simp add: dec_val_def)

lemma dec_val_dec [simp]: "dec_val (dec n) = n"
proof (induction n rule: less_induct)
  case (less n)
  show ?case
  proof (cases "n < 10")
    case True
    then show ?thesis by (subst numeral_in.simps) (simp add: dec_val_def)
  next
    case False
    then have "dec_val (dec (n div 10)) = n div 10" by (intro less.IH) simp
    with False show ?thesis by (subst numeral_in.simps) (simp add: dec_val_snoc)
  qed
qed

section \<open>The guarded 64-bit scan\<close>

text \<open>\<open>while (p < end && '0' <= *p && *p <= '9') { if (v > UINT64_MAX / 10) fail; v = v * 10 + digit; }\<close>\<close>

fun scan_u64 :: "u64 \<Rightarrow> bool \<Rightarrow> string \<Rightarrow> (u64 \<times> bool \<times> string) option" where
  "scan_u64 v seen [] = Some (v, seen, [])"
| "scan_u64 v seen (c # cs) =
     (if is_digit c
      then (if v > (- 1) div 10 then None else scan_u64 (v * 10 + of_nat (digit_val c)) True cs)
      else Some (v, seen, c # cs))"

lemma unat_u64: "unat (x :: u64) < 18446744073709551616"
  by (rule order.strict_trans2 [OF unsigned_less]) simp

lemma max_div_10: "unat ((- 1 :: u64) div 10) = 1844674407370955161"
  by (simp add: unat_div unsigned_minus_1_eq_mask mask_eq_exp_minus_1)

lemma scan_u64_digits:
  assumes "\<forall>c\<in>set ds. is_digit c" "rest = [] \<or> \<not> is_digit (hd rest)"
    and "foldl (\<lambda>a c. a * 10 + digit_val c) (unat v) ds < 2 ^ 64"
  shows "scan_u64 v seen (ds @ rest) =
    Some (of_nat (foldl (\<lambda>a c. a * 10 + digit_val c) (unat v) ds), seen \<or> ds \<noteq> [], rest)"
  using assms
proof (induction ds arbitrary: v seen)
  case Nil
  then show ?case by (cases rest) auto
next
  case (Cons c ds)
  have mono: "a \<le> foldl (\<lambda>a c. a * 10 + digit_val c) a xs" for a xs
  proof (induction xs arbitrary: a)
    case (Cons x xs)
    have "a \<le> a * 10 + digit_val x" by simp
    also have "\<dots> \<le> foldl (\<lambda>a c. a * 10 + digit_val c) (a * 10 + digit_val x) xs" by (rule Cons.IH)
    finally show ?case by simp
  qed simp
  have lt: "unat v * 10 + digit_val c < 2 ^ 64"
    using Cons.prems(3) mono [of "unat v * 10 + digit_val c" ds] by simp
  then have nv: "unat (v * 10 + of_nat (digit_val c)) = unat v * 10 + digit_val c"
    using digit_val_less [of c] Cons.prems(1) by (simp add: unat_word_ariths unat_of_nat)
  have "unat v \<le> unat ((- 1 :: u64) div 10)" using lt by (simp add: max_div_10)
  then have "\<not> v > (- 1) div 10" by (simp add: word_less_nat_alt)
  then show ?case
    using Cons.IH [of "v * 10 + of_nat (digit_val c)" True] Cons.prems nv by simp
qed

lemma scan_u64_dec:
  assumes "n < 2 ^ 64" "rest = [] \<or> \<not> is_digit (hd rest)"
  shows "scan_u64 0 False (dec n @ rest) = Some (of_nat n, True, rest)"
  using scan_u64_digits [OF dec_digits assms(2), of 0 n False] assms(1) dec_val_dec [of n]
  by (simp add: dec_val_def)

end
