(* ===== verification/Http_Range.thy ===== *)
theory Http_Range
  imports Wire_Digits
begin

text \<open>
  The single-range parser of \<open>src/http_range.c\<close>.  The out-parameters are arguments of the
  \<open>OK\<close> result; a \<open>NULL\<close> header is \<^const>\<open>None\<close>.
\<close>

datatype http_range_result =
  RANGE_ABSENT | RANGE_OK u64 u64 | RANGE_NOT_SATISFIABLE | RANGE_UNSUPPORTED

text \<open>The tail of \<open>http_range_parse\<close>, once the two numbers are read.\<close>

definition range_resolve :: "bool \<Rightarrow> u64 \<Rightarrow> bool \<Rightarrow> u64 \<Rightarrow> u64 \<Rightarrow> http_range_result" where
  "range_resolve suffix_form first last_set last_pos content_length =
     (if content_length = 0 then RANGE_NOT_SATISFIABLE
      else if suffix_form
      then (if \<not> last_set \<or> last_pos = 0 then RANGE_UNSUPPORTED
            else RANGE_OK (if last_pos \<ge> content_length then 0 else content_length - last_pos) (content_length - 1))
      else if first \<ge> content_length then RANGE_NOT_SATISFIABLE
      else if \<not> last_set then RANGE_OK first (content_length - 1)
      else if last_pos < first then RANGE_UNSUPPORTED
      else RANGE_OK first (if last_pos \<ge> content_length then content_length - 1 else last_pos))"

definition range_last :: "bool \<Rightarrow> u64 \<Rightarrow> string \<Rightarrow> u64 \<Rightarrow> http_range_result" where
  "range_last suffix_form first p content_length =
     (case scan_u64 0 False p of None \<Rightarrow> RANGE_UNSUPPORTED
      | Some (last_pos, last_set, q) \<Rightarrow>
          if dropWhile is_ws q \<noteq> [] then RANGE_UNSUPPORTED
          else range_resolve suffix_form first last_set last_pos content_length)"

definition http_range_parse :: "string option \<Rightarrow> u64 \<Rightarrow> http_range_result" where
  "http_range_parse header content_length =
     (case header of None \<Rightarrow> RANGE_ABSENT
      | Some h \<Rightarrow>
          if h = [] then RANGE_ABSENT
          else if length h < 7 \<or> take 6 h \<noteq> ''bytes='' then RANGE_UNSUPPORTED
          else
            (let p = dropWhile is_ws (drop 6 h)
             in if CHR '','' \<in> set p \<or> p = [] then RANGE_UNSUPPORTED
                else if hd p = CHR ''-'' then range_last True 0 (tl p) content_length
                else (case scan_u64 0 False p of None \<Rightarrow> RANGE_UNSUPPORTED
                  | Some (first, first_set, q) \<Rightarrow>
                      if \<not> first_set \<or> q = [] \<or> hd q \<noteq> CHR ''-'' then RANGE_UNSUPPORTED
                      else range_last False first (tl q) content_length)))"

section \<open>Bounds\<close>

lemma range_resolve_bounds:
  assumes "range_resolve sf f ls l n = RANGE_OK a b"
  shows "a \<le> b" "b < n"
proof -
  have n: "n \<noteq> 0" using assms by (auto simp: range_resolve_def)
  have pos: "0 < unat x" if "x \<noteq> 0" for x :: u64 using that by (simp add: unat_gt_0)
  have pred: "n - 1 < n" "x < n \<Longrightarrow> x \<le> n - 1" for x
    using n pos [OF n] by (auto simp: word_le_nat_alt word_less_nat_alt unat_minus_one)
  have "n - l \<le> n - 1" if "l \<noteq> 0" "\<not> l \<ge> n"
    using that n pos [OF n] pos [OF that(1)]
    by (simp add: word_le_nat_alt word_less_nat_alt unat_minus_one unat_sub not_le)
  then show "a \<le> b" "b < n"
    using assms pred by (auto simp: range_resolve_def split: if_splits)
qed

text \<open>
  C17. A satisfiable range always lies inside the resource: whatever the header and the
  length, \<open>OK first last\<close> has \<open>first <= last < content_length\<close>, so the caller never
  serves bytes past the end and the length \<open>last - first + 1\<close> cannot wrap.
\<close>

theorem http_range_bounds:
  assumes "http_range_parse header n = RANGE_OK a b"
  shows "a \<le> b \<and> b < n \<and> unat (b - a + 1) = unat b - unat a + 1"
proof -
  obtain sf f ls l where "range_resolve sf f ls l n = RANGE_OK a b"
    using assms by (auto simp: http_range_parse_def range_last_def Let_def split: option.splits if_splits prod.splits)
  note r = range_resolve_bounds [OF this]
  have "unat (b - a) = unat b - unat a" using r(1) by (simp add: unat_sub word_le_nat_alt)
  moreover have "unat b < 2 ^ 64 - 1" using r(2) unat_u64 [of n] by (simp add: word_less_nat_alt)
  ultimately show ?thesis using r by (simp add: unat_word_ariths)
qed

theorem http_range_bounds_witness:
  "http_range_parse (Some ''bytes=-500'') 200 = RANGE_OK 0 199 \<and> (0 :: u64) \<le> 199 \<and> (199 :: u64) < 200"
proof -
  have "http_range_parse (Some ''bytes=-500'') 200 = RANGE_OK 0 199" by code_simp
  then show ?thesis using http_range_bounds [of "Some ''bytes=-500''" 200 0 199] by simp
qed

section \<open>Round trip\<close>

lemma dec_no_special: "CHR '','' \<notin> set (dec n)" "CHR ''-'' \<notin> set (dec n)" "is_ws c \<Longrightarrow> c \<notin> set (dec n)"
  using dec_digits [of n] by (auto simp: is_digit_def is_ws_def)

lemma dec_head: "dec n \<noteq> [] \<and> is_digit (hd (dec n))"
  using dec_digits [of n] by simp



end
