(* ===== verification/Http_Params.thy ===== *)
theory Http_Params
  imports Wire_Digits
begin

text \<open>
  Header parameters and extended values: percent coding (\<open>src/http_rfc5987.c\<close>), the
  parameter iterator (\<open>src/http_param_parse.c\<close>), the \<open>Content-Disposition\<close> writer of
  \<open>src/http_send_file.c\<close> and the part-header readers of
  \<open>src/formats/multipart_processor.c\<close>.  A NUL-terminated C string is the list of the
  characters before its terminator.
\<close>

definition NUL :: char where
  "NUL = CHR 0x00"

text \<open>What a reader of a \<open>char *\<close> sees of a buffer that may hold a NUL.\<close>

definition c_string :: "string \<Rightarrow> string" where
  "c_string s = takeWhile (\<lambda>c. c \<noteq> NUL) s"

section \<open>Percent coding\<close>

definition is_unreserved_or_attr :: "char \<Rightarrow> bool" where
  "is_unreserved_or_attr c \<longleftrightarrow>
     (65 \<le> code c \<and> code c \<le> 90) \<or> (97 \<le> code c \<and> code c \<le> 122) \<or> (48 \<le> code c \<and> code c \<le> 57) \<or>
     c \<in> {CHR ''-'', CHR ''.'', CHR ''_'', CHR ''~''}"

definition hex_upper :: "nat \<Rightarrow> char" where
  "hex_upper d = ''0123456789ABCDEF'' ! d"

definition http_rfc5987_encode :: "string \<Rightarrow> string" where
  "http_rfc5987_encode src =
     concat (map (\<lambda>c. if is_unreserved_or_attr c then [c]
       else [CHR ''%'', hex_upper (code c div 16), hex_upper (code c mod 16)]) src)"

text \<open>The index test \<open>i + 2 < src_len\<close> says that two more characters follow; \<open>hex_digit\<close>
  of the source is \<^const>\<open>digit_of\<close> with \<open>-1\<close> read as \<^const>\<open>None\<close>.\<close>

fun http_rfc5987_decode :: "string \<Rightarrow> string" where
  "http_rfc5987_decode [] = []"
| "http_rfc5987_decode (c # a # b # rest) =
     (if c = CHR ''%'' \<and> digit_of a \<noteq> None \<and> digit_of b \<noteq> None
      then char_of (the (digit_of a) * 16 + the (digit_of b)) # http_rfc5987_decode rest
      else c # http_rfc5987_decode (a # b # rest))"
| "http_rfc5987_decode (c # rest) = c # http_rfc5987_decode rest"

section \<open>The parameter iterator\<close>

record http_param =
  hp_name :: string
  hp_value :: "string option"
  hp_quoted :: bool

definition skip_to_semi :: "string \<Rightarrow> string" where
  "skip_to_semi p = dropWhile (\<lambda>c. c \<noteq> CHR '';'') p"

text \<open>The value after the \<open>=\<close>, with the cursor behind it.\<close>

definition param_value :: "string \<Rightarrow> string \<times> bool \<times> string" where
  "param_value p =
     (if p \<noteq> [] \<and> hd p = CHR 0x22
      then (let rest = dropWhile (\<lambda>c. c \<noteq> CHR 0x22) (tl p)
            in (takeWhile (\<lambda>c. c \<noteq> CHR 0x22) (tl p), True, if rest = [] then rest else tl rest))
      else (takeWhile (\<lambda>c. c \<noteq> CHR '';'' \<and> \<not> is_ws c) p, False,
            dropWhile (\<lambda>c. c \<noteq> CHR '';'' \<and> \<not> is_ws c) p))"

definition is_name_char :: "char \<Rightarrow> bool" where
  "is_name_char c \<longleftrightarrow> c \<noteq> CHR ''='' \<and> c \<noteq> CHR '';'' \<and> \<not> is_ws c"

definition http_header_param_next :: "string \<Rightarrow> http_param option \<times> string" where
  "http_header_param_next cursor =
     (let p = dropWhile (\<lambda>c. c = CHR '';'' \<or> is_ws c) cursor
      in if p = [] then (None, p)
      else let name = takeWhile is_name_char p; p1 = dropWhile is_name_char p
      in if p1 = [] \<or> hd p1 \<noteq> CHR ''=''
      then (if name \<noteq> [] then Some \<lparr>hp_name = name, hp_value = None, hp_quoted = False\<rparr> else None,
            skip_to_semi p1)
      else case param_value (tl p1) of (v, q, p2) \<Rightarrow>
        (Some \<lparr>hp_name = name, hp_value = Some v, hp_quoted = q\<rparr>, skip_to_semi p2))"

lemma skip_to_semi_le: "length (skip_to_semi p) \<le> length p"
  by (simp add: skip_to_semi_def length_dropWhile_le)

lemma param_value_le: "param_value p = (v, q, r) \<Longrightarrow> length r \<le> length p"
  using length_dropWhile_le [of "\<lambda>c. c \<noteq> CHR 0x22" "tl p"]
    length_dropWhile_le [of "\<lambda>c. c \<noteq> CHR '';'' \<and> \<not> is_ws c" p]
  by (auto simp: param_value_def Let_def split: if_splits)

lemma param_next_progress:
  assumes "http_header_param_next s = (Some p, s')"
  shows "length s' < length s"
proof -
  define p0 where "p0 = dropWhile (\<lambda>c. c = CHR '';'' \<or> is_ws c) s"
  define name where "name = takeWhile is_name_char p0"
  define p1 where "p1 = dropWhile is_name_char p0"
  obtain v q p2 where pv: "param_value (tl p1) = (v, q, p2)" by (cases "param_value (tl p1)") auto
  have len: "length p0 \<le> length s" "length p0 = length name + length p1"
    by (simp_all add: p0_def name_def p1_def length_dropWhile_le flip: length_append)
  have res: "s' = skip_to_semi p1 \<and> name \<noteq> [] \<or> s' = skip_to_semi p2 \<and> p1 \<noteq> []"
    using assms pv
    by (auto simp: http_header_param_next_def Let_def p0_def [symmetric] name_def [symmetric] p1_def [symmetric]
        split: if_splits)
  have "length p2 \<le> length p1 - 1" using param_value_le [OF pv] by simp
  then show ?thesis
    using res len skip_to_semi_le [of p1] skip_to_semi_le [of p2]
    by (cases name; cases p1) auto
qed

text \<open>The loop \<open>while (http_header_param_next(&p, NULL, &param))\<close> of both callers, as the
  list of the parameters it visits.\<close>

function params_of :: "string \<Rightarrow> http_param list" where
  "params_of s = (case http_header_param_next s of (None, _) \<Rightarrow> [] | (Some p, s') \<Rightarrow> p # params_of s')"
  by auto
termination
  by (relation "measure length") (auto simp: param_next_progress [OF sym])

declare params_of.simps [simp del]

section \<open>Content-Disposition and Content-Type of a part\<close>

definition decode_rfc5987_value :: "string \<Rightarrow> string option" where
  "decode_rfc5987_value src =
     (let p = dropWhile (\<lambda>c. c \<noteq> CHR 0x27) src
      in if p = [] then None
      else let q = dropWhile (\<lambda>c. c \<noteq> CHR 0x27) (tl p)
      in if q = [] then None else Some (c_string (http_rfc5987_decode (tl q))))"

record part_head =
  ph_field_name :: "string option"
  ph_filename :: "string option"
  ph_content_type :: "string option"
  ph_charset :: "string option"

text \<open>The bytes \<open>MP_STRNDUP(param.value, param.value_len)\<close> copies; the value-less token has
  length 0.\<close>

definition param_bytes :: "http_param \<Rightarrow> string" where
  "param_bytes p = (case hp_value p of None \<Rightarrow> [] | Some v \<Rightarrow> v)"

definition disposition_param :: "part_head \<Rightarrow> http_param \<Rightarrow> part_head" where
  "disposition_param ph p =
     (if hp_name p = ''name'' then ph\<lparr>ph_field_name := Some (param_bytes p)\<rparr>
      else if hp_name p = ''filename'' then ph\<lparr>ph_filename := Some (param_bytes p)\<rparr>
      else if hp_name p = ''filename*'' then
        (case decode_rfc5987_value (param_bytes p) of
           None \<Rightarrow> ph | Some d \<Rightarrow> ph\<lparr>ph_filename := Some d\<rparr>)
      else ph)"

definition parse_content_disposition :: "part_head \<Rightarrow> string \<Rightarrow> part_head" where
  "parse_content_disposition ph value = foldl disposition_param ph (params_of (skip_to_semi value))"

definition parse_content_type :: "part_head \<Rightarrow> string \<Rightarrow> part_head" where
  "parse_content_type ph value =
     (let stop = (\<lambda>c. c \<noteq> CHR '';'' \<and> \<not> is_ws c);
          ph1 = ph\<lparr>ph_content_type := Some (takeWhile stop value)\<rparr>
      in case find (\<lambda>p. eq_ci (hp_name p) ''charset'') (params_of (dropWhile stop value)) of
           None \<Rightarrow> ph1 | Some p \<Rightarrow> ph1\<lparr>ph_charset := Some (param_bytes p)\<rparr>)"

definition has_path_traversal_or_nul :: "string option \<Rightarrow> bool" where
  "has_path_traversal_or_nul filename = (case filename of None \<Rightarrow> False | Some f \<Rightarrow>
     NUL \<in> set f \<or> sublist ''..'' f \<or>
     (f \<noteq> [] \<and> (hd f = CHR ''/'' \<or> hd f = CHR 0x5C)) \<or> (2 \<le> length f \<and> f ! 1 = CHR '':''))"

section \<open>The Content-Disposition writer\<close>

record http_send_file_options =
  so_attachment :: bool
  so_disposition_set :: bool
  so_download_name :: "string option"

definition ascii_clean :: "string \<Rightarrow> bool" where
  "ascii_clean dn \<longleftrightarrow> list_all (\<lambda>c. 32 \<le> code c \<and> code c < 127 \<and> c \<noteq> CHR 0x22 \<and> c \<noteq> CHR 0x5C) dn"

definition sf_build_content_disposition :: "http_send_file_options \<Rightarrow> string option" where
  "sf_build_content_disposition opts =
     (let is_attachment = so_attachment opts \<or>
            (so_download_name opts \<noteq> None \<and> \<not> so_disposition_set opts)
      in if \<not> is_attachment \<and> so_download_name opts = None then None
      else Some ((if is_attachment then ''attachment'' else ''inline'') @
        (case so_download_name opts of None \<Rightarrow> []
         | Some dn \<Rightarrow>
            if ascii_clean dn then ''; filename='' @ [CHR 0x22] @ dn @ [CHR 0x22]
            else ''; filename*=UTF-8'' @ [CHR 0x27, CHR 0x27] @ http_rfc5987_encode dn)))"

section \<open>Properties\<close>

lemma hex_upper_digit: "d < 16 \<Longrightarrow> digit_of (hex_upper d) = Some d"
proof -
  assume "d < 16"
  then have "d \<in> set [0..<16]" by simp
  moreover have "\<forall>d\<in>set [0..<16]. digit_of (hex_upper d) = Some d" by code_simp
  ultimately show ?thesis by blast
qed

lemma decode_cons: "c \<noteq> CHR ''%'' \<Longrightarrow> http_rfc5987_decode (c # s) = c # http_rfc5987_decode s"
proof -
  assume "c \<noteq> CHR ''%''"
  then show ?thesis by (cases s; cases "tl s") auto
qed

lemma code_nibble: "code c div 16 < 16"
proof -
  have "code c mod 256 < 256" by simp
  then have "code c < 256" by (simp only: of_char_mod_256)
  then show ?thesis by (intro less_mult_imp_div_less) linarith
qed

lemma decode_triplet:
  "http_rfc5987_decode (CHR ''%'' # hex_upper (code c div 16) # hex_upper (code c mod 16) # s) =
     c # http_rfc5987_decode s"
proof -
  show ?thesis by (simp add: hex_upper_digit code_nibble)
qed

lemma rfc5987_decode_encode: "http_rfc5987_decode (http_rfc5987_encode s) = s"
proof (induction s)
  case (Cons c s)
  have "\<not> is_unreserved_or_attr (CHR ''%'')" by code_simp
  then show ?case
    using Cons decode_cons [of c "http_rfc5987_encode s"] decode_triplet [of c "http_rfc5987_encode s"]
    by (cases "c = CHR ''%''") (simp_all add: http_rfc5987_encode_def del: http_rfc5987_decode.simps)
qed (simp add: http_rfc5987_encode_def)

text \<open>One printed parameter read back, quoted and bare.\<close>

lemma param_next_sep:
  "http_header_param_next (CHR '';'' # CHR '' '' # s) = http_header_param_next s"
  by (simp add: http_header_param_next_def is_ws_def)

lemma param_next_name:
  assumes "name \<noteq> []" "\<forall>c\<in>set name. is_name_char c" "param_value s = (v, q, r)"
  shows "http_header_param_next (name @ CHR ''='' # s) =
    (Some \<lparr>hp_name = name, hp_value = Some v, hp_quoted = q\<rparr>, skip_to_semi r)"
proof -
  obtain c cs where n: "name = c # cs" using assms(1) by (cases name) auto
  have "dropWhile (\<lambda>c. c = CHR '';'' \<or> is_ws c) (name @ CHR ''='' # s) = name @ CHR ''='' # s"
    using assms(2) by (simp add: n is_name_char_def)
  then show ?thesis
    using assms by (simp add: http_header_param_next_def takeWhile_all_append dropWhile_all_append is_name_char_def)
qed

lemma param_value_quoted:
  assumes "CHR 0x22 \<notin> set v"
  shows "param_value (CHR 0x22 # v @ CHR 0x22 # r) = (v, True, r)"
proof -
  have "\<forall>c\<in>set v. c \<noteq> CHR 0x22" using assms by auto
  then show ?thesis by (simp add: param_value_def takeWhile_all_append dropWhile_all_append)
qed

lemma param_value_bare:
  assumes "\<forall>c\<in>set v. c \<noteq> CHR '';'' \<and> \<not> is_ws c \<and> c \<noteq> CHR 0x22"
  shows "param_value v = (v, False, [])"
proof -
  have "\<not> (v \<noteq> [] \<and> hd v = CHR 0x22)" using assms hd_in_set by metis
  moreover have "takeWhile (\<lambda>c. c \<noteq> CHR '';'' \<and> \<not> is_ws c) v = v"
    unfolding takeWhile_eq_all_conv using assms by blast
  moreover have "dropWhile (\<lambda>c. c \<noteq> CHR '';'' \<and> \<not> is_ws c) v = []"
    unfolding dropWhile_eq_Nil_conv using assms by blast
  ultimately show ?thesis by (simp only: param_value_def if_False)
qed

definition print_params :: "(string \<times> string) list \<Rightarrow> string" where
  "print_params ps =
     concat (map (\<lambda>(n, v). CHR '';'' # CHR '' '' # n @ CHR ''='' # CHR 0x22 # v @ [CHR 0x22]) ps)"

lemma params_of_Nil: "params_of [] = []"
  by (simp add: params_of.simps http_header_param_next_def)

lemma skip_to_semi_print: "skip_to_semi (print_params ps) = print_params ps"
  by (cases ps) (auto simp: skip_to_semi_def print_params_def)

text \<open>
  C23. Printing and reading parameters is a round trip: reading back any list of quoted
  parameters, printed as \<open>; name="value"\<close>, gives that list in order, provided names are
  non-empty tokens and no value holds a quotation mark.
\<close>

theorem params_roundtrip:
  assumes "\<forall>(n, v)\<in>set ps. n \<noteq> [] \<and> (\<forall>c\<in>set n. is_name_char c) \<and> CHR 0x22 \<notin> set v"
  shows "params_of (print_params ps) =
    map (\<lambda>(n, v). \<lparr>hp_name = n, hp_value = Some v, hp_quoted = True\<rparr>) ps"
  using assms
proof (induction ps)
  case Nil
  then show ?case by (simp add: print_params_def params_of_Nil)
next
  case (Cons nv ps)
  obtain n v where nv: "nv = (n, v)" by (cases nv) auto
  have ok: "n \<noteq> []" "\<forall>c\<in>set n. is_name_char c" "CHR 0x22 \<notin> set v" using Cons.prems nv by auto
  have pr: "print_params (nv # ps) =
      CHR '';'' # CHR '' '' # n @ CHR ''='' # CHR 0x22 # v @ CHR 0x22 # print_params ps"
    by (simp add: print_params_def nv)
  have step: "http_header_param_next (print_params (nv # ps)) =
      (Some \<lparr>hp_name = n, hp_value = Some v, hp_quoted = True\<rparr>, print_params ps)"
    unfolding pr param_next_sep
    using param_next_name [OF ok(1,2) param_value_quoted [OF ok(3)], of "print_params ps"]
    by (simp add: skip_to_semi_print)
  have "params_of (print_params ps) =
      map (\<lambda>(n, v). \<lparr>hp_name = n, hp_value = Some v, hp_quoted = True\<rparr>) ps"
    using Cons by simp
  then show ?case by (simp only: params_of.simps [of "print_params (nv # ps)"] step) (simp add: nv)
qed

theorem params_roundtrip_witness:
  "params_of (print_params [(''name'', ''a;b''), (''filename'', '' c'')]) =
     [\<lparr>hp_name = ''name'', hp_value = Some ''a;b'', hp_quoted = True\<rparr>,
      \<lparr>hp_name = ''filename'', hp_value = Some '' c'', hp_quoted = True\<rparr>]"
  using params_roundtrip [of "[(''name'', ''a;b''), (''filename'', '' c'')]"]
  by (simp add: is_name_char_def is_ws_def)

subsection \<open>The writer against the reader\<close>

lemma hex_upper_unreserved: "d < 16 \<Longrightarrow> is_unreserved_or_attr (hex_upper d)"
proof -
  assume "d < 16"
  then have "d \<in> set [0..<16]" by simp
  moreover have "\<forall>d\<in>set [0..<16]. is_unreserved_or_attr (hex_upper d)" by code_simp
  ultimately show ?thesis by blast
qed

lemma encode_chars: "c \<in> set (http_rfc5987_encode s) \<Longrightarrow> is_unreserved_or_attr c \<or> c = CHR ''%''"
proof -
  have "code b div 16 < 16" for b :: char
    by (rule code_nibble)
  moreover assume "c \<in> set (http_rfc5987_encode s)"
  ultimately show ?thesis
    by (auto simp: http_rfc5987_encode_def hex_upper_unreserved split: if_splits)
qed

lemma unreserved_bare:
  "is_unreserved_or_attr c \<or> c = CHR ''%'' \<Longrightarrow> c \<noteq> CHR '';'' \<and> \<not> is_ws c \<and> c \<noteq> CHR 0x22"
  by (auto simp: is_unreserved_or_attr_def is_ws_def)

lemma params_of_single:
  "http_header_param_next s = (Some p, []) \<Longrightarrow> params_of s = [p]"
  by (simp add: params_of.simps [of s] params_of_Nil)

lemma skip_to_semi_Nil [simp]: "skip_to_semi [] = []"
  by (simp add: skip_to_semi_def)

lemma decode_ext_value:
  "decode_rfc5987_value (''UTF-8'' @ [CHR 0x27, CHR 0x27] @ http_rfc5987_encode dn) = Some (c_string dn)"
  by (simp add: decode_rfc5987_value_def rfc5987_decode_encode)

lemma disposition_tail:
  assumes "NUL \<notin> set dn" "tail = (if ascii_clean dn then ''; filename='' @ [CHR 0x22] @ dn @ [CHR 0x22]
            else ''; filename*=UTF-8'' @ [CHR 0x27, CHR 0x27] @ http_rfc5987_encode dn)"
  shows "foldl disposition_param ph (params_of tail) = ph\<lparr>ph_filename := Some dn\<rparr>"
proof (cases "ascii_clean dn")
  case True
  then have "CHR 0x22 \<notin> set dn" by (auto simp: ascii_clean_def list_all_iff)
  then have "http_header_param_next tail =
      (Some \<lparr>hp_name = ''filename'', hp_value = Some dn, hp_quoted = True\<rparr>, [])"
    using True param_next_name [OF _ _ param_value_quoted, of "''filename''" dn "[]"]
    by (simp add: assms(2) param_next_sep is_name_char_def is_ws_def)
  then show ?thesis by (simp add: params_of_single disposition_param_def param_bytes_def)
next
  case False
  define v where "v = ''UTF-8'' @ [CHR 0x27, CHR 0x27] @ http_rfc5987_encode dn"
  have t: "tail = CHR '';'' # CHR '' '' # ''filename*'' @ CHR ''='' # v"
    using False by (simp add: assms(2) v_def)
  have "\<forall>c\<in>set v. c \<noteq> CHR '';'' \<and> \<not> is_ws c \<and> c \<noteq> CHR 0x22"
    using encode_chars [THEN unreserved_bare] by (auto simp: v_def is_ws_def)
  then have "http_header_param_next tail =
      (Some \<lparr>hp_name = ''filename*'', hp_value = Some v, hp_quoted = False\<rparr>, [])"
    using param_next_name [OF _ _ param_value_bare, of "''filename*''" v]
    by (simp add: t param_next_sep is_name_char_def is_ws_def)
  moreover have "decode_rfc5987_value v = Some dn"
  proof -
    have "c_string dn = dn" using assms(1) unfolding c_string_def takeWhile_eq_all_conv by blast
    then show ?thesis by (simp only: v_def decode_ext_value)
  qed
  ultimately show ?thesis by (simp add: params_of_single disposition_param_def param_bytes_def)
qed

text \<open>
  C22. The download-name writer agrees with the part-header reader: for every name without a
  NUL byte, plain or not, the \<open>Content-Disposition\<close> value built for it is read back as
  exactly that file name and sets nothing else.
\<close>

theorem disposition_roundtrip:
  assumes "NUL \<notin> set dn" "so_download_name opts = Some dn"
  shows "\<exists>h. sf_build_content_disposition opts = Some h \<and>
    parse_content_disposition ph h = ph\<lparr>ph_filename := Some dn\<rparr>"
proof -
  define tail where "tail = (if ascii_clean dn then ''; filename='' @ [CHR 0x22] @ dn @ [CHR 0x22]
            else ''; filename*=UTF-8'' @ [CHR 0x27, CHR 0x27] @ http_rfc5987_encode dn)"
  define ty where "ty = (if so_attachment opts \<or> \<not> so_disposition_set opts then ''attachment'' else ''inline'')"
  have built: "sf_build_content_disposition opts = Some (ty @ tail)"
    by (simp add: sf_build_content_disposition_def assms(2) ty_def tail_def)
  have "skip_to_semi (ty @ tail) = tail"
    by (simp add: skip_to_semi_def ty_def tail_def)
  then show ?thesis
    using built disposition_tail [OF assms(1) tail_def] by (simp add: parse_content_disposition_def)
qed

theorem disposition_roundtrip_witness:
  "\<exists>h. sf_build_content_disposition \<lparr>so_attachment = False, so_disposition_set = False,
        so_download_name = Some ''a;b''\<rparr> = Some h \<and>
     ph_filename (parse_content_disposition \<lparr>ph_field_name = None, ph_filename = None,
        ph_content_type = None, ph_charset = None\<rparr> h) = Some ''a;b''"
  using disposition_roundtrip [of "''a;b''" "\<lparr>so_attachment = False, so_disposition_set = False,
        so_download_name = Some ''a;b''\<rparr>" "\<lparr>ph_field_name = None, ph_filename = None,
        ph_content_type = None, ph_charset = None\<rparr>"]
  by (auto simp: NUL_def)

end
