(* ===== verification/Http_Mime.thy ===== *)
theory Http_Mime
  imports Http_Params
begin

text \<open>
  Content types by file extension, \<open>src/http_mime.c\<close>: the extension scan, the lower-casing
  into a 32-byte buffer, and the binary search in the built-in table, on a platform whose only
  path separator is the slash.
\<close>

section \<open>The table and the search\<close>

definition builtin_table :: "(string \<times> string) list" where
  "builtin_table =
     [(''atom'', ''application/atom+xml''),
      (''avif'', ''image/avif''),
      (''bin'', ''application/octet-stream''),
      (''bmp'', ''image/bmp''),
      (''css'', ''text/css; charset=utf-8''),
      (''csv'', ''text/csv; charset=utf-8''),
      (''eot'', ''application/vnd.ms-fontobject''),
      (''gif'', ''image/gif''),
      (''gz'', ''application/gzip''),
      (''htm'', ''text/html; charset=utf-8''),
      (''html'', ''text/html; charset=utf-8''),
      (''ico'', ''image/x-icon''),
      (''jpeg'', ''image/jpeg''),
      (''jpg'', ''image/jpeg''),
      (''js'', ''text/javascript; charset=utf-8''),
      (''json'', ''application/json''),
      (''manifest'', ''text/cache-manifest''),
      (''map'', ''application/json''),
      (''md'', ''text/markdown; charset=utf-8''),
      (''mjs'', ''text/javascript; charset=utf-8''),
      (''mp3'', ''audio/mpeg''),
      (''mp4'', ''video/mp4''),
      (''ogg'', ''audio/ogg''),
      (''otf'', ''font/otf''),
      (''pdf'', ''application/pdf''),
      (''png'', ''image/png''),
      (''rss'', ''application/rss+xml''),
      (''svg'', ''image/svg+xml''),
      (''tar'', ''application/x-tar''),
      (''tif'', ''image/tiff''),
      (''tiff'', ''image/tiff''),
      (''ttf'', ''font/ttf''),
      (''txt'', ''text/plain; charset=utf-8''),
      (''wasm'', ''application/wasm''),
      (''wav'', ''audio/wav''),
      (''webm'', ''video/webm''),
      (''webmanifest'', ''application/manifest+json''),
      (''webp'', ''image/webp''),
      (''woff'', ''font/woff''),
      (''woff2'', ''font/woff2''),
      (''xhtml'', ''application/xhtml+xml''),
      (''xml'', ''text/xml; charset=utf-8''),
      (''yaml'', ''application/yaml''),
      (''yml'', ''application/yaml''),
      (''zip'', ''application/zip''),
      (''zst'', ''application/zstd'')]"

text \<open>The sign of the C library's \<open>strcmp\<close> on strings without NUL: unsigned bytes, the first
  difference decides.\<close>

fun strcmp :: "string \<Rightarrow> string \<Rightarrow> int" where
  "strcmp [] [] = 0"
| "strcmp [] (d # ds) = - 1"
| "strcmp (c # cs) [] = 1"
| "strcmp (c # cs) (d # ds) = (if code c < code d then - 1 else if code d < code c then 1 else strcmp cs ds)"

function bsearch :: "(string \<times> string) list \<Rightarrow> string \<Rightarrow> nat \<Rightarrow> nat \<Rightarrow> nat option" where
  "bsearch t ext lo hi =
     (if lo < hi
      then let mid = lo + (hi - lo) div 2; cmp = strcmp ext (fst (t ! mid))
        in if cmp = 0 then Some mid else if cmp < 0 then bsearch t ext lo mid else bsearch t ext (mid + 1) hi
      else None)"
  by auto
termination by (relation "measure (\<lambda>(t, ext, lo, hi). hi - lo)") auto

declare bsearch.simps [simp del]

definition lookup_builtin :: "string \<Rightarrow> (string \<times> string) option" where
  "lookup_builtin ext = map_option (\<lambda>i. builtin_table ! i) (bsearch builtin_table ext 0 (length builtin_table))"

section \<open>The extension\<close>

fun find_extension_from :: "string \<Rightarrow> nat \<Rightarrow> nat" where
  "find_extension_from path 0 = length path"
| "find_extension_from path (Suc i) =
     (if path ! i = CHR ''/'' then length path
      else if path ! i = CHR ''.'' then Suc i
      else find_extension_from path i)"

definition find_extension_offset :: "string \<Rightarrow> nat" where
  "find_extension_offset path = find_extension_from path (length path)"

text \<open>The empty result stands for the length 0 the C function returns on failure.\<close>

definition lower_extension :: "string \<Rightarrow> nat \<Rightarrow> string" where
  "lower_extension src buf_cap =
     (if length src = 0 \<or> buf_cap \<le> length src then [] else map ascii_lower src)"

definition http_mime_extract_lowered_ext :: "string \<Rightarrow> nat \<Rightarrow> string" where
  "http_mime_extract_lowered_ext path buf_cap =
     (let off = find_extension_offset path
      in if length path \<le> off then [] else lower_extension (drop off path) buf_cap)"

definition http_mime_lookup_by_ext :: "string \<Rightarrow> string option" where
  "http_mime_lookup_by_ext path =
     (let off = find_extension_offset path
      in if length path \<le> off then None
      else let ext = lower_extension (drop off path) 32
      in if ext = [] then None else map_option snd (lookup_builtin (c_string ext)))"

section \<open>Properties\<close>

lemma strcmp_0: "strcmp a b = 0 \<longleftrightarrow> a = b"
proof (induction a b rule: strcmp.induct)
  case (4 c cs d ds)
  then show ?case by (cases "code c" "code d" rule: linorder_cases) auto
qed auto

lemma strcmp_antisym: "strcmp b a = - strcmp a b"
  by (induction a b rule: strcmp.induct) auto

lemma strcmp_less_Cons:
  "strcmp (c # cs) (d # ds) < 0 \<longleftrightarrow> code c < code d \<or> (code c = code d \<and> strcmp cs ds < 0)"
  by (cases "code c" "code d" rule: linorder_cases) auto

lemma strcmp_trans: "strcmp a b < 0 \<Longrightarrow> strcmp b c < 0 \<Longrightarrow> strcmp a c < 0"
proof (induction a arbitrary: b c)
  case Nil
  then show ?case by (cases b; cases c) auto
next
  case (Cons x xs)
  obtain y ys where b: "b = y # ys" using Cons.prems(1) by (cases b) auto
  obtain z zs where c: "c = z # zs" using Cons.prems(2) by (cases c) (auto simp: b)
  show ?case
    using Cons.prems Cons.IH [of ys zs] unfolding b c strcmp_less_Cons
    by (metis less_trans)
qed

lemma builtin_table_sorted: "sorted_wrt (\<lambda>a b. strcmp (fst a) (fst b) < 0) builtin_table"
proof -
  have "transp (\<lambda>a b :: string \<times> string. strcmp (fst a) (fst b) < 0)"
    by (auto intro!: transpI elim: strcmp_trans)
  moreover have "successively (\<lambda>a b. strcmp (fst a) (fst b) < 0) builtin_table" by code_simp
  ultimately show ?thesis using successively_conv_sorted_wrt by blast
qed

locale sorted_table =
  fixes t :: "(string \<times> string) list"
  assumes sorted: "sorted_wrt (\<lambda>a b. strcmp (fst a) (fst b) < 0) t"
begin

lemma below: "i < j \<Longrightarrow> j < length t \<Longrightarrow> strcmp (fst (t ! i)) (fst (t ! j)) < 0"
  using sorted by (simp add: sorted_wrt_iff_nth_less)

lemma key_unique: "i < length t \<Longrightarrow> j < length t \<Longrightarrow> fst (t ! i) = fst (t ! j) \<Longrightarrow> i = j"
  using below [of i j] below [of j i] strcmp_0 by (metis less_irrefl linorder_neqE_nat)

lemma before: "i \<le> j \<Longrightarrow> j < length t \<Longrightarrow> \<not> strcmp (fst (t ! j)) (fst (t ! i)) < 0"
  using below [of i j] strcmp_0 [of "fst (t ! j)" "fst (t ! i)"] strcmp_antisym [of "fst (t ! j)" "fst (t ! i)"]
  by (cases "i = j") auto

lemma after: "i \<le> j \<Longrightarrow> j < length t \<Longrightarrow> \<not> strcmp (fst (t ! i)) (fst (t ! j)) > 0"
  using before [of i j] strcmp_antisym [of "fst (t ! j)" "fst (t ! i)"] by auto

text \<open>The search over \<open>[lo, hi)\<close> finds an index of that range with the key, and says
  \<^const>\<open>None\<close> only if no index of the range has it.\<close>

lemma bsearch_range:
  assumes "hi \<le> length t"
  shows "case bsearch t ext lo hi of
    Some i \<Rightarrow> lo \<le> i \<and> i < hi \<and> fst (t ! i) = ext
  | None \<Rightarrow> \<forall>i. lo \<le> i \<and> i < hi \<longrightarrow> fst (t ! i) \<noteq> ext"
  using assms
proof (induction "hi - lo" arbitrary: lo hi rule: less_induct)
  case less
  define mid where "mid = lo + (hi - lo) div 2"
  show ?case
  proof (cases "lo < hi")
    case False
    then show ?thesis by (subst bsearch.simps) auto
  next
    case lt: True
    then have mid: "lo \<le> mid" "mid < hi" by (auto simp: mid_def)
    consider "strcmp ext (fst (t ! mid)) = 0" | "strcmp ext (fst (t ! mid)) < 0"
      | "strcmp ext (fst (t ! mid)) > 0" by linarith
    then show ?thesis
    proof cases
      case 1
      then show ?thesis using lt mid strcmp_0 [of ext] by (subst bsearch.simps) (simp add: mid_def [symmetric] Let_def)
    next
      case 2
      have "fst (t ! i) \<noteq> ext" if "mid \<le> i" "i < hi" for i
        using 2 that before [of mid i] less.prems by auto
      moreover have "bsearch t ext lo hi = bsearch t ext lo mid"
        using 2 lt by (subst bsearch.simps) (simp add: mid_def [symmetric] Let_def)
      moreover have "mid - lo < hi - lo" using mid by linarith
      ultimately show ?thesis
        using less.hyps [of mid lo] less.prems mid
        by (cases "bsearch t ext lo mid") (simp_all, metis not_le)
    next
      case 3
      have "fst (t ! i) \<noteq> ext" if "lo \<le> i" "i \<le> mid" for i
        using 3 that mid after [of i mid] less.prems by auto
      moreover have "bsearch t ext lo hi = bsearch t ext (mid + 1) hi"
        using 3 lt by (subst bsearch.simps) (simp add: mid_def [symmetric] Let_def)
      moreover have "hi - (mid + 1) < hi - lo" using mid by linarith
      ultimately show ?thesis
        using less.hyps [of hi "mid + 1"] less.prems mid
        by (cases "bsearch t ext (mid + 1) hi") (simp_all, metis not_less_eq_eq)
    qed
  qed
qed

lemma bsearch_map_of:
  "map_option (\<lambda>i. t ! i) (bsearch t ext 0 (length t)) = map_option (Pair ext) (map_of t ext)"
proof (cases "bsearch t ext 0 (length t)")
  case None
  then have "ext \<notin> fst ` set t"
    using bsearch_range [of "length t" 0 ext] by (force simp: in_set_conv_nth)
  then show ?thesis using None by (simp add: map_of_eq_None_iff)
next
  case (Some i)
  then have i: "i < length t" "fst (t ! i) = ext"
    using bsearch_range [of "length t" 0 ext] by simp_all
  have "distinct (map fst t)"
    unfolding distinct_conv_nth using key_unique by auto
  then have "map_of t ext = Some (snd (t ! i))"
    using i by (metis map_of_eq_Some_iff nth_mem prod.collapse)
  then show ?thesis using Some i by (simp add: prod_eq_iff)
qed

end

interpretation builtin: sorted_table builtin_table
  by unfold_locales (rule builtin_table_sorted)

lemma lookup_builtin_map_of: "lookup_builtin ext = map_option (Pair ext) (map_of builtin_table ext)"
  unfolding lookup_builtin_def by (rule builtin.bsearch_map_of)

lemma NUL_lower: "ascii_lower c = NUL \<Longrightarrow> c = NUL"
  by (rule ascii_lower_low) (simp_all add: NUL_def)

lemma find_extension_from_skip:
  assumes "\<forall>j. n \<le> j \<and> j < m \<longrightarrow> path ! j \<noteq> CHR ''/'' \<and> path ! j \<noteq> CHR ''.''" "n \<le> m"
  shows "find_extension_from path m = find_extension_from path n"
  using assms by (induction m) (auto simp: le_Suc_eq)

text \<open>
  C24. The content-type lookup computes the table: for a path whose last dot is followed by an
  extension without separator, the binary search of the lower-cased extension gives exactly
  what the built-in association list says, and nothing for an extension that is empty or does
  not fit the 32-byte buffer.
\<close>

theorem http_mime_lookup_equiv:
  assumes "CHR ''/'' \<notin> set ext" "CHR ''.'' \<notin> set ext" "NUL \<notin> set ext"
  shows "http_mime_lookup_by_ext (base @ CHR ''.'' # ext) =
    (if ext = [] \<or> 32 \<le> length ext then None else map_of builtin_table (map ascii_lower ext))"
proof -
  let ?p = "base @ CHR ''.'' # ext"
  have "?p ! j \<in> set ext" if "Suc (length base) \<le> j" "j < length ?p" for j
    using that by (auto simp: nth_append nth_Cons')
  then have "\<forall>j. Suc (length base) \<le> j \<and> j < length ?p \<longrightarrow> ?p ! j \<noteq> CHR ''/'' \<and> ?p ! j \<noteq> CHR ''.''"
    using assms(1,2) by metis
  then have off: "find_extension_offset ?p = Suc (length base)"
    unfolding find_extension_offset_def
    using find_extension_from_skip [of "Suc (length base)" "length ?p" ?p] by simp
  have "c_string (map ascii_lower ext) = map ascii_lower ext"
    unfolding c_string_def takeWhile_eq_all_conv using assms(3) NUL_lower by auto
  then show ?thesis
    by (auto simp: http_mime_lookup_by_ext_def off lower_extension_def lookup_builtin_map_of option.map_comp comp_def
        option.map_ident)
qed

theorem http_mime_lookup_equiv_witness:
  "http_mime_lookup_by_ext ''a.b/c.PNG'' = Some ''image/png''"
proof -
  have "map_of builtin_table (map ascii_lower ''PNG'') = Some ''image/png''" by code_simp
  then show ?thesis
    using http_mime_lookup_equiv [of "''PNG''" "''a.b/c''"] by (simp add: NUL_def)
qed

end
