(* ===== verification/Http_Negotiate.thy ===== *)
theory Http_Negotiate
  imports Wire_Digits
begin

text \<open>
  \<open>Accept-Encoding\<close> negotiation, \<open>src/compression/http_compression_negotiate.c\<close>: the header
  scanner, the resolution of wildcards and of identity, the choice of a codec among those the
  build has, and the media-type normaliser.
\<close>

section \<open>Scanning\<close>

datatype q_t = Q_UNSEEN | Q_OK | Q_REJECT

definition ascii_eq_ci :: "string \<Rightarrow> string \<Rightarrow> bool" where
  "ascii_eq_ci s lit \<longleftrightarrow> map ascii_lower s = lit"

definition q_is_zero :: "string \<Rightarrow> bool" where
  "q_is_zero w =
     (let s = rtrim (ltrim w)
      in if s = [] then False
      else if hd s \<noteq> CHR ''0'' then False
      else if length s = 1 then True
      else if s ! 1 \<noteq> CHR ''.'' then False
      else list_all (\<lambda>c. c = CHR ''0'') (drop 2 s))"

lemma scan_shorter:
  assumes "dropWhile P s \<noteq> []" "\<And>c. Q c \<Longrightarrow> P c"
  shows "length (dropWhile (\<lambda>c. \<not> Q c) (dropWhile P s)) < length s"
proof -
  obtain c cs where p: "dropWhile P s = c # cs" using assms(1) by (cases "dropWhile P s") auto
  then have "\<not> P c" by (rule dropWhile_Cons_neg)
  then have "\<not> Q c" using assms(2) by blast
  moreover have "length (c # cs) \<le> length s" using length_dropWhile_le [of P s] p by simp
  ultimately show ?thesis using length_dropWhile_le [of "\<lambda>c. \<not> Q c" cs] by (simp add: p)
qed

text \<open>The parameter loop of one token: whether a weight was seen and whether it was zero.\<close>

function ae_params :: "string \<Rightarrow> bool \<times> bool \<Rightarrow> bool \<times> bool" where
  "ae_params s fz =
     (let p = dropWhile (\<lambda>c. is_ws c \<or> c = CHR '';'') s
      in if p = [] then fz
      else let param = rtrim (takeWhile (\<lambda>c. c \<noteq> CHR '';'') p);
               fz' = (if 2 \<le> length param \<and> ascii_lower (param ! 0) = CHR ''q'' \<and> param ! 1 = CHR ''=''
                      then (True, q_is_zero (drop 2 param)) else fz)
        in ae_params (dropWhile (\<lambda>c. c \<noteq> CHR '';'') p) fz')"
  by auto
termination
  by (relation "measure (length \<circ> fst)") (auto intro!: scan_shorter [of _ _ "\<lambda>c. c = CHR '';''", simplified])

declare ae_params.simps [simp del]

record q_seen =
  q_gzip :: q_t
  q_brotli :: q_t
  q_zstd :: q_t
  q_identity :: q_t
  q_star :: q_t

definition is_name_end :: "char \<Rightarrow> bool" where
  "is_name_end c \<longleftrightarrow> c = CHR '';'' \<or> is_ws c"

text \<open>What the body of the token loop does with one trimmed token.\<close>

definition ae_token :: "q_seen \<Rightarrow> string \<Rightarrow> q_seen" where
  "ae_token q tok =
     (if tok = [] then q
      else let name = takeWhile (\<lambda>c. \<not> is_name_end c) tok;
               fz = ae_params (dropWhile (\<lambda>c. \<not> is_name_end c) tok) (False, False);
               outcome = (if fst fz \<and> snd fz then Q_REJECT else Q_OK)
        in if ascii_eq_ci name ''gzip'' then q\<lparr>q_gzip := outcome\<rparr>
           else if ascii_eq_ci name ''x-gzip'' then q\<lparr>q_gzip := outcome\<rparr>
           else if ascii_eq_ci name ''br'' then q\<lparr>q_brotli := outcome\<rparr>
           else if ascii_eq_ci name ''zstd'' then q\<lparr>q_zstd := outcome\<rparr>
           else if ascii_eq_ci name ''identity'' then q\<lparr>q_identity := outcome\<rparr>
           else if name = ''*'' then q\<lparr>q_star := outcome\<rparr>
           else q)"

function ae_loop :: "string \<Rightarrow> q_seen \<Rightarrow> q_seen" where
  "ae_loop s q =
     (let p = dropWhile (\<lambda>c. is_ws c \<or> c = CHR '','') s
      in if p = [] then q
      else ae_loop (dropWhile (\<lambda>c. c \<noteq> CHR '','') p) (ae_token q (rtrim (takeWhile (\<lambda>c. c \<noteq> CHR '','') p))))"
  by auto
termination
  by (relation "measure (length \<circ> fst)") (auto intro!: scan_shorter [of _ _ "\<lambda>c. c = CHR '',''", simplified])

declare ae_loop.simps [simp del]

section \<open>Resolution and selection\<close>

record http_accept_encoding =
  gzip_acceptable :: bool
  brotli_acceptable :: bool
  zstd_acceptable :: bool
  identity_acceptable :: bool

definition http_accept_encoding_init_default :: http_accept_encoding where
  "http_accept_encoding_init_default =
     \<lparr>gzip_acceptable = False, brotli_acceptable = False, zstd_acceptable = False,
      identity_acceptable = True\<rparr>"

definition q_none :: q_seen where
  "q_none = \<lparr>q_gzip = Q_UNSEEN, q_brotli = Q_UNSEEN, q_zstd = Q_UNSEEN, q_identity = Q_UNSEEN, q_star = Q_UNSEEN\<rparr>"

definition ae_resolve :: "q_seen \<Rightarrow> http_accept_encoding" where
  "ae_resolve q =
     \<lparr>gzip_acceptable = (q_gzip q = Q_OK \<or> (q_gzip q = Q_UNSEEN \<and> q_star q = Q_OK)),
      brotli_acceptable = (q_brotli q = Q_OK \<or> (q_brotli q = Q_UNSEEN \<and> q_star q = Q_OK)),
      zstd_acceptable = (q_zstd q = Q_OK \<or> (q_zstd q = Q_UNSEEN \<and> q_star q = Q_OK)),
      identity_acceptable = (q_identity q = Q_OK \<or> (q_identity q = Q_UNSEEN \<and> q_star q \<noteq> Q_REJECT))\<rparr>"

definition http_accept_encoding_parse :: "string \<Rightarrow> http_accept_encoding" where
  "http_accept_encoding_parse hdr = ae_resolve (ae_loop hdr q_none)"

datatype http_codec_id =
  HTTP_CODEC_IDENTITY | HTTP_CODEC_GZIP | HTTP_CODEC_BROTLI | HTTP_CODEC_ZSTD | HTTP_CODEC__COUNT

text \<open>\<open>lookup\<close> says which codecs the build registered; a build without compression registers
  none.\<close>

definition http_accept_encoding_select :: "(http_codec_id \<Rightarrow> bool) \<Rightarrow> http_accept_encoding \<Rightarrow> http_codec_id" where
  "http_accept_encoding_select lookup ae =
     (if zstd_acceptable ae \<and> lookup HTTP_CODEC_ZSTD then HTTP_CODEC_ZSTD
      else if gzip_acceptable ae \<and> lookup HTTP_CODEC_GZIP then HTTP_CODEC_GZIP
      else if brotli_acceptable ae \<and> lookup HTTP_CODEC_BROTLI then HTTP_CODEC_BROTLI
      else if identity_acceptable ae then HTTP_CODEC_IDENTITY
      else HTTP_CODEC__COUNT)"

text \<open>The empty result is the length 0 the C function returns when the type is empty or does
  not fit.\<close>

definition http_compression_mime_normalize :: "string \<Rightarrow> nat \<Rightarrow> string" where
  "http_compression_mime_normalize ct dst_cap =
     (let t = rtrim (takeWhile (\<lambda>c. c \<noteq> CHR '';'') (ltrim ct))
      in if t = [] \<or> dst_cap < length t then [] else map ascii_lower t)"

section \<open>The scanner against a reference\<close>

text \<open>An entry of the header is a coding name with an optional weight.  The reference keeps,
  of the entries that name a coding, the last one; names compare without case.\<close>

definition entry_ok :: "string \<times> string option \<Rightarrow> bool" where
  "entry_ok e \<longleftrightarrow> fst e \<noteq> [] \<and> (\<forall>c\<in>set (fst e). \<not> is_name_end c \<and> c \<noteq> CHR '','') \<and>
     (\<forall>w. snd e = Some w \<longrightarrow> (\<forall>c\<in>set w. c \<noteq> CHR '','' \<and> c \<noteq> CHR '';'') \<and> (w \<noteq> [] \<longrightarrow> \<not> is_ws (last w)))"

definition print_coding :: "string \<times> string option \<Rightarrow> string" where
  "print_coding e = fst e @ (case snd e of None \<Rightarrow> [] | Some w \<Rightarrow> '';q='' @ w)"

definition print_accept :: "(string \<times> string option) list \<Rightarrow> string" where
  "print_accept es = concat (map (\<lambda>e. print_coding e @ '', '') es)"

definition verdict :: "string option \<Rightarrow> q_t" where
  "verdict w = (case w of None \<Rightarrow> Q_OK | Some w \<Rightarrow> if q_is_zero w then Q_REJECT else Q_OK)"

definition seen :: "(string \<times> string option) list \<Rightarrow> string list \<Rightarrow> q_t" where
  "seen es names =
     (let xs = filter (\<lambda>e. map ascii_lower (fst e) \<in> set names) es
      in if xs = [] then Q_UNSEEN else verdict (snd (last xs)))"

definition acceptable :: "(string \<times> string option) list \<Rightarrow> string list \<Rightarrow> bool" where
  "acceptable es names = (case seen es names of Q_OK \<Rightarrow> True | Q_REJECT \<Rightarrow> False | Q_UNSEEN \<Rightarrow> seen es [''*''] = Q_OK)"

lemma ae_params_Nil: "ae_params [] fz = fz"
  by (simp add: ae_params.simps)

lemma ae_params_weight:
  assumes "\<forall>c\<in>set w. c \<noteq> CHR '';''" "w \<noteq> [] \<longrightarrow> \<not> is_ws (last w)"
  shows "ae_params ('';q='' @ w) fz = (True, q_is_zero w)"
proof -
  have p: "dropWhile (\<lambda>c. is_ws c \<or> c = CHR '';'') ('';q='' @ w) = ''q='' @ w"
    by (simp add: is_ws_def)
  have t: "takeWhile (\<lambda>c. c \<noteq> CHR '';'') (''q='' @ w) = ''q='' @ w" "dropWhile (\<lambda>c. c \<noteq> CHR '';'') (''q='' @ w) = []"
    unfolding takeWhile_eq_all_conv dropWhile_eq_Nil_conv using assms(1) by auto
  have "rtrim (''q='' @ w) = ''q='' @ w"
    using assms(2) by (intro rtrim_id) (auto simp: is_ws_def)
  then show ?thesis
    by (subst ae_params.simps) (simp only: p t Let_def ae_params_Nil, simp add: ascii_lower_def)
qed

lemma ae_token_print:
  assumes "entry_ok e"
  shows "takeWhile (\<lambda>c. \<not> is_name_end c) (print_coding e) = fst e"
    "(let fz = ae_params (dropWhile (\<lambda>c. \<not> is_name_end c) (print_coding e)) (False, False)
      in if fst fz \<and> snd fz then Q_REJECT else Q_OK) = verdict (snd e)"
proof -
  have n: "\<forall>c\<in>set (fst e). \<not> is_name_end c" using assms by (auto simp: entry_ok_def)
  show "takeWhile (\<lambda>c. \<not> is_name_end c) (print_coding e) = fst e"
    using n by (cases "snd e") (simp_all add: print_coding_def takeWhile_all_append is_name_end_def)
  have d: "dropWhile (\<lambda>c. \<not> is_name_end c) (print_coding e) = (case snd e of None \<Rightarrow> [] | Some w \<Rightarrow> '';q='' @ w)"
    using n by (cases "snd e") (simp_all add: print_coding_def dropWhile_all_append is_name_end_def)
  show "(let fz = ae_params (dropWhile (\<lambda>c. \<not> is_name_end c) (print_coding e)) (False, False)
      in if fst fz \<and> snd fz then Q_REJECT else Q_OK) = verdict (snd e)"
  proof (cases "snd e")
    case None
    then show ?thesis by (simp add: d ae_params_Nil verdict_def)
  next
    case (Some w)
    then have "ae_params ('';q='' @ w) (False, False) = (True, q_is_zero w)"
      using assms by (intro ae_params_weight) (auto simp: entry_ok_def)
    then show ?thesis using Some by (simp add: d verdict_def)
  qed
qed

lemma print_coding_shape:
  assumes "entry_ok e"
  shows "print_coding e \<noteq> []" "\<not> is_ws (hd (print_coding e))" "\<not> is_ws (last (print_coding e))"
    "\<forall>c\<in>set (print_coding e). c \<noteq> CHR '',''"
proof -
  obtain c cs where n: "fst e = c # cs" using assms by (cases "fst e") (auto simp: entry_ok_def)
  have nws: "\<forall>x\<in>set (fst e). \<not> is_ws x" using assms by (auto simp: entry_ok_def is_name_end_def)
  show "print_coding e \<noteq> []" "\<not> is_ws (hd (print_coding e))"
    using nws by (simp_all add: print_coding_def n)
  have "\<not> is_ws (last (fst e))" using nws by (metis last_in_set list.discI n)
  then show "\<not> is_ws (last (print_coding e))"
    using assms by (cases "snd e") (auto simp: print_coding_def entry_ok_def is_ws_def)
  show "\<forall>c\<in>set (print_coding e). c \<noteq> CHR '',''"
    using assms by (cases "snd e") (auto simp: print_coding_def entry_ok_def)
qed

lemma ae_loop_sep: "ae_loop ('', '' @ r) q = ae_loop r q"
  by (simp add: ae_loop.simps [of "CHR '','' # CHR '' '' # r"] ae_loop.simps [of r] is_ws_def)

lemma ae_loop_token:
  assumes "entry_ok e"
  shows "ae_loop (print_coding e @ '', '' @ r) q = ae_loop r (ae_token q (print_coding e))"
proof -
  note sh = print_coding_shape [OF assms]
  obtain c cs where p: "print_coding e = c # cs" using sh(1) by (cases "print_coding e") auto
  have "dropWhile (\<lambda>c. is_ws c \<or> c = CHR '','') (print_coding e @ '', '' @ r) = print_coding e @ '', '' @ r"
    using sh(2,4) by (simp add: p)
  moreover have "takeWhile (\<lambda>c. c \<noteq> CHR '','') (print_coding e @ '', '' @ r) = print_coding e"
    "dropWhile (\<lambda>c. c \<noteq> CHR '','') (print_coding e @ '', '' @ r) = '', '' @ r"
    using sh(4) by (simp_all add: takeWhile_all_append dropWhile_all_append)
  moreover have "rtrim (print_coding e) = print_coding e" using sh(3) by (intro rtrim_id) simp
  ultimately show ?thesis
    by (subst ae_loop.simps) (simp only: Let_def append_is_Nil_conv sh(1) if_False simp_thms ae_loop_sep)
qed

lemma ae_loop_print:
  assumes "\<forall>e\<in>set es. entry_ok e"
  shows "ae_loop (print_accept es) q = foldl (\<lambda>q e. ae_token q (print_coding e)) q es"
  using assms
proof (induction es arbitrary: q)
  case (Cons e es)
  then show ?case using ae_loop_token [of e "print_accept es" q] by (simp add: print_accept_def)
qed (simp add: print_accept_def ae_loop.simps)

lemma star_lower: "map ascii_lower n = ''*'' \<longleftrightarrow> n = ''*''"
proof
  assume "map ascii_lower n = ''*''"
  then obtain c where n: "n = [c]" "ascii_lower c = CHR ''*''" by (auto simp: map_eq_Cons_conv)
  then have "c = CHR ''*''" using ascii_lower_low [of c "CHR ''*''"] by simp
  then show "n = ''*''" using n(1) by simp
qed (simp add: ascii_lower_def)

lemma seen_snoc:
  "seen (es @ [e]) names = (if map ascii_lower (fst e) \<in> set names then verdict (snd e) else seen es names)"
  by (simp add: seen_def Let_def)

lemma fold_tokens:
  assumes "\<forall>e\<in>set es. entry_ok e"
  shows "foldl (\<lambda>q e. ae_token q (print_coding e)) q_none es =
    \<lparr>q_gzip = seen es [''gzip'', ''x-gzip''], q_brotli = seen es [''br''], q_zstd = seen es [''zstd''],
     q_identity = seen es [''identity''], q_star = seen es [''*'']\<rparr>"
  using assms
proof (induction es rule: rev_induct)
  case (snoc e es)
  then have ok: "entry_ok e" by simp
  have "ae_token q (print_coding e) = (let n = map ascii_lower (fst e); v = verdict (snd e) in
      if n = ''gzip'' \<or> n = ''x-gzip'' then q\<lparr>q_gzip := v\<rparr> else if n = ''br'' then q\<lparr>q_brotli := v\<rparr>
      else if n = ''zstd'' then q\<lparr>q_zstd := v\<rparr> else if n = ''identity'' then q\<lparr>q_identity := v\<rparr>
      else if n = ''*'' then q\<lparr>q_star := v\<rparr> else q)" for q
    using ae_token_print [OF ok] print_coding_shape(1) [OF ok]
    by (simp add: ae_token_def ascii_eq_ci_def star_lower Let_def)
  then show ?case using snoc by (simp add: seen_snoc Let_def)
qed (simp add: q_none_def seen_def)

lemma parse_print:
  assumes "\<forall>e\<in>set es. entry_ok e"
  shows "http_accept_encoding_parse (print_accept es) =
    \<lparr>gzip_acceptable = acceptable es [''gzip'', ''x-gzip''], brotli_acceptable = acceptable es [''br''],
     zstd_acceptable = acceptable es [''zstd''],
     identity_acceptable = (case seen es [''identity''] of Q_OK \<Rightarrow> True | Q_REJECT \<Rightarrow> False
       | Q_UNSEEN \<Rightarrow> seen es [''*''] \<noteq> Q_REJECT)\<rparr>"
  by (simp add: http_accept_encoding_parse_def ae_loop_print [OF assms] fold_tokens [OF assms]
      ae_resolve_def acceptable_def split: q_t.splits)

section \<open>Properties\<close>

fun names_of :: "http_codec_id \<Rightarrow> string list" where
  "names_of HTTP_CODEC_ZSTD = [''zstd'']"
| "names_of HTTP_CODEC_GZIP = [''gzip'', ''x-gzip'']"
| "names_of HTTP_CODEC_BROTLI = [''br'']"
| "names_of HTTP_CODEC_IDENTITY = [''identity'']"
| "names_of HTTP_CODEC__COUNT = []"



definition drop_weight :: "string \<times> string option \<Rightarrow> string \<times> string option" where
  "drop_weight e = (fst e, if verdict (snd e) = Q_OK then None else snd e)"



end
