(* ===== verification/Http_Etag.thy ===== *)
theory Http_Etag
  imports Wire_Digits
begin

text \<open>
  Entity tags, \<open>src/http_etag.c\<close>: the tag of a file and the \<open>If-None-Match\<close> test.  A
  \<open>stat\<close> result is the fields the code reads, with \<open>S_ISREG(st_mode)\<close> as a truth value;
  time fields are 64-bit.
\<close>

unbundle bit_operations_syntax

section \<open>The tag\<close>

record stat_fields =
  st_mtim_sec :: u64
  st_mtim_nsec :: u64
  st_size :: u64
  st_ino :: u64
  st_isreg :: bool

definition mtime_ns_from_stat :: "stat_fields \<Rightarrow> u64" where
  "mtime_ns_from_stat st = st_mtim_sec st * 1000000000 + st_mtim_nsec st"

definition hex_lower :: "nat \<Rightarrow> char" where
  "hex_lower d = ''0123456789abcdef'' ! d"

text \<open>The loop \<open>for (i = 15; i >= 0; --i)\<close>, filling the buffer from its end.\<close>

fun put_hex :: "nat \<Rightarrow> u64 \<Rightarrow> string \<Rightarrow> string" where
  "put_hex 0 v out = out"
| "put_hex (Suc i) v out = put_hex i (drop_bit 4 v) (hex_lower (unat (v AND 15)) # out)"

definition put_u64_16hex :: "u64 \<Rightarrow> string" where
  "put_u64_16hex v = put_hex 16 v []"

definition http_etag_format_strong :: "stat_fields \<Rightarrow> string" where
  "http_etag_format_strong st =
     (let mix = mtime_ns_from_stat st XOR push_bit 17 (st_size st) XOR st_ino st
      in ''W/'' @ [CHR 0x22] @ put_u64_16hex mix @ [CHR 0x22])"

section \<open>If-None-Match\<close>

definition trim_ws :: "string \<Rightarrow> string" where
  "trim_ws s = rtrim (ltrim s)"

definition strip_weak_prefix :: "string \<Rightarrow> string" where
  "strip_weak_prefix s = (if take 2 s = ''W/'' then drop 2 s else s)"

function inm_loop :: "string \<Rightarrow> string \<Rightarrow> bool" where
  "inm_loop etag h =
     (if h = [] then False
      else (let entry = trim_ws (takeWhile (\<lambda>c. c \<noteq> CHR '','') h); rest = dropWhile (\<lambda>c. c \<noteq> CHR '','') h
            in entry = ''*'' \<or> strip_weak_prefix entry = etag \<or> inm_loop etag (tl rest)))"
  by auto
termination by (relation "measure (length \<circ> snd)") (simp_all add: length_tl_dropWhile del: length_tl)

declare inm_loop.simps [simp del]

definition http_etag_match_inm :: "string \<Rightarrow> string \<Rightarrow> bool" where
  "http_etag_match_inm header etag = inm_loop (strip_weak_prefix etag) header"

section \<open>Properties\<close>

definition hex_val :: "nat \<Rightarrow> string \<Rightarrow> nat" where
  "hex_val a s = foldl (\<lambda>a c. a * 16 + the (digit_of c)) a s"

lemma digit_of_hex_lower: "d < 16 \<Longrightarrow> digit_of (hex_lower d) = Some d"
proof -
  assume "d < 16"
  then have "d \<in> set [0..<16]" by simp
  moreover have "\<forall>d\<in>set [0..<16]. digit_of (hex_lower d) = Some d" by code_simp
  ultimately show ?thesis by blast
qed

lemma low_nibble: "unat (v AND 15 :: u64) = unat v mod 16"
proof -
  have "v AND 15 = take_bit 4 v" by (simp add: take_bit_eq_mask mask_eq_exp_minus_1)
  then show ?thesis by (simp add: take_bit_eq_mod unat_mod)
qed

lemma high_nibbles: "unat (drop_bit 4 v :: u64) = unat v div 16"
  by (simp add: drop_bit_eq_div unat_div)

lemma put_hex_val: "hex_val a (put_hex n v out) = hex_val (a * 16 ^ n + unat v mod 16 ^ n) out"
proof (induction n arbitrary: v out)
  case (Suc n)
  have "(a * 16 ^ n + unat v div 16 mod 16 ^ n) * 16 + unat v mod 16 = a * 16 ^ Suc n + unat v mod 16 ^ Suc n"
    using mod_mult2_eq [of "unat v" 16 "16 ^ n"] by (simp add: algebra_simps)
  then show ?case
    using Suc [of "drop_bit 4 v"] by (simp only: put_hex.simps high_nibbles hex_val_def foldl.simps
      low_nibble digit_of_hex_lower [OF mod_less_divisor] option.sel zero_less_numeral)
qed simp

lemma put_hex_length: "length (put_hex n v out) = n + length out"
  by (induction n arbitrary: v out) simp_all


text \<open>The comma-separated entries of a header.\<close>

fun split_commas :: "string \<Rightarrow> string list" where
  "split_commas [] = [[]]"
| "split_commas (c # cs) =
     (if c = CHR '','' then [] # split_commas cs
      else (case split_commas cs of [] \<Rightarrow> [[c]] | e # es \<Rightarrow> (c # e) # es))"

lemma split_commas_step:
  "split_commas h = takeWhile (\<lambda>c. c \<noteq> CHR '','') h #
     (case dropWhile (\<lambda>c. c \<noteq> CHR '','') h of [] \<Rightarrow> [] | _ # r \<Rightarrow> split_commas r)"
  by (induction h) (auto split: list.splits)

lemma inm_loop_iff:
  assumes "etag \<noteq> []"
  shows "inm_loop etag h \<longleftrightarrow>
    (\<exists>e\<in>set (split_commas h). trim_ws e = ''*'' \<or> strip_weak_prefix (trim_ws e) = etag)"
  using assms
proof (induction etag h rule: inm_loop.induct)
  case (1 etag h)
  show ?case
  proof (cases "h = []")
    case True
    then show ?thesis using 1 by (simp add: inm_loop.simps trim_ws_def strip_weak_prefix_def)
  next
    case False
    define rest where "rest = dropWhile (\<lambda>c. c \<noteq> CHR '','') h"
    have "inm_loop etag (tl rest) \<longleftrightarrow> (\<exists>e\<in>set (split_commas (tl rest)).
        trim_ws e = ''*'' \<or> strip_weak_prefix (trim_ws e) = etag)"
      using 1 False rest_def by blast
    moreover have "\<not> inm_loop etag []" by (simp add: inm_loop.simps)
    ultimately show ?thesis
      using False unfolding inm_loop.simps [of etag h] split_commas_step [of h] rest_def [symmetric]
      by (cases rest; simp add: Let_def)
  qed
qed

text \<open>
  C20. The \<open>If-None-Match\<close> scan decides the weak comparison: for a non-empty tag it answers
  yes exactly when some comma-separated entry of the header, trimmed, is \<open>*\<close> or equals the
  tag once \<open>W/\<close> is dropped from both.
\<close>

theorem http_etag_match_iff:
  assumes "strip_weak_prefix etag \<noteq> []"
  shows "http_etag_match_inm header etag \<longleftrightarrow>
    (\<exists>e\<in>set (split_commas header). trim_ws e = ''*'' \<or>
       strip_weak_prefix (trim_ws e) = strip_weak_prefix etag)"
  using inm_loop_iff [OF assms] by (simp add: http_etag_match_inm_def)

theorem http_etag_match_iff_witness:
  "strip_weak_prefix ''W/t1'' \<noteq> [] \<and> http_etag_match_inm ''a, t1 ,'' ''W/t1'' \<and>
   \<not> http_etag_match_inm ''a, W/t2'' ''W/t1''"
proof -
  have ne: "strip_weak_prefix ''W/t1'' \<noteq> []" by code_simp
  show ?thesis unfolding http_etag_match_iff [OF ne] by code_simp
qed

end
