(* ===== verification/Static_Cache.thy ===== *)
theory Static_Cache
  imports Http_Etag
begin

text \<open>
  The open-file cache, \<open>src/static/http_static_cache.c\<close>: a hash index from paths to entries
  and a doubly-linked list of the same entries in order of use.  Entries live in an explicit
  store addressed by numbers; \<open>c_fault\<close> is set by any access to an address that holds no
  entry.  The hash table of the engine is a partial map with the behaviour of
  \<open>zend_hash_find\<close>, \<open>zend_hash_add_ptr\<close> (no effect on a present key) and \<open>zend_hash_del\<close>
  (runs the destructor, which frees the entry).  The clock is an argument.
\<close>

section \<open>State\<close>

record cache_entry =
  e_path :: string
  e_st :: stat_fields
  e_cached_at :: int
  e_content_type :: "string option"
  e_etag :: "string option"
  e_last_modified :: "string option"
  e_body :: "string option"
  e_not_found :: bool
  e_prev :: "nat option"
  e_next :: "nat option"

record http_static_cache =
  c_heap :: "nat \<Rightarrow> cache_entry option"
  c_index :: "string \<Rightarrow> nat option"
  c_head :: "nat option"
  c_tail :: "nat option"
  c_count :: u64
  c_max :: u64
  c_ttl :: int
  c_fresh :: nat
  c_fault :: bool

definition upd :: "http_static_cache \<Rightarrow> nat \<Rightarrow> (cache_entry \<Rightarrow> cache_entry) \<Rightarrow> http_static_cache" where
  "upd c p f = (case c_heap c p of None \<Rightarrow> c\<lparr>c_fault := True\<rparr> | Some e \<Rightarrow> c\<lparr>c_heap := (c_heap c)(p \<mapsto> f e)\<rparr>)"

section \<open>The list\<close>

definition lru_unlink :: "http_static_cache \<Rightarrow> nat \<Rightarrow> http_static_cache" where
  "lru_unlink c p = (case c_heap c p of None \<Rightarrow> c\<lparr>c_fault := True\<rparr> | Some e \<Rightarrow>
     let c1 = (case e_prev e of Some q \<Rightarrow> upd c q (\<lambda>x. x\<lparr>e_next := e_next e\<rparr>) | None \<Rightarrow> c\<lparr>c_head := e_next e\<rparr>);
         c2 = (case e_next e of Some q \<Rightarrow> upd c1 q (\<lambda>x. x\<lparr>e_prev := e_prev e\<rparr>) | None \<Rightarrow> c1\<lparr>c_tail := e_prev e\<rparr>)
     in upd c2 p (\<lambda>x. x\<lparr>e_prev := None, e_next := None\<rparr>))"

definition lru_push_head :: "http_static_cache \<Rightarrow> nat \<Rightarrow> http_static_cache" where
  "lru_push_head c p =
     (let c1 = upd c p (\<lambda>x. x\<lparr>e_prev := None, e_next := c_head c\<rparr>);
          c2 = (case c_head c1 of Some h \<Rightarrow> upd c1 h (\<lambda>x. x\<lparr>e_prev := Some p\<rparr>) | None \<Rightarrow> c1\<lparr>c_tail := Some p\<rparr>)
      in c2\<lparr>c_head := Some p\<rparr>)"

definition lru_promote :: "http_static_cache \<Rightarrow> nat \<Rightarrow> http_static_cache" where
  "lru_promote c p = (if c_head c = Some p then c else lru_push_head (lru_unlink c p) p)"

text \<open>\<open>zend_hash_del\<close> with \<open>index_dtor\<close>, which frees the entry the slot points to.\<close>

definition index_del :: "http_static_cache \<Rightarrow> string \<Rightarrow> http_static_cache" where
  "index_del c k = (case c_index c k of None \<Rightarrow> c
     | Some p \<Rightarrow> c\<lparr>c_index := (c_index c)(k := None), c_heap := (c_heap c)(p := None)\<rparr>)"

definition evict_entry :: "http_static_cache \<Rightarrow> nat \<Rightarrow> http_static_cache" where
  "evict_entry c p =
     (let c1 = lru_unlink c p; c2 = c1\<lparr>c_count := c_count c1 - 1\<rparr>
      in case c_heap c2 p of None \<Rightarrow> c2\<lparr>c_fault := True\<rparr> | Some e \<Rightarrow> index_del c2 (e_path e))"

definition evict_lru :: "http_static_cache \<Rightarrow> http_static_cache" where
  "evict_lru c = (case c_tail c of None \<Rightarrow> c | Some p \<Rightarrow> evict_entry c p)"

section \<open>Public operations\<close>

definition http_static_cache_create :: "u64 \<Rightarrow> int \<Rightarrow> http_static_cache" where
  "http_static_cache_create max_entries ttl_seconds =
     \<lparr>c_heap = (\<lambda>_. None), c_index = (\<lambda>_. None), c_head = None, c_tail = None, c_count = 0,
      c_max = max_entries, c_ttl = ttl_seconds, c_fresh = 0, c_fault = False\<rparr>"

text \<open>\<open>zend_hash_clean\<close> runs the destructor on every slot.\<close>

definition http_static_cache_clear :: "http_static_cache \<Rightarrow> http_static_cache" where
  "http_static_cache_clear c =
     c\<lparr>c_heap := (\<lambda>p. case c_heap c p of None \<Rightarrow> None
         | Some e \<Rightarrow> if c_index c (e_path e) = Some p then None else Some e),
       c_index := (\<lambda>_. None), c_head := None, c_tail := None, c_count := 0\<rparr>"

text \<open>What is left in the store after \<open>zend_hash_destroy\<close>, before the cache itself is freed.\<close>

definition http_static_cache_destroy :: "http_static_cache \<Rightarrow> nat \<Rightarrow> cache_entry option" where
  "http_static_cache_destroy c =
     (\<lambda>p. case c_heap c p of None \<Rightarrow> None
        | Some e \<Rightarrow> if c_index c (e_path e) = Some p then None else Some e)"

definition cache_disabled :: "http_static_cache \<Rightarrow> string \<Rightarrow> bool" where
  "cache_disabled c path \<longleftrightarrow> c_max c = 0 \<or> c_ttl c \<le> 0 \<or> path = []"

record cache_view =
  v_st :: stat_fields
  v_content_type :: "string option"
  v_etag :: "string option"
  v_last_modified :: "string option"

definition view_of :: "cache_entry \<Rightarrow> cache_view" where
  "view_of e = \<lparr>v_st = e_st e, v_content_type = e_content_type e, v_etag = e_etag e,
     v_last_modified = e_last_modified e\<rparr>"

definition http_static_cache_lookup ::
    "int \<Rightarrow> http_static_cache \<Rightarrow> string \<Rightarrow> cache_view option \<times> http_static_cache" where
  "http_static_cache_lookup now c path =
     (if cache_disabled c path then (None, c)
      else case c_index c path of None \<Rightarrow> (None, c)
      | Some p \<Rightarrow> (case c_heap c p of None \<Rightarrow> (None, c\<lparr>c_fault := True\<rparr>)
        | Some e \<Rightarrow>
           if e_not_found e then (None, c)
           else if c_ttl c < now - e_cached_at e then (None, evict_entry c p)
           else (Some (view_of e), lru_promote c p)))"

text \<open>A pointer and a length of which either may be null: nothing is copied then.\<close>

definition copied :: "string option \<Rightarrow> string option" where
  "copied s = (if s = Some [] then None else s)"

text \<open>The common part of both inserts: drop a present entry, make room, link the new one.\<close>

definition replace_entry :: "http_static_cache \<Rightarrow> string \<Rightarrow> cache_entry \<Rightarrow> http_static_cache" where
  "replace_entry c path e =
     (let c1 = (case c_index c path of None \<Rightarrow> c | Some p \<Rightarrow> evict_entry c p);
          c2 = (if c_max c1 \<le> c_count c1 then evict_lru c1 else c1);
          p = c_fresh c2;
          c3 = c2\<lparr>c_heap := (c_heap c2)(p \<mapsto> e), c_fresh := Suc p\<rparr>;
          c4 = lru_push_head c3 p;
          c5 = c4\<lparr>c_count := c_count c4 + 1\<rparr>
      in if c_index c5 path = None then c5\<lparr>c_index := (c_index c5)(path \<mapsto> p)\<rparr> else c5)"

definition http_static_cache_insert ::
    "int \<Rightarrow> http_static_cache \<Rightarrow> string \<Rightarrow> stat_fields \<Rightarrow> string option \<Rightarrow> string option \<Rightarrow> string option \<Rightarrow> http_static_cache" where
  "http_static_cache_insert now c path st content_type etag last_modified =
     (if cache_disabled c path then c
      else replace_entry c path
        \<lparr>e_path = path, e_st = st, e_cached_at = now, e_content_type = copied content_type,
         e_etag = copied etag, e_last_modified = copied last_modified, e_body = None,
         e_not_found = False, e_prev = None, e_next = None\<rparr>)"

definition find_entry :: "http_static_cache \<Rightarrow> string \<Rightarrow> nat option" where
  "find_entry c path = (if cache_disabled c path then None else c_index c path)"

definition http_static_cache_body_acquire :: "http_static_cache \<Rightarrow> string \<Rightarrow> string option" where
  "http_static_cache_body_acquire c path =
     Option.bind (find_entry c path) (\<lambda>p. Option.bind (c_heap c p) e_body)"

definition http_static_cache_body_store :: "http_static_cache \<Rightarrow> string \<Rightarrow> string \<Rightarrow> http_static_cache" where
  "http_static_cache_body_store c path body =
     (case find_entry c path of None \<Rightarrow> c
      | Some p \<Rightarrow> (case c_heap c p of None \<Rightarrow> c\<lparr>c_fault := True\<rparr>
        | Some e \<Rightarrow> if e_body e \<noteq> None \<or> body = [] then c else upd c p (\<lambda>x. x\<lparr>e_body := Some body\<rparr>)))"

datatype cache_probe = PROBE_UNKNOWN | PROBE_EXISTS | PROBE_NOT_FOUND

definition http_static_cache_probe ::
    "int \<Rightarrow> http_static_cache \<Rightarrow> string \<Rightarrow> cache_probe \<times> http_static_cache" where
  "http_static_cache_probe now c path =
     (if cache_disabled c path then (PROBE_UNKNOWN, c)
      else case c_index c path of None \<Rightarrow> (PROBE_UNKNOWN, c)
      | Some p \<Rightarrow> (case c_heap c p of None \<Rightarrow> (PROBE_UNKNOWN, c\<lparr>c_fault := True\<rparr>)
        | Some e \<Rightarrow>
           if c_ttl c < now - e_cached_at e then (PROBE_UNKNOWN, evict_entry c p)
           else (if e_not_found e then PROBE_NOT_FOUND else PROBE_EXISTS, c)))"

definition zero_stat :: stat_fields where
  "zero_stat = \<lparr>st_mtim_sec = 0, st_mtim_nsec = 0, st_size = 0, st_ino = 0, st_isreg = False\<rparr>"

definition http_static_cache_negative_insert :: "int \<Rightarrow> http_static_cache \<Rightarrow> string \<Rightarrow> http_static_cache" where
  "http_static_cache_negative_insert now c path =
     (if cache_disabled c path then c
      else replace_entry c path
        \<lparr>e_path = path, e_st = zero_stat, e_cached_at = now, e_content_type = None, e_etag = None,
         e_last_modified = None, e_body = None, e_not_found = True, e_prev = None, e_next = None\<rparr>)"

end
