(* ===== verification/Static_Cache_Inv.thy ===== *)
theory Static_Cache_Inv
  imports Static_Cache
begin

text \<open>
  The cache refines a list.  \<open>dseg\<close> says that a list of addresses is linked in both
  directions; \<open>cache_inv\<close> adds that the index and the list hold the same entries, that the
  counter is the length, and that no freed entry was touched.  The abstract cache is the list
  of its entries, most recently used first.
\<close>

named_theorems cache_simps \<open>frame equations of the cache primitives\<close>

section \<open>Linked segments\<close>

definition first_of :: "nat list \<Rightarrow> nat option \<Rightarrow> nat option" where
  "first_of xs b = (case xs of [] \<Rightarrow> b | x # _ \<Rightarrow> Some x)"

definition last_of :: "nat option \<Rightarrow> nat list \<Rightarrow> nat option" where
  "last_of a xs = (if xs = [] then a else Some (last xs))"

fun dseg :: "(nat \<Rightarrow> cache_entry option) \<Rightarrow> nat option \<Rightarrow> nat list \<Rightarrow> nat option \<Rightarrow> bool" where
  "dseg h a [] b = True"
| "dseg h a (p # ps) b = ((\<exists>e. h p = Some e \<and> e_prev e = a \<and> e_next e = first_of ps b) \<and> dseg h (Some p) ps b)"

lemma first_of_simps [simp]: "first_of [] b = b" "first_of (x # xs) b = Some x"
  by (simp_all add: first_of_def)

lemma last_of_simps [simp]: "last_of a [] = a" "last_of a (xs @ [x]) = Some x"
  by (simp_all add: last_of_def)

lemma first_of_append: "first_of (xs @ ys) b = first_of xs (first_of ys b)"
  by (cases xs) simp_all

lemma last_of_append: "last_of a (xs @ ys) = last_of (last_of a xs) ys"
  by (simp add: last_of_def)

lemma last_of_Cons: "last_of a (x # xs) = last_of (Some x) xs"
  by (simp add: last_of_def)

lemma dseg_append: "dseg h a (xs @ ys) b \<longleftrightarrow> dseg h a xs (first_of ys b) \<and> dseg h (last_of a xs) ys b"
  by (induction xs arbitrary: a) (auto simp: first_of_append last_of_Cons)

lemma dseg_cong: "(\<And>p. p \<in> set xs \<Longrightarrow> h' p = h p) \<Longrightarrow> dseg h' a xs b = dseg h a xs b"
  by (induction xs arbitrary: a) auto

lemma dseg_update: "p \<notin> set xs \<Longrightarrow> dseg (h(p := v)) a xs b = dseg h a xs b"
  by (rule dseg_cong) auto

lemma dseg_set_next:
  assumes "dseg h a (xs @ [l]) b" "h l = Some e" "l \<notin> set xs"
  shows "dseg (h(l \<mapsto> e\<lparr>e_next := b'\<rparr>)) a (xs @ [l]) b'"
  using assms by (auto simp: dseg_append dseg_update)

lemma dseg_set_prev:
  assumes "dseg h a (f # xs) b" "h f = Some e" "f \<notin> set xs"
  shows "dseg (h(f \<mapsto> e\<lparr>e_prev := a'\<rparr>)) a' (f # xs) b"
  using assms by (auto simp: dseg_update)

lemma dseg_dom: "dseg h a xs b \<Longrightarrow> p \<in> set xs \<Longrightarrow> h p \<noteq> None"
  by (induction xs arbitrary: a) auto

section \<open>Entries without their links\<close>

definition strip :: "cache_entry \<Rightarrow> cache_entry" where
  "strip e = e\<lparr>e_prev := None, e_next := None\<rparr>"

definition bare :: "http_static_cache \<Rightarrow> nat \<Rightarrow> cache_entry option" where
  "bare c p = map_option strip (c_heap c p)"

lemma strip_links [simp]:
  "strip (e\<lparr>e_prev := a\<rparr>) = strip e" "strip (e\<lparr>e_next := b\<rparr>) = strip e" "strip (strip e) = strip e"
  by (simp_all add: strip_def)

lemma strip_fields [simp]:
  "e_path (strip e) = e_path e" "e_st (strip e) = e_st e" "e_cached_at (strip e) = e_cached_at e"
  "e_not_found (strip e) = e_not_found e" "e_body (strip e) = e_body e" "view_of (strip e) = view_of e"
  by (simp_all add: strip_def view_of_def)

definition lru :: "http_static_cache \<Rightarrow> nat list \<Rightarrow> bool" where
  "lru c xs \<longleftrightarrow> distinct xs \<and> dseg (c_heap c) None xs None \<and> c_head c = first_of xs None \<and>
     c_tail c = last_of None xs \<and> \<not> c_fault c"

text \<open>What the list primitives leave alone.\<close>

definition same_entries :: "http_static_cache \<Rightarrow> http_static_cache \<Rightarrow> bool" where
  "same_entries c c' \<longleftrightarrow> bare c' = bare c \<and> c_index c' = c_index c \<and> c_count c' = c_count c \<and>
     c_max c' = c_max c \<and> c_ttl c' = c_ttl c \<and> c_fresh c' = c_fresh c"

lemma same_entries_trans: "same_entries a b \<Longrightarrow> same_entries b c \<Longrightarrow> same_entries a c"
  by (simp add: same_entries_def)

lemma upd_some: "c_heap c p = Some e \<Longrightarrow> upd c p f = c\<lparr>c_heap := (c_heap c)(p \<mapsto> f e)\<rparr>"
  by (simp add: upd_def)

lemma bare_upd: "c_heap c p = Some e \<Longrightarrow> strip (f e) = strip e \<Longrightarrow> bare (upd c p f) = bare c"
  by (auto simp: upd_some bare_def fun_eq_iff)

lemma same_entries_write:
  "c_heap c p = Some e \<Longrightarrow> strip e' = strip e \<Longrightarrow> same_entries c (c\<lparr>c_heap := (c_heap c)(p \<mapsto> e')\<rparr>)"
  by (auto simp: same_entries_def bare_def fun_eq_iff)

lemma lru_unlink_ok:
  assumes "lru c (ys @ p # zs)"
  shows "lru (lru_unlink c p) (ys @ zs) \<and> same_entries c (lru_unlink c p) \<and> c_heap (lru_unlink c p) p \<noteq> None"
proof -
  obtain e where e: "c_heap c p = Some e" "e_prev e = last_of None ys" "e_next e = first_of zs None"
    and ys: "dseg (c_heap c) None ys (Some p)" and zs: "dseg (c_heap c) (Some p) zs None"
    and d: "distinct (ys @ p # zs)"
    using assms by (auto simp: lru_def dseg_append)
  define c1 where "c1 = (case e_prev e of Some q \<Rightarrow> upd c q (\<lambda>x. x\<lparr>e_next := e_next e\<rparr>) | None \<Rightarrow> c\<lparr>c_head := e_next e\<rparr>)"
  define c2 where "c2 = (case e_next e of Some q \<Rightarrow> upd c1 q (\<lambda>x. x\<lparr>e_prev := e_prev e\<rparr>) | None \<Rightarrow> c1\<lparr>c_tail := e_prev e\<rparr>)"
  have res: "lru_unlink c p = upd c2 p (\<lambda>x. x\<lparr>e_prev := None, e_next := None\<rparr>)"
    by (simp only: lru_unlink_def e(1) option.case Let_def c1_def [symmetric] c2_def [symmetric])
  have s1: "dseg (c_heap c1) None ys (first_of zs None) \<and> dseg (c_heap c1) (Some p) zs None \<and> c_heap c1 p = Some e \<and>
      same_entries c c1 \<and> c_fault c1 = c_fault c \<and> c_tail c1 = c_tail c \<and> c_head c1 = first_of (ys @ zs) None"
  proof (cases ys rule: rev_cases)
    case Nil
    then show ?thesis using e zs by (simp add: c1_def same_entries_def bare_def fun_eq_iff)
  next
    case (snoc ys' l)
    obtain el where el: "c_heap c l = Some el" using dseg_dom [OF ys, of l] snoc by auto
    have c1: "c1 = c\<lparr>c_heap := (c_heap c)(l \<mapsto> el\<lparr>e_next := e_next e\<rparr>)\<rparr>"
      using e el snoc by (simp add: c1_def upd_some)
    have "l \<notin> set ys'" "l \<notin> set zs" "l \<noteq> p" using d snoc by auto
    then show ?thesis
      using dseg_set_next [of "c_heap c" None ys' l "Some p" el "e_next e"] ys zs e el snoc assms
        same_entries_write [OF el, of "el\<lparr>e_next := e_next e\<rparr>"]
      by (auto simp: c1 dseg_update lru_def first_of_append)
  qed
  have s2: "dseg (c_heap c2) None ys (first_of zs None) \<and> dseg (c_heap c2) (last_of None ys) zs None \<and> c_heap c2 p = Some e \<and>
      same_entries c1 c2 \<and> c_fault c2 = c_fault c1 \<and> c_head c2 = c_head c1 \<and> c_tail c2 = last_of None (ys @ zs)"
  proof (cases zs)
    case Nil
    then show ?thesis using e s1 by (simp add: c2_def same_entries_def bare_def fun_eq_iff)
  next
    case (Cons f zs')
    obtain ef where ef: "c_heap c1 f = Some ef" using s1 Cons by auto
    have c2: "c2 = c1\<lparr>c_heap := (c_heap c1)(f \<mapsto> ef\<lparr>e_prev := e_prev e\<rparr>)\<rparr>"
      using e ef Cons by (simp add: c2_def upd_some)
    have "f \<notin> set ys" "f \<notin> set zs'" "f \<noteq> p" using d Cons by auto
    then show ?thesis
      using dseg_set_prev [of "c_heap c1" "Some p" f zs' None ef "e_prev e"] s1 e ef Cons assms
        same_entries_write [OF ef, of "ef\<lparr>e_prev := e_prev e\<rparr>"]
      by (auto simp: c2 dseg_update lru_def last_of_append last_of_Cons)
  qed
  have "p \<notin> set ys" "p \<notin> set zs" using d by auto
  then have "lru (lru_unlink c p) (ys @ zs)"
    using s1 s2 d assms by (auto simp: res upd_some lru_def dseg_append dseg_update)
  moreover have "same_entries c2 (lru_unlink c p)"
    using s2 same_entries_write [of c2 p e "e\<lparr>e_prev := None, e_next := None\<rparr>"] by (simp add: res upd_some)
  ultimately show ?thesis
    using s1 s2 by (auto simp: res upd_some intro: same_entries_trans)
qed

lemma lru_push_head_ok:
  assumes "lru c xs" "p \<notin> set xs" "c_heap c p = Some e"
  shows "lru (lru_push_head c p) (p # xs) \<and> same_entries c (lru_push_head c p)"
proof -
  define c1 where "c1 = c\<lparr>c_heap := (c_heap c)(p \<mapsto> e\<lparr>e_prev := None, e_next := c_head c\<rparr>)\<rparr>"
  have u1: "upd c p (\<lambda>x. x\<lparr>e_prev := None, e_next := c_head c\<rparr>) = c1"
    using assms(3) by (simp add: upd_some c1_def)
  have same: "same_entries c c1"
    using assms(3) by (simp add: c1_def same_entries_def bare_def fun_eq_iff)
  show ?thesis
  proof (cases xs)
    case Nil
    have "c_head c1 = None" using assms(1) Nil by (simp add: lru_def c1_def)
    then have c2: "lru_push_head c p = c1\<lparr>c_tail := Some p, c_head := Some p\<rparr>"
      by (simp only: lru_push_head_def u1 Let_def option.case)
    show ?thesis
      using assms same Nil by (auto simp: c2 lru_def same_entries_def bare_def fun_eq_iff last_of_def) (auto simp: c1_def)
  next
    case (Cons f xs')
    obtain ef where ef: "c_heap c f = Some ef" using assms(1) Cons by (auto simp: lru_def)
    have f: "f \<noteq> p" "f \<notin> set xs'" "c_head c = Some f" using assms Cons by (auto simp: lru_def)
    have c2: "lru_push_head c p = c1\<lparr>c_heap := (c_heap c1)(f \<mapsto> ef\<lparr>e_prev := Some p\<rparr>), c_head := Some p\<rparr>"
    proof -
      have "c_head c1 = Some f" "c_heap c1 f = Some ef" using ef f by (simp_all add: c1_def)
      then show ?thesis by (simp only: lru_push_head_def Let_def u1) (simp add: upd_some)
    qed
    have "dseg (c_heap c1) None xs None"
      using assms by (simp add: c1_def dseg_update lru_def)
    then have "dseg ((c_heap c1)(f \<mapsto> ef\<lparr>e_prev := Some p\<rparr>)) (Some p) xs None"
      using dseg_set_prev [of "c_heap c1" None f xs' None ef "Some p"] ef f Cons by (simp add: c1_def)
    then show ?thesis
      using assms Cons f ef same
      by (auto simp: c2 lru_def same_entries_def bare_def fun_eq_iff last_of_Cons) (auto simp: c1_def)
  qed
qed

section \<open>The invariant\<close>

definition cache_inv :: "http_static_cache \<Rightarrow> nat list \<Rightarrow> bool" where
  "cache_inv c xs \<longleftrightarrow> lru c xs \<and> (\<forall>p. bare c p \<noteq> None \<longleftrightarrow> p \<in> set xs) \<and>
     (\<forall>k p. c_index c k = Some p \<longleftrightarrow> (\<exists>e. bare c p = Some e \<and> e_path e = k)) \<and>
     c_count c = word_of_nat (length xs) \<and> length xs \<le> unat (c_max c) \<and> (\<forall>p\<in>set xs. p < c_fresh c)"

definition content :: "http_static_cache \<Rightarrow> nat list \<Rightarrow> cache_entry list" where
  "content c xs = map (\<lambda>p. the (bare c p)) xs"

definition a_find :: "string \<Rightarrow> cache_entry list \<Rightarrow> cache_entry option" where
  "a_find k A = find (\<lambda>e. e_path e = k) A"

definition a_drop :: "string \<Rightarrow> cache_entry list \<Rightarrow> cache_entry list" where
  "a_drop k A = filter (\<lambda>e. e_path e \<noteq> k) A"

lemma inv_same:
  assumes "cache_inv c xs" "same_entries c c'" "lru c' xs'" "set xs' = set xs"
  shows "cache_inv c' xs'" "content c' xs' = content c xs'"
proof -
  have "length xs' = length xs"
    using assms(1,3,4) by (metis cache_inv_def distinct_card lru_def)
  then show "cache_inv c' xs'" using assms by (simp add: cache_inv_def same_entries_def)
  show "content c' xs' = content c xs'" using assms(2) by (simp add: content_def same_entries_def)
qed

lemma inv_index:
  assumes "cache_inv c xs" "c_index c k = Some p"
  obtains ys zs e where "xs = ys @ p # zs" "c_heap c p = Some e" "e_path e = k"
proof -
  have "bare c p \<noteq> None" "p \<in> set xs" using assms by (auto simp: cache_inv_def)
  then obtain e where "c_heap c p = Some e" by (auto simp: bare_def)
  moreover from this have "e_path e = k" using assms by (auto simp: cache_inv_def bare_def)
  moreover obtain ys zs where "xs = ys @ p # zs" using \<open>p \<in> set xs\<close> by (auto dest: split_list)
  ultimately show thesis using that by blast
qed

lemma inv_index_of:
  assumes "cache_inv c xs" "q \<in> set xs"
  shows "c_index c (e_path (the (bare c q))) = Some q"
proof -
  have "bare c q \<noteq> None" using assms unfolding cache_inv_def by blast
  then obtain e where "bare c q = Some e" by blast
  then show ?thesis using assms(1) by (simp add: cache_inv_def)
qed

lemma inv_path_unique:
  assumes "cache_inv c xs" "p \<in> set xs" "q \<in> set xs" "e_path (the (bare c p)) = e_path (the (bare c q))"
  shows "p = q"
  using inv_index_of [OF assms(1)] assms(2,3,4) by (metis option.inject)

lemma content_drop:
  assumes "cache_inv c (ys @ p # zs)" "c_heap c p = Some e"
  shows "a_drop (e_path e) (content c (ys @ p # zs)) = content c (ys @ zs)"
    "a_find (e_path e) (content c (ys @ p # zs)) = Some (strip e)"
proof -
  have bp: "the (bare c p) = strip e" by (simp add: bare_def assms(2))
  have ne: "e_path (the (bare c q)) \<noteq> e_path e" if "q \<in> set (ys @ zs)" for q
  proof
    assume "e_path (the (bare c q)) = e_path e"
    then have "q = p" using inv_path_unique [OF assms(1), of q p] that bp by auto
    then show False using assms(1) that by (auto simp: cache_inv_def lru_def)
  qed
  have "filter (\<lambda>q. e_path (the (bare c q)) \<noteq> e_path e) us = us" if "set us \<subseteq> set (ys @ zs)" for us
    using that ne by (auto simp: filter_id_conv)
  then show "a_drop (e_path e) (content c (ys @ p # zs)) = content c (ys @ zs)"
    using bp by (simp add: a_drop_def content_def filter_map comp_def)
  have "find (\<lambda>d. e_path d = e_path e) (map (\<lambda>q. the (bare c q)) ys @ ds) = find (\<lambda>d. e_path d = e_path e) ds" for ds
    using ne by (induction ys) auto
  then show "a_find (e_path e) (content c (ys @ p # zs)) = Some (strip e)"
    using bp by (simp add: a_find_def content_def)
qed

lemma index_none:
  assumes "cache_inv c xs" "c_index c k = None"
  shows "a_find k (content c xs) = None" "a_drop k (content c xs) = content c xs"
proof -
  have "e_path (the (bare c q)) \<noteq> k" if "q \<in> set xs" for q
    using inv_index_of [OF assms(1) that] assms(2) by auto
  then show "a_find k (content c xs) = None" "a_drop k (content c xs) = content c xs"
    by (auto simp: a_find_def a_drop_def content_def find_None_iff filter_id_conv)
qed

section \<open>The operations keep it\<close>

lemma bare_del: "bare (c\<lparr>c_index := i, c_heap := (c_heap c)(p := None)\<rparr>) = (bare c)(p := None)"
  by (simp add: bare_def fun_eq_iff)

lemma count_dec: "word_of_nat (Suc n) - 1 = (word_of_nat n :: u64)"
  by simp

lemma evict_entry_ok:
  assumes inv: "cache_inv c (ys @ p # zs)"
  shows "cache_inv (evict_entry c p) (ys @ zs)" "content (evict_entry c p) (ys @ zs) = content c (ys @ zs)"
    "c_max (evict_entry c p) = c_max c" "c_ttl (evict_entry c p) = c_ttl c"
    "c_index (evict_entry c p) = (c_index c)(e_path (the (bare c p)) := None)"
proof -
  define c1 where "c1 = lru_unlink c p"
  have c1: "lru c1 (ys @ zs)" "same_entries c c1" "c_heap c1 p \<noteq> None"
    using lru_unlink_ok [of c ys p zs] inv by (simp_all add: c1_def cache_inv_def)
  obtain e where e: "c_heap c1 p = Some e" using c1(3) by auto
  have bare1: "bare c1 = bare c" using c1(2) by (simp add: same_entries_def)
  have bp: "bare c p = Some (strip e)" using e bare1 by (metis bare_def option.simps(9))
  have ix: "c_index c (e_path e) = Some p" using inv_index_of [OF inv, of p] bp by simp
  have ev: "evict_entry c p = c1\<lparr>c_count := c_count c1 - 1, c_index := (c_index c)(e_path e := None),
      c_heap := (c_heap c1)(p := None)\<rparr>"
    using e ix c1(2) by (simp add: evict_entry_def index_del_def same_entries_def Let_def flip: c1_def)
  have p: "p \<notin> set (ys @ zs)" using inv by (auto simp: cache_inv_def lru_def)
  have b: "bare (evict_entry c p) = (bare c)(p := None)"
    using bare1 by (simp add: ev bare_def fun_eq_iff)
  show "c_max (evict_entry c p) = c_max c" "c_ttl (evict_entry c p) = c_ttl c"
    using c1(2) by (simp_all add: ev same_entries_def)
  show "c_index (evict_entry c p) = (c_index c)(e_path (the (bare c p)) := None)"
    by (simp add: ev bp)
  show "content (evict_entry c p) (ys @ zs) = content c (ys @ zs)"
    using p by (auto simp: content_def b)
  have "lru (evict_entry c p) (ys @ zs)"
    using c1(1) p by (simp add: lru_def ev dseg_update del: set_append)
  moreover have "c_index (evict_entry c p) k = Some q \<longleftrightarrow> (\<exists>d. bare (evict_entry c p) q = Some d \<and> e_path d = k)" for k q
  proof -
    have i: "c_index (evict_entry c p) = (c_index c)(e_path e := None)" by (simp add: ev)
    have "c_index c k = Some q \<longleftrightarrow> (\<exists>d. bare c q = Some d \<and> e_path d = k)" using inv unfolding cache_inv_def by blast
    then show ?thesis using ix bp unfolding i b by (cases "q = p"; cases "k = e_path e") auto
  qed
  moreover have "c_count (evict_entry c p) = c_count c - 1" "c_fresh (evict_entry c p) = c_fresh c"
    "c_max (evict_entry c p) = c_max c"
    using c1(2) by (simp_all add: ev same_entries_def)
  moreover have "bare (evict_entry c p) q \<noteq> None \<longleftrightarrow> q \<in> set (ys @ zs)" for q
    using inv p unfolding cache_inv_def b by (cases "q = p") auto
  ultimately show "cache_inv (evict_entry c p) (ys @ zs)"
    using inv unfolding cache_inv_def by simp
qed

lemma lru_promote_ok:
  assumes inv: "cache_inv c (ys @ p # zs)"
  shows "cache_inv (lru_promote c p) (p # ys @ zs)"
    "content (lru_promote c p) (p # ys @ zs) = content c (p # ys @ zs)"
    "c_max (lru_promote c p) = c_max c" "c_ttl (lru_promote c p) = c_ttl c"
proof -
  have "lru (lru_promote c p) (p # ys @ zs) \<and> same_entries c (lru_promote c p)"
  proof (cases "c_head c = Some p")
    case True
    then have "ys = []" using inv by (cases ys) (auto simp: cache_inv_def lru_def)
    then show ?thesis using True inv by (simp add: lru_promote_def cache_inv_def same_entries_def)
  next
    case False
    have u: "lru (lru_unlink c p) (ys @ zs)" "same_entries c (lru_unlink c p)" "c_heap (lru_unlink c p) p \<noteq> None"
      using lru_unlink_ok [of c ys p zs] inv by (simp_all add: cache_inv_def)
    then obtain e where "c_heap (lru_unlink c p) p = Some e" by auto
    moreover have "p \<notin> set (ys @ zs)" using inv by (auto simp: cache_inv_def lru_def)
    ultimately show ?thesis
      using lru_push_head_ok [of "lru_unlink c p" "ys @ zs" p e] u False same_entries_trans
      by (auto simp: lru_promote_def)
  qed
  then show "cache_inv (lru_promote c p) (p # ys @ zs)"
    "content (lru_promote c p) (p # ys @ zs) = content c (p # ys @ zs)"
    "c_max (lru_promote c p) = c_max c" "c_ttl (lru_promote c p) = c_ttl c"
    using inv_same [OF inv] by (auto simp: same_entries_def)
qed

lemma evict_lru_ok:
  assumes "cache_inv c xs" "xs \<noteq> []"
  shows "cache_inv (evict_lru c) (butlast xs)" "content (evict_lru c) (butlast xs) = butlast (content c xs)"
    "c_max (evict_lru c) = c_max c" "c_ttl (evict_lru c) = c_ttl c"
    "c_index c k = None \<Longrightarrow> c_index (evict_lru c) k = None"
proof -
  obtain ys p where xs: "xs = ys @ [p]" using assms(2) by (cases xs rule: rev_cases) auto
  then have t: "evict_lru c = evict_entry c p" using assms(1) by (simp add: evict_lru_def cache_inv_def lru_def)
  note ev = evict_entry_ok [of c ys p "[]"]
  show "cache_inv (evict_lru c) (butlast xs)" "content (evict_lru c) (butlast xs) = butlast (content c xs)"
    "c_max (evict_lru c) = c_max c" "c_ttl (evict_lru c) = c_ttl c"
    "c_index c k = None \<Longrightarrow> c_index (evict_lru c) k = None"
    using ev assms(1) xs by (simp_all add: t) (simp_all add: content_def)
qed

end
