(* ===== verification/Static_Cache_Spec.thy ===== *)
theory Static_Cache_Spec
  imports Static_Cache_Inv
begin

text \<open>
  The contract of the open-file cache: a bounded list of entries, most recently used first,
  and the simulation between the linked implementation and that list over arbitrary sequences
  of operations.
\<close>

section \<open>Inserting\<close>

lemma drop_present:
  assumes "cache_inv c xs"
  assumes c1_def: "c1 = (case c_index c path of None \<Rightarrow> c | Some p \<Rightarrow> evict_entry c p)"
  shows "\<exists>xs1. cache_inv c1 xs1 \<and> content c1 xs1 = a_drop path (content c xs) \<and> c_index c1 path = None \<and>
    c_max c1 = c_max c \<and> c_ttl c1 = c_ttl c"
proof (cases "c_index c path")
  case None
  then show ?thesis using assms(1) index_none(2) [OF assms(1) None] by (auto simp: c1_def)
next
  case (Some p)
  obtain ys zs e where x: "xs = ys @ p # zs" "c_heap c p = Some e" "e_path e = path"
    by (rule inv_index [OF assms(1) Some])
  note ev = evict_entry_ok [of c ys p zs]
  have "e_path (the (bare c p)) = path" using x by (simp add: bare_def)
  then show ?thesis
    using ev assms(1) Some x content_drop(1) [of c ys p zs e] by (auto simp: c1_def intro!: exI [of _ "ys @ zs"])
qed

lemma make_room:
  assumes "cache_inv c xs" "c_max c \<noteq> 0"
  assumes c2_def: "c2 = (if c_max c \<le> c_count c then evict_lru c else c)"
  shows "\<exists>xs2. cache_inv c2 xs2 \<and> content c2 xs2 = take (unat (c_max c) - 1) (content c xs) \<and>
    length xs2 < unat (c_max c) \<and> (c_index c k = None \<longrightarrow> c_index c2 k = None) \<and> c_max c2 = c_max c \<and> c_ttl c2 = c_ttl c"
proof -
  have len: "length xs \<le> unat (c_max c)" "0 < unat (c_max c)"
    using assms(1,2) by (auto simp: cache_inv_def unat_gt_0)
  have "length xs < 18446744073709551616" using len(1) unat_u64 [of "c_max c"] by linarith
  then have "unat (c_count c) = length xs"
    using assms(1) by (simp add: cache_inv_def unsigned_of_nat take_bit_nat_eq_self)
  then have le: "c_max c \<le> c_count c \<longleftrightarrow> unat (c_max c) \<le> length xs" by (simp add: word_le_nat_alt)
  show ?thesis
  proof (cases "c_max c \<le> c_count c")
    case True
    then have l: "length xs = unat (c_max c)" "xs \<noteq> []" using le len by auto
    then have "butlast (content c xs) = take (unat (c_max c) - 1) (content c xs)"
      by (simp add: butlast_conv_take content_def)
    then show ?thesis
      using evict_lru_ok [OF assms(1) l(2)] l len True by (auto simp: c2_def intro!: exI [of _ "butlast xs"])
  next
    case False
    then show ?thesis using assms(1) le len by (auto simp: c2_def content_def intro!: exI [of _ xs])
  qed
qed

lemma link_new:
  assumes inv: "cache_inv c xs" and room: "length xs < unat (c_max c)" and new: "c_index c (e_path e) = None"
    and st: "strip e = e"
  assumes c4_def: "c4 = (lru_push_head (c\<lparr>c_heap := (c_heap c)(c_fresh c \<mapsto> e), c_fresh := Suc (c_fresh c)\<rparr>) (c_fresh c))"
  assumes c6_def: "c6 = (c4\<lparr>c_count := c_count c4 + 1, c_index := (c_index c4)(e_path e \<mapsto> c_fresh c)\<rparr>)"
  shows "cache_inv c6 (c_fresh c # xs) \<and> content c6 (c_fresh c # xs) = e # content c xs \<and> c_index c4 = c_index c \<and>
    c_max c6 = c_max c \<and> c_ttl c6 = c_ttl c"
proof -
  let ?p = "c_fresh c"
  define c3 where "c3 = c\<lparr>c_heap := (c_heap c)(?p \<mapsto> e), c_fresh := Suc ?p\<rparr>"
  have p: "?p \<notin> set xs" using inv by (auto simp: cache_inv_def)
  have "lru c3 xs" using inv p by (simp add: cache_inv_def lru_def c3_def dseg_update)
  then have c4: "lru c4 (?p # xs)" "same_entries c3 c4"
    using lru_push_head_ok [of c3 xs ?p e] p by (simp_all add: c4_def c3_def)
  have b3: "bare c3 = (bare c)(?p \<mapsto> e)" using st by (simp add: bare_def fun_eq_iff c3_def)
  have f6: "bare c6 = (bare c)(?p \<mapsto> e)" "c_index c6 = (c_index c)(e_path e \<mapsto> ?p)" "c_count c6 = c_count c + 1"
    "c_max c6 = c_max c" "c_ttl c6 = c_ttl c" "c_fresh c6 = Suc ?p" "c_index c4 = c_index c"
    using c4(2) b3 by (simp_all add: c6_def same_entries_def) (simp_all add: bare_def fun_eq_iff c3_def)
  have l6: "lru c6 (?p # xs)" using c4(1) by (simp add: c6_def lru_def)
  have i: "c_index c6 k = Some q \<longleftrightarrow> (\<exists>d. bare c6 q = Some d \<and> e_path d = k)" for k q
  proof -
    have "c_index c k = Some q \<longleftrightarrow> (\<exists>d. bare c q = Some d \<and> e_path d = k)" using inv unfolding cache_inv_def by blast
    moreover have "bare c ?p = None" using inv p unfolding cache_inv_def by blast
    ultimately show ?thesis using new unfolding f6 by (cases "q = ?p"; cases "k = e_path e") auto
  qed
  have d: "bare c6 q \<noteq> None \<longleftrightarrow> q \<in> set (?p # xs)" for q
    using inv unfolding cache_inv_def f6 by (cases "q = ?p") auto
  have "\<forall>q\<in>set (?p # xs). q < c_fresh c6" using inv by (auto simp: cache_inv_def f6)
  then have "cache_inv c6 (?p # xs)"
    using l6 i d inv room unfolding cache_inv_def f6 by (simp add: add.commute)
  moreover have "content c6 (?p # xs) = e # content c xs"
    using p by (auto simp: content_def f6)
  ultimately show ?thesis using f6 by simp
qed

definition a_replace :: "nat \<Rightarrow> string \<Rightarrow> cache_entry \<Rightarrow> cache_entry list \<Rightarrow> cache_entry list" where
  "a_replace mx path e A = e # take (mx - 1) (a_drop path A)"

lemma replace_entry_ok:
  assumes inv: "cache_inv c xs" and mx: "c_max c \<noteq> 0" and e: "e_path e = path" "strip e = e"
  shows "\<exists>xs'. cache_inv (replace_entry c path e) xs' \<and>
    content (replace_entry c path e) xs' = a_replace (unat (c_max c)) path e (content c xs) \<and>
    c_max (replace_entry c path e) = c_max c \<and> c_ttl (replace_entry c path e) = c_ttl c"
proof -
  define c1 where "c1 = (case c_index c path of None \<Rightarrow> c | Some p \<Rightarrow> evict_entry c p)"
  define c2 where "c2 = (if c_max c1 \<le> c_count c1 then evict_lru c1 else c1)"
  define c4 where "c4 = lru_push_head (c2\<lparr>c_heap := (c_heap c2)(c_fresh c2 \<mapsto> e), c_fresh := Suc (c_fresh c2)\<rparr>) (c_fresh c2)"
  obtain xs1 where x1: "cache_inv c1 xs1" "content c1 xs1 = a_drop path (content c xs)" "c_index c1 path = None"
    "c_max c1 = c_max c" "c_ttl c1 = c_ttl c"
    using drop_present [OF inv c1_def] by blast
  obtain xs2 where x2: "cache_inv c2 xs2" "content c2 xs2 = take (unat (c_max c) - 1) (content c1 xs1)"
    "length xs2 < unat (c_max c2)" "c_index c2 path = None" "c_max c2 = c_max c" "c_ttl c2 = c_ttl c"
    using make_room [OF x1(1) _ c2_def, of path] mx x1(3-5) by metis
  note new = link_new [OF x2(1,3), of e, unfolded e(1), OF x2(4) e(2) c4_def refl]
  have ix: "c_index c4 path = None" using new x2(4) by simp
  have r: "replace_entry c path e =
      c4\<lparr>c_count := c_count c4 + 1, c_index := (c_index c4)(path \<mapsto> c_fresh c2)\<rparr>"
    unfolding replace_entry_def Let_def c1_def [symmetric] c2_def [symmetric] c4_def [symmetric]
    using ix by simp
  show ?thesis using new x2 x1(2) unfolding r a_replace_def by auto
qed

section \<open>Writing a body\<close>

lemma dseg_same_links:
  assumes "h p = Some e" "e_prev e' = e_prev e" "e_next e' = e_next e"
  shows "dseg (h(p \<mapsto> e')) a xs b = dseg h a xs b"
  using assms by (induction xs arbitrary: a) auto

definition a_store :: "string \<Rightarrow> string \<Rightarrow> cache_entry list \<Rightarrow> cache_entry list" where
  "a_store path body A =
     map (\<lambda>e. if e_path e = path \<and> e_body e = None \<and> body \<noteq> [] then e\<lparr>e_body := Some body\<rparr> else e) A"

lemma store_body_ok:
  assumes inv: "cache_inv c (ys @ p # zs)" and e: "c_heap c p = Some e" "e_body e = None" "body \<noteq> []"
    and c': "c' = upd c p (\<lambda>x. x\<lparr>e_body := Some body\<rparr>)"
  shows "cache_inv c' (ys @ p # zs) \<and>
    content c' (ys @ p # zs) = a_store (e_path e) body (content c (ys @ p # zs))"
proof -
  have w: "c' = c\<lparr>c_heap := (c_heap c)(p \<mapsto> e\<lparr>e_body := Some body\<rparr>)\<rparr>" by (simp add: c' upd_some e(1))
  have bp: "bare c p = Some (strip e)" by (simp add: bare_def e(1))
  have b: "bare c' = (bare c)(p \<mapsto> (strip e)\<lparr>e_body := Some body\<rparr>)"
    by (simp add: w bare_def fun_eq_iff strip_def)
  have "lru c' (ys @ p # zs)"
    using inv dseg_same_links [of "c_heap c" p e "e\<lparr>e_body := Some body\<rparr>"] e(1)
    by (simp add: w cache_inv_def lru_def)
  moreover have "c_index c' k = Some q \<longleftrightarrow> (\<exists>d. bare c' q = Some d \<and> e_path d = k)" for k q
  proof -
    have "c_index c k = Some q \<longleftrightarrow> (\<exists>d. bare c q = Some d \<and> e_path d = k)" using inv unfolding cache_inv_def by blast
    then show ?thesis using bp unfolding b by (cases "q = p") (auto simp: w)
  qed
  moreover have "bare c' q \<noteq> None \<longleftrightarrow> q \<in> set (ys @ p # zs)" for q
    using inv bp unfolding cache_inv_def b by (cases "q = p") auto
  ultimately have "cache_inv c' (ys @ p # zs)"
    using inv unfolding cache_inv_def by (simp add: w)
  moreover have "the (bare c' q) = (let d = the (bare c q) in
      if e_path d = e_path e \<and> e_body d = None \<and> body \<noteq> [] then d\<lparr>e_body := Some body\<rparr> else d)"
    if "q \<in> set (ys @ p # zs)" for q
    using inv_path_unique [OF inv that, of p] bp e by (cases "q = p") (auto simp: b Let_def)
  ultimately show ?thesis by (simp add: content_def a_store_def Let_def)
qed

section \<open>The contract\<close>

datatype cache_op =
  C_Lookup int string
| C_Insert int string stat_fields "string option" "string option" "string option"
| C_Negative int string
| C_Probe int string
| C_Store string string
| C_Acquire string
| C_Clear

datatype cache_result = R_Done | R_View "cache_view option" | R_Probe cache_probe | R_Body "string option"

fun cache_step :: "http_static_cache \<Rightarrow> cache_op \<Rightarrow> cache_result \<times> http_static_cache" where
  "cache_step c (C_Lookup now path) = map_prod R_View id (http_static_cache_lookup now c path)"
| "cache_step c (C_Insert now path st ct et lm) = (R_Done, http_static_cache_insert now c path st ct et lm)"
| "cache_step c (C_Negative now path) = (R_Done, http_static_cache_negative_insert now c path)"
| "cache_step c (C_Probe now path) = map_prod R_Probe id (http_static_cache_probe now c path)"
| "cache_step c (C_Store path body) = (R_Done, http_static_cache_body_store c path body)"
| "cache_step c (C_Acquire path) = (R_Body (http_static_cache_body_acquire c path), c)"
| "cache_step c C_Clear = (R_Done, http_static_cache_clear c)"

fun cache_run :: "http_static_cache \<Rightarrow> cache_op list \<Rightarrow> cache_result list \<times> http_static_cache" where
  "cache_run c [] = ([], c)"
| "cache_run c (x # ops) = (case cache_step c x of (r, c') \<Rightarrow> map_prod (Cons r) id (cache_run c' ops))"

definition a_entry :: "int \<Rightarrow> string \<Rightarrow> stat_fields \<Rightarrow> string option \<Rightarrow> string option \<Rightarrow> string option \<Rightarrow> bool \<Rightarrow> cache_entry" where
  "a_entry now path st ct et lm nf =
     \<lparr>e_path = path, e_st = st, e_cached_at = now, e_content_type = copied ct, e_etag = copied et,
      e_last_modified = copied lm, e_body = None, e_not_found = nf, e_prev = None, e_next = None\<rparr>"

text \<open>The reference: on a list, most recently used first.\<close>

fun a_step :: "nat \<Rightarrow> int \<Rightarrow> cache_entry list \<Rightarrow> cache_op \<Rightarrow> cache_result \<times> cache_entry list" where
  "a_step mx ttl A (C_Lookup now path) = (case a_find path A of
     Some e \<Rightarrow> if e_not_found e then (R_View None, A)
       else if ttl < now - e_cached_at e then (R_View None, a_drop path A)
       else (R_View (Some (view_of e)), e # a_drop path A)
   | None \<Rightarrow> (R_View None, A))"
| "a_step mx ttl A (C_Insert now path st ct et lm) =
     (R_Done, if mx = 0 \<or> ttl \<le> 0 \<or> path = [] then A else a_replace mx path (a_entry now path st ct et lm False) A)"
| "a_step mx ttl A (C_Negative now path) =
     (R_Done, if mx = 0 \<or> ttl \<le> 0 \<or> path = [] then A else a_replace mx path (a_entry now path zero_stat None None None True) A)"
| "a_step mx ttl A (C_Probe now path) = (case a_find path A of
     Some e \<Rightarrow> if ttl < now - e_cached_at e then (R_Probe PROBE_UNKNOWN, a_drop path A)
       else (R_Probe (if e_not_found e then PROBE_NOT_FOUND else PROBE_EXISTS), A)
   | None \<Rightarrow> (R_Probe PROBE_UNKNOWN, A))"
| "a_step mx ttl A (C_Store path body) = (R_Done, a_store path body A)"
| "a_step mx ttl A (C_Acquire path) = (R_Body (Option.bind (a_find path A) e_body), A)"
| "a_step mx ttl A C_Clear = (R_Done, [])"

fun a_run :: "nat \<Rightarrow> int \<Rightarrow> cache_entry list \<Rightarrow> cache_op list \<Rightarrow> cache_result list \<times> cache_entry list" where
  "a_run mx ttl A [] = ([], A)"
| "a_run mx ttl A (x # ops) = (case a_step mx ttl A x of (r, A') \<Rightarrow> map_prod (Cons r) id (a_run mx ttl A' ops))"

definition cache_rel :: "u64 \<Rightarrow> int \<Rightarrow> http_static_cache \<Rightarrow> cache_entry list \<Rightarrow> bool" where
  "cache_rel mx ttl c A \<longleftrightarrow> c_max c = mx \<and> c_ttl c = ttl \<and> (\<forall>e\<in>set A. e_path e \<noteq> []) \<and>
     (ttl \<le> 0 \<longrightarrow> A = []) \<and> (\<exists>xs. cache_inv c xs \<and> A = content c xs)"

section \<open>Simulation\<close>

lemma index_cases:
  assumes "cache_inv c xs"
  obtains "c_index c path = None" "a_find path (content c xs) = None"
  | p ys zs e where "c_index c path = Some p" "xs = ys @ p # zs" "c_heap c p = Some e" "e_path e = path"
      "a_find path (content c xs) = Some (strip e)" "a_drop path (content c xs) = content c (ys @ zs)"
proof (cases "c_index c path")
  case None
  show thesis using None index_none(1) [OF assms None] by (rule that(1))
next
  case (Some p)
  obtain ys zs e where x: "xs = ys @ p # zs" "c_heap c p = Some e" "e_path e = path"
    by (rule inv_index [OF assms Some])
  show thesis by (rule that(2) [OF Some x]) (use content_drop [of c ys p zs e] assms x in simp_all)
qed

lemma rel_disabled:
  assumes "cache_rel mx ttl c A" "cache_disabled c path"
  shows "a_find path A = None" "mx = 0 \<or> ttl \<le> 0 \<or> path = []" "a_store path body A = A"
proof -
  show "mx = 0 \<or> ttl \<le> 0 \<or> path = []" using assms by (auto simp: cache_disabled_def cache_rel_def)
  have "A = []" if "mx = 0"
    using assms(1) that by (auto simp: cache_rel_def cache_inv_def content_def)
  then have "\<forall>e\<in>set A. e_path e \<noteq> path"
    using assms by (auto simp: cache_disabled_def cache_rel_def)
  then show "a_find path A = None" "a_store path body A = A"
    by (auto simp: a_find_def a_store_def find_None_iff intro: map_idI)
qed

lemma rel_drop: "\<forall>e\<in>set A. e_path e \<noteq> [] \<Longrightarrow> \<forall>e\<in>set (a_drop path A). e_path e \<noteq> []"
  by (simp add: a_drop_def)

lemma a_find_in: "a_find k A = Some e \<Longrightarrow> e \<in> set A \<and> e_path e = k"
  by (auto simp: a_find_def find_Some_iff)

definition simulates :: "u64 \<Rightarrow> int \<Rightarrow> cache_result \<times> http_static_cache \<Rightarrow> cache_result \<times> cache_entry list \<Rightarrow> bool" where
  "simulates mx ttl x y \<longleftrightarrow> fst x = fst y \<and> cache_rel mx ttl (snd x) (snd y)"

lemma sim_lookup:
  assumes rel: "cache_rel mx ttl c A"
  shows "simulates mx ttl (cache_step c (C_Lookup now path)) (a_step (unat mx) ttl A (C_Lookup now path))"
proof (cases "cache_disabled c path")
  case True
  then show ?thesis
    using rel rel_disabled(1) [OF rel True] by (simp add: simulates_def http_static_cache_lookup_def)
next
  case False
  obtain xs where inv: "cache_inv c xs" and A: "A = content c xs" using rel by (auto simp: cache_rel_def)
  have r: "c_max c = mx" "c_ttl c = ttl" "\<forall>e\<in>set A. e_path e \<noteq> []" "0 < ttl"
    using rel False by (auto simp: cache_rel_def cache_disabled_def)
  show ?thesis
  proof (rule index_cases [OF inv, of path])
    assume "c_index c path = None" "a_find path (content c xs) = None"
    then show ?thesis using False rel A by (simp add: simulates_def http_static_cache_lookup_def)
  next
    fix p ys zs e
    assume x: "c_index c path = Some p" "xs = ys @ p # zs" "c_heap c p = Some e" "e_path e = path"
      "a_find path (content c xs) = Some (strip e)" "a_drop path (content c xs) = content c (ys @ zs)"
    have l: "http_static_cache_lookup now c path =
        (if e_not_found e then (None, c) else if ttl < now - e_cached_at e then (None, evict_entry c p)
         else (Some (view_of e), lru_promote c p))"
      using False x r by (simp add: http_static_cache_lookup_def)
    have "cache_rel mx ttl (evict_entry c p) (content c (ys @ zs))"
      using evict_entry_ok [of c ys p zs] inv x r rel_drop [OF r(3), of path]
      by (auto simp: cache_rel_def A intro!: exI [of _ "ys @ zs"])
    moreover have "cache_rel mx ttl (lru_promote c p) (strip e # content c (ys @ zs))"
      using lru_promote_ok [of c ys p zs] inv x r rel_drop [OF r(3), of path] a_find_in [OF x(5)]
      by (auto simp: cache_rel_def A content_def bare_def intro!: exI [of _ "p # ys @ zs"])
    ultimately show ?thesis
      using x rel by (auto simp: simulates_def A l)
  qed
qed

lemma sim_probe:
  assumes rel: "cache_rel mx ttl c A"
  shows "simulates mx ttl (cache_step c (C_Probe now path)) (a_step (unat mx) ttl A (C_Probe now path))"
proof (cases "cache_disabled c path")
  case True
  then show ?thesis
    using rel rel_disabled(1) [OF rel True] by (simp add: simulates_def http_static_cache_probe_def)
next
  case False
  obtain xs where inv: "cache_inv c xs" and A: "A = content c xs" using rel by (auto simp: cache_rel_def)
  have r: "c_max c = mx" "c_ttl c = ttl" "\<forall>e\<in>set A. e_path e \<noteq> []" "0 < ttl"
    using rel False by (auto simp: cache_rel_def cache_disabled_def)
  show ?thesis
  proof (rule index_cases [OF inv, of path])
    assume "c_index c path = None" "a_find path (content c xs) = None"
    then show ?thesis using False rel A by (simp add: simulates_def http_static_cache_probe_def)
  next
    fix p ys zs e
    assume x: "c_index c path = Some p" "xs = ys @ p # zs" "c_heap c p = Some e" "e_path e = path"
      "a_find path (content c xs) = Some (strip e)" "a_drop path (content c xs) = content c (ys @ zs)"
    have "cache_rel mx ttl (evict_entry c p) (content c (ys @ zs))"
      using evict_entry_ok [of c ys p zs] inv x r rel_drop [OF r(3), of path]
      by (auto simp: cache_rel_def A intro!: exI [of _ "ys @ zs"])
    then show ?thesis
      using False x r rel by (auto simp: simulates_def A http_static_cache_probe_def)
  qed
qed

lemma sim_replace:
  assumes rel: "cache_rel mx ttl c A" and "\<not> cache_disabled c path" "e_path e = path" "strip e = e"
  shows "cache_rel mx ttl (replace_entry c path e) (a_replace (unat mx) path e A)"
proof -
  obtain xs where inv: "cache_inv c xs" and A: "A = content c xs" using rel by (auto simp: cache_rel_def)
  have r: "c_max c = mx" "c_ttl c = ttl" "\<forall>e\<in>set A. e_path e \<noteq> []" "0 < ttl" "path \<noteq> []" "c_max c \<noteq> 0"
    using rel assms(2) by (auto simp: cache_rel_def cache_disabled_def)
  have "\<forall>d\<in>set (a_replace (unat mx) path e A). e_path d \<noteq> []"
    using rel_drop [OF r(3), of path] r(5) assms(3) set_take_subset by (fastforce simp: a_replace_def)
  then show ?thesis
    using replace_entry_ok [OF inv r(6) assms(3,4)] r by (auto simp: cache_rel_def A)
qed

lemma sim_insert:
  assumes rel: "cache_rel mx ttl c A"
  shows "simulates mx ttl (cache_step c (C_Insert now path st ct et lm)) (a_step (unat mx) ttl A (C_Insert now path st ct et lm))"
    "simulates mx ttl (cache_step c (C_Negative now path)) (a_step (unat mx) ttl A (C_Negative now path))"
proof -
  have d: "cache_disabled c path \<longleftrightarrow> unat mx = 0 \<or> ttl \<le> 0 \<or> path = []"
    using rel by (auto simp: cache_disabled_def cache_rel_def unat_eq_0)
  have p: "e_path (a_entry now path st ct et lm nf) = path" "strip (a_entry now path st ct et lm nf) = a_entry now path st ct et lm nf"
    for st ct et lm nf by (simp_all add: a_entry_def strip_def)
  note rep = sim_replace [OF rel _ p]
  show "simulates mx ttl (cache_step c (C_Insert now path st ct et lm)) (a_step (unat mx) ttl A (C_Insert now path st ct et lm))"
    using rel rep d by (auto simp: simulates_def http_static_cache_insert_def a_entry_def)
  show "simulates mx ttl (cache_step c (C_Negative now path)) (a_step (unat mx) ttl A (C_Negative now path))"
    using rel rep [of zero_stat None None None True] d
    by (auto simp: simulates_def http_static_cache_negative_insert_def a_entry_def copied_def)
qed

lemma sim_acquire:
  assumes rel: "cache_rel mx ttl c A"
  shows "simulates mx ttl (cache_step c (C_Acquire path)) (a_step (unat mx) ttl A (C_Acquire path))"
proof (cases "cache_disabled c path")
  case True
  then show ?thesis
    using rel rel_disabled(1) [OF rel True] by (simp add: simulates_def http_static_cache_body_acquire_def find_entry_def)
next
  case False
  obtain xs where inv: "cache_inv c xs" and A: "A = content c xs" using rel by (auto simp: cache_rel_def)
  show ?thesis
    by (rule index_cases [OF inv, of path])
      (use False rel in \<open>simp_all add: simulates_def http_static_cache_body_acquire_def find_entry_def A\<close>)
qed

lemma a_store_none: "a_find path A = None \<Longrightarrow> a_store path body A = A"
  by (auto simp: a_find_def a_store_def find_None_iff intro: map_idI)

lemma a_store_paths: "\<forall>e\<in>set A. e_path e \<noteq> [] \<Longrightarrow> \<forall>e\<in>set (a_store path body A). e_path e \<noteq> []"
  by (auto simp: a_store_def)

lemma sim_store:
  assumes rel: "cache_rel mx ttl c A"
  shows "simulates mx ttl (cache_step c (C_Store path body)) (a_step (unat mx) ttl A (C_Store path body))"
proof (cases "cache_disabled c path")
  case True
  then show ?thesis
    using rel rel_disabled(3) [OF rel True] by (simp add: simulates_def http_static_cache_body_store_def find_entry_def)
next
  case False
  obtain xs where inv: "cache_inv c xs" and A: "A = content c xs" using rel by (auto simp: cache_rel_def)
  have r: "c_max c = mx" "c_ttl c = ttl" "\<forall>e\<in>set A. e_path e \<noteq> []" "0 < ttl"
    using rel False by (auto simp: cache_rel_def cache_disabled_def)
  show ?thesis
  proof (rule index_cases [OF inv, of path])
    assume "c_index c path = None" "a_find path (content c xs) = None"
    then show ?thesis
      using False rel A a_store_none by (simp add: simulates_def http_static_cache_body_store_def find_entry_def)
  next
    fix p ys zs e
    assume x: "c_index c path = Some p" "xs = ys @ p # zs" "c_heap c p = Some e" "e_path e = path"
      "a_find path (content c xs) = Some (strip e)"
    have s: "http_static_cache_body_store c path body =
        (if e_body e \<noteq> None \<or> body = [] then c else upd c p (\<lambda>x. x\<lparr>e_body := Some body\<rparr>))"
      using False x by (simp add: http_static_cache_body_store_def find_entry_def)
    show ?thesis
    proof (cases "e_body e \<noteq> None \<or> body = []")
      case True
      have "a_store path body A = A"
      proof -
        have "e_body d \<noteq> None \<or> body = []" if d: "d \<in> set A" "e_path d = path" for d
        proof -
          obtain q where q: "q \<in> set xs" "d = the (bare c q)" using d(1) by (auto simp: A content_def)
          then have "q = p" using inv_path_unique [OF inv q(1), of p] d(2) x by (simp add: bare_def)
          then show ?thesis using True q x by (simp add: bare_def)
        qed
        then show ?thesis by (auto simp: a_store_def intro!: map_idI)
      qed
      then show ?thesis using True rel by (simp add: simulates_def s)
    next
      case False
      define c' where "c' = upd c p (\<lambda>x. x\<lparr>e_body := Some body\<rparr>)"
      have c': "cache_inv c' xs" "content c' xs = a_store path body A"
        using store_body_ok [of c ys p zs e body c'] inv x False by (simp_all add: c'_def A)
      have "c_max c' = mx" "c_ttl c' = ttl" using r x by (simp_all add: c'_def upd_some)
      then have "cache_rel mx ttl c' (a_store path body A)"
        using c' r a_store_paths [OF r(3)] unfolding cache_rel_def by fastforce
      then show ?thesis using False by (simp add: simulates_def s c'_def)
    qed
  qed
qed

lemma empty_inv: "c_heap c = (\<lambda>_. None) \<Longrightarrow> c_index c = (\<lambda>_. None) \<Longrightarrow> c_head c = None \<Longrightarrow> c_tail c = None \<Longrightarrow>
    c_count c = 0 \<Longrightarrow> \<not> c_fault c \<Longrightarrow> cache_inv c []"
  by (simp add: cache_inv_def lru_def bare_def)

lemma inv_destroy: "cache_inv c xs \<Longrightarrow> http_static_cache_destroy c = (\<lambda>_. None)"
proof -
  assume inv: "cache_inv c xs"
  have "c_index c (e_path e) = Some p" if "c_heap c p = Some e" for p e
    using inv that unfolding cache_inv_def by (auto simp: bare_def)
  then show ?thesis by (auto simp: http_static_cache_destroy_def fun_eq_iff split: option.splits)
qed

lemma sim_clear:
  assumes rel: "cache_rel mx ttl c A"
  shows "simulates mx ttl (cache_step c C_Clear) (a_step (unat mx) ttl A C_Clear)"
proof -
  obtain xs where inv: "cache_inv c xs" using rel by (auto simp: cache_rel_def)
  have "c_heap (http_static_cache_clear c) = (\<lambda>_. None)"
    using inv_destroy [OF inv] by (simp add: http_static_cache_clear_def http_static_cache_destroy_def)
  then have "cache_inv (http_static_cache_clear c) []"
    using inv by (intro empty_inv) (simp_all add: http_static_cache_clear_def cache_inv_def lru_def)
  then show ?thesis
    using rel by (auto simp: simulates_def cache_rel_def content_def) (simp_all add: http_static_cache_clear_def)
qed

lemmas sim_all = sim_lookup sim_insert sim_probe sim_store sim_acquire sim_clear

lemma sim_step: "cache_rel mx ttl c A \<Longrightarrow> simulates mx ttl (cache_step c x) (a_step (unat mx) ttl A x)"
  by (cases x) (simp_all only: sim_all)

lemma sim_run:
  "cache_rel mx ttl c A \<Longrightarrow> fst (cache_run c ops) = fst (a_run (unat mx) ttl A ops) \<and>
     cache_rel mx ttl (snd (cache_run c ops)) (snd (a_run (unat mx) ttl A ops))"
proof (induction ops arbitrary: c A)
  case (Cons x ops)
  obtain r c' where c: "cache_step c x = (r, c')" by (cases "cache_step c x") auto
  obtain r' A' where a: "a_step (unat mx) ttl A x = (r', A')" by (cases "a_step (unat mx) ttl A x") auto
  have "r = r'" "cache_rel mx ttl c' A'" using sim_step [OF Cons.prems, of x] c a by (simp_all add: simulates_def)
  then show ?case using Cons.IH [of c' A'] by (simp add: c a)
qed simp

section \<open>Properties\<close>

text \<open>
  C27. The linked cache implements the bounded recency list: for every capacity, lifetime and
  sequence of operations on a fresh cache, each call returns what the reference list returns;
  no call touches a freed entry; destroying the cache leaves no entry behind; and at the end the store holds exactly as many entries as the
  list, never more than the capacity, with the counter equal to that number.
\<close>

theorem static_cache_refines_lru:
  "fst (cache_run (http_static_cache_create mx ttl) ops) = fst (a_run (unat mx) ttl [] ops) \<and>
   (let c = snd (cache_run (http_static_cache_create mx ttl) ops); n = length (snd (a_run (unat mx) ttl [] ops))
    in \<not> c_fault c \<and> http_static_cache_destroy c = (\<lambda>_. None) \<and> card {p. c_heap c p \<noteq> None} = n \<and> unat (c_count c) = n \<and> n \<le> unat mx)"
proof -
  let ?c = "snd (cache_run (http_static_cache_create mx ttl) ops)"
  let ?A = "snd (a_run (unat mx) ttl [] ops)"
  have "cache_inv (http_static_cache_create mx ttl) []"
    by (rule empty_inv) (simp_all add: http_static_cache_create_def)
  then have "cache_rel mx ttl (http_static_cache_create mx ttl) []"
    by (auto simp: cache_rel_def content_def) (simp_all add: http_static_cache_create_def)
  then have run: "fst (cache_run (http_static_cache_create mx ttl) ops) = fst (a_run (unat mx) ttl [] ops)"
    "cache_rel mx ttl ?c ?A"
    using sim_run by blast+
  then obtain xs where inv: "cache_inv ?c xs" and A: "?A = content ?c xs" and mx: "c_max ?c = mx"
    by (auto simp: cache_rel_def)
  have n: "length ?A = length xs" by (simp add: A content_def)
  have "{p. c_heap ?c p \<noteq> None} = set xs" using inv by (auto simp: cache_inv_def bare_def)
  then have card: "card {p. c_heap ?c p \<noteq> None} = length xs"
    using inv by (simp add: distinct_card cache_inv_def lru_def)
  have le: "length xs \<le> unat mx" using inv mx by (simp add: cache_inv_def)
  then have "unat (c_count ?c) = length xs"
    using inv unat_u64 [of mx] by (simp add: cache_inv_def unsigned_of_nat take_bit_nat_eq_self)
  then show ?thesis using run(1) n card le inv_destroy [OF inv] inv by (simp add: Let_def cache_inv_def lru_def)
qed

end
