(* ===== verification/Http_Precompressed.thy ===== *)
theory Http_Precompressed
  imports Http_Negotiate Static_Cache_Spec
begin

text \<open>
  Choice of a precompressed sidecar, \<open>src/http_precompressed.c\<close>.  The file system is the
  argument \<open>regular\<close>: whether \<open>stat\<close> succeeds on a path and finds a regular file.  The cache
  is the one of \<open>Static_Cache\<close>, or none.
\<close>

unbundle bit_operations_syntax

definition HTTP_PRECOMP_BR :: u32 where "HTTP_PRECOMP_BR = 1"
definition HTTP_PRECOMP_GZIP :: u32 where "HTTP_PRECOMP_GZIP = 2"
definition HTTP_PRECOMP_ZSTD :: u32 where "HTTP_PRECOMP_ZSTD = 4"

record precomp_codec =
  pc_flag :: u32
  pc_suffix :: string
  pc_token :: string
  pc_acceptable :: bool

definition precomp_codecs :: "http_accept_encoding \<Rightarrow> precomp_codec list" where
  "precomp_codecs ae =
     [\<lparr>pc_flag = HTTP_PRECOMP_ZSTD, pc_suffix = ''.zst'', pc_token = ''zstd'', pc_acceptable = zstd_acceptable ae\<rparr>,
      \<lparr>pc_flag = HTTP_PRECOMP_BR, pc_suffix = ''.br'', pc_token = ''br'', pc_acceptable = brotli_acceptable ae\<rparr>,
      \<lparr>pc_flag = HTTP_PRECOMP_GZIP, pc_suffix = ''.gz'', pc_token = ''gzip'', pc_acceptable = gzip_acceptable ae\<rparr>]"

text \<open>The existence test of one candidate: the probe, then \<open>stat\<close> with a negative insert.\<close>

definition sidecar_exists ::
    "(string \<Rightarrow> bool) \<Rightarrow> int \<Rightarrow> http_static_cache option \<Rightarrow> string \<Rightarrow> bool \<times> http_static_cache option" where
  "sidecar_exists regular now cache path =
     (case cache of None \<Rightarrow> (regular path, None)
      | Some c \<Rightarrow> (case http_static_cache_probe now c path of (pr, c1) \<Rightarrow>
          if pr = PROBE_NOT_FOUND then (False, Some c1)
          else if pr = PROBE_EXISTS then (True, Some c1)
          else if \<not> regular path then (False, Some (http_static_cache_negative_insert now c1 path))
          else (True, Some c1)))"

fun precomp_loop ::
    "(string \<Rightarrow> bool) \<Rightarrow> int \<Rightarrow> u32 \<Rightarrow> nat \<Rightarrow> string \<Rightarrow> http_static_cache option \<Rightarrow> precomp_codec list \<Rightarrow>
     (string \<times> string) option \<times> http_static_cache option" where
  "precomp_loop regular now em cap path cache [] = (None, cache)"
| "precomp_loop regular now em cap path cache (k # ks) =
     (if em AND pc_flag k = 0 then precomp_loop regular now em cap path cache ks
      else if \<not> pc_acceptable k then precomp_loop regular now em cap path cache ks
      else if cap < length path + length (pc_suffix k) + 1 then precomp_loop regular now em cap path cache ks
      else case sidecar_exists regular now cache (path @ pc_suffix k) of (ex, cache') \<Rightarrow>
        if ex then (Some (path @ pc_suffix k, pc_token k), cache')
        else precomp_loop regular now em cap path cache' ks)"

definition http_precompressed_select ::
    "(string \<Rightarrow> bool) \<Rightarrow> int \<Rightarrow> string option \<Rightarrow> u32 \<Rightarrow> string \<Rightarrow> nat \<Rightarrow> http_static_cache option \<Rightarrow>
     (string \<times> string) option \<times> http_static_cache option" where
  "http_precompressed_select regular now accept_encoding enabled_mask path buf_cap cache =
     (if enabled_mask = 0 then (None, cache)
      else case accept_encoding of None \<Rightarrow> (None, cache)
      | Some ae \<Rightarrow> precomp_loop regular now enabled_mask buf_cap path cache
          (precomp_codecs (http_accept_encoding_parse ae)))"

section \<open>Properties\<close>

text \<open>A cache tells the truth about a file system at a time if every entry that has not
  expired is positive exactly for a regular file.\<close>

definition truthful :: "(string \<Rightarrow> bool) \<Rightarrow> int \<Rightarrow> int \<Rightarrow> cache_entry list \<Rightarrow> bool" where
  "truthful regular now ttl A \<longleftrightarrow>
     (\<forall>e\<in>set A. now - e_cached_at e \<le> ttl \<longrightarrow> regular (e_path e) = (\<not> e_not_found e))"

definition true_cache :: "(string \<Rightarrow> bool) \<Rightarrow> int \<Rightarrow> http_static_cache \<Rightarrow> bool" where
  "true_cache regular now c \<longleftrightarrow>
     (\<exists>A. cache_rel (c_max c) (c_ttl c) c A \<and> truthful regular now (c_ttl c) A)"

lemma truthful_drop: "truthful r now ttl A \<Longrightarrow> truthful r now ttl (a_drop path A)"
  by (simp add: truthful_def a_drop_def)

lemma truthful_replace:
  "truthful r now ttl A \<Longrightarrow> r (e_path e) = (\<not> e_not_found e) \<Longrightarrow> truthful r now ttl (a_replace mx path e A)"
  by (auto simp: truthful_def a_replace_def a_drop_def dest: in_set_takeD)

lemma true_probe:
  assumes "true_cache r now c" "http_static_cache_probe now c path = (pr, c1)"
  shows "true_cache r now c1" "pr = PROBE_EXISTS \<Longrightarrow> r path" "pr = PROBE_NOT_FOUND \<Longrightarrow> \<not> r path"
proof -
  obtain A where rel: "cache_rel (c_max c) (c_ttl c) c A" and t: "truthful r now (c_ttl c) A"
    using assms(1) by (auto simp: true_cache_def)
  note sim = sim_probe [OF rel, of now path, unfolded simulates_def, simplified, unfolded assms(2), simplified]
  have "c_max c1 = c_max c" "c_ttl c1 = c_ttl c" using sim by (auto simp: cache_rel_def)
  then show "true_cache r now c1"
    using sim t truthful_drop [OF t, of path]
    by (cases "a_find path A") (auto simp: true_cache_def split: if_splits)
  show "pr = PROBE_EXISTS \<Longrightarrow> r path" "pr = PROBE_NOT_FOUND \<Longrightarrow> \<not> r path"
    using sim t a_find_in [of path A]
    by (cases "a_find path A"; fastforce simp: truthful_def split: if_splits)+
qed

lemma true_negative:
  assumes "true_cache r now c" "\<not> r path"
  shows "true_cache r now (http_static_cache_negative_insert now c path)"
proof -
  obtain A where rel: "cache_rel (c_max c) (c_ttl c) c A" and t: "truthful r now (c_ttl c) A"
    using assms(1) by (auto simp: true_cache_def)
  note sim = sim_insert(2) [OF rel, of now path, unfolded simulates_def, simplified]
  have "truthful r now (c_ttl c) (a_replace (unat (c_max c)) path (a_entry now path zero_stat None None None True) A)"
    using assms(2) by (intro truthful_replace t) (simp add: a_entry_def)
  moreover have "c_max (http_static_cache_negative_insert now c path) = c_max c"
    "c_ttl (http_static_cache_negative_insert now c path) = c_ttl c"
    using sim by (auto simp: cache_rel_def)
  ultimately show ?thesis using sim t by (auto simp: true_cache_def split: if_splits)
qed

lemma true_exists:
  assumes "true_cache r now c" "sidecar_exists r now (Some c) path = (ex, c')"
  shows "ex = r path \<and> (\<exists>c1. c' = Some c1 \<and> true_cache r now c1)"
proof -
  obtain pr c1 where p: "http_static_cache_probe now c path = (pr, c1)" by (cases "http_static_cache_probe now c path") auto
  note pr = true_probe [OF assms(1) p]
  show ?thesis
    using assms(2) pr true_negative [OF pr(1), of path]
    by (cases pr) (auto simp: sidecar_exists_def p split: if_splits)
qed

lemma true_loop:
  assumes "true_cache r now c" "precomp_loop r now em cap path (Some c) ks = (res, c')"
  shows "res = fst (precomp_loop r now em cap path None ks) \<and> (\<exists>c1. c' = Some c1 \<and> true_cache r now c1)"
  using assms
proof (induction ks arbitrary: c)
  case (Cons k ks)
  obtain ex c1 where e: "sidecar_exists r now (Some c) (path @ pc_suffix k) = (ex, c1)"
    by (cases "sidecar_exists r now (Some c) (path @ pc_suffix k)") auto
  then obtain c2 where c2: "ex = r (path @ pc_suffix k)" "c1 = Some c2" "true_cache r now c2"
    using true_exists [OF Cons.prems(1)] by blast
  have n: "sidecar_exists r now None (path @ pc_suffix k) = (ex, None)"
    using c2 by (simp add: sidecar_exists_def)
  show ?case using Cons.prems Cons.IH [of c] Cons.IH [of c2] e c2(2,3) n by (auto split: if_splits)
qed auto

lemma true_create: "true_cache r now (http_static_cache_create mx ttl)"
proof -
  have "cache_inv (http_static_cache_create mx ttl) []"
    by (rule empty_inv) (simp_all add: http_static_cache_create_def)
  then have "cache_rel mx ttl (http_static_cache_create mx ttl) []"
    by (auto simp: cache_rel_def content_def) (simp_all add: http_static_cache_create_def)
  then show ?thesis
    unfolding true_cache_def by (intro exI [of _ "[]"]) (simp add: truthful_def cache_rel_def)
qed

text \<open>
  C28. The cache is invisible in the choice of a sidecar: if every unexpired cache entry tells
  the truth about the files, the selection with the cache is the selection that asks the file
  system each time, and the cache it leaves is well formed and tells the truth again.
\<close>

theorem precompressed_cache_transparent:
  assumes "true_cache regular now c"
    and "http_precompressed_select regular now ae em path cap (Some c) = (res, c')"
  shows "res = fst (http_precompressed_select regular now ae em path cap None) \<and>
    (\<exists>c1. c' = Some c1 \<and> true_cache regular now c1)"
  using assms true_loop [OF assms(1)]
  by (cases ae) (auto simp: http_precompressed_select_def split: if_splits)

theorem precompressed_cache_transparent_witness:
  "fst (http_precompressed_select (\<lambda>p. p = ''a.gz'') 5 (Some ''br, gzip'') 7 ''a'' 100
      (Some (http_static_cache_create 8 60))) = Some (''a.gz'', ''gzip'')"
proof -
  let ?r = "\<lambda>p. p = ''a.gz''" and ?c = "http_static_cache_create 8 60"
  have "fst (http_precompressed_select ?r 5 (Some ''br, gzip'') 7 ''a'' 100 None) = Some (''a.gz'', ''gzip'')"
    by code_simp
  then show ?thesis
    using precompressed_cache_transparent [OF true_create surjective_pairing, of ?r 5 "Some ''br, gzip''" 7 "''a''" 100 8 60]
    by simp
qed



end
