(* ===== verification/Http_Date.thy ===== *)
theory Http_Date
  imports Http_Params "HOL-Library.Monad_Syntax"
begin

text \<open>
  HTTP dates, \<open>src/http_date.c\<close>.  The C library functions it uses are modelled: \<open>gmtime_r\<close>
  and \<open>timegm\<close> as the proleptic Gregorian calendar counted from 1 March, and the conversions
  \<open>%d\<close>, \<open>%3s\<close>, \<open>%*s\<close>, white space and literals of \<open>sscanf\<close>.  Two values C leaves open are
  arguments: \<open>conv\<close> is what \<open>%d\<close> stores for a number that does not fit an \<open>int\<close>, \<open>junk\<close> the
  string found behind the terminator of the local buffer.
\<close>

section \<open>Calendar\<close>

record tm =
  tm_sec :: int
  tm_min :: int
  tm_hour :: int
  tm_mday :: int
  tm_mon :: int
  tm_year :: int
  tm_wday :: int

text \<open>Day number of a date; \<open>m\<close> counts months from March, \<open>y\<close> the years that start there.\<close>

definition days_of :: "int \<Rightarrow> int \<Rightarrow> int \<Rightarrow> int" where
  "days_of y m d = 365 * y + y div 4 - y div 100 + y div 400 + (153 * m + 2) div 5 + d - 1 - 719468"

definition timegm :: "tm \<Rightarrow> int" where
  "timegm t =
     (let m = (tm_mon t + 10) mod 12; y = tm_year t + 1900 - (if tm_mon t < 2 then 1 else 0)
      in days_of y m (tm_mday t) * 86400 + tm_hour t * 3600 + tm_min t * 60 + tm_sec t)"

text \<open>Year and day within a cycle of 400 years: centuries, groups of four years, years.\<close>

definition split_cycle :: "int \<Rightarrow> int \<times> int" where
  "split_cycle doe =
     (let c = min 3 (doe div 36524); r1 = doe - c * 36524;
          q = r1 div 1461; r2 = r1 - q * 1461;
          y1 = min 3 (r2 div 365)
      in (c * 100 + q * 4 + y1, r2 - y1 * 365))"

definition gmtime_r :: "int \<Rightarrow> tm" where
  "gmtime_r t =
     (let days = t div 86400; s = t mod 86400;
          z = days + 719468; (yoe, doy) = split_cycle (z mod 146097);
          y = z div 146097 * 400 + yoe; m = (5 * doy + 2) div 153; mon = (m + 2) mod 12
      in \<lparr>tm_sec = s mod 60, tm_min = s div 60 mod 60, tm_hour = s div 3600,
          tm_mday = doy - (153 * m + 2) div 5 + 1, tm_mon = mon,
          tm_year = y + (if mon < 2 then 1 else 0) - 1900, tm_wday = (days + 4) mod 7\<rparr>)"

section \<open>Formatting\<close>

definition digit_at :: "int \<Rightarrow> int \<Rightarrow> char" where
  "digit_at v k = digit_char (nat (v div k mod 10))"

definition put_u8_2digit :: "int \<Rightarrow> string" where
  "put_u8_2digit v = [digit_at v 10, digit_at v 1]"

definition put_u16_4digit :: "int \<Rightarrow> string" where
  "put_u16_4digit v = [digit_at v 1000, digit_at v 100, digit_at v 10, digit_at v 1]"

definition day_names :: "string list" where
  "day_names = [''Sun'', ''Mon'', ''Tue'', ''Wed'', ''Thu'', ''Fri'', ''Sat'']"

definition month_names :: "string list" where
  "month_names = [''Jan'', ''Feb'', ''Mar'', ''Apr'', ''May'', ''Jun'',
                  ''Jul'', ''Aug'', ''Sep'', ''Oct'', ''Nov'', ''Dec'']"

text \<open>The index \<open>tm_wday & 7\<close> is \<open>tm_wday\<close> itself, as \<open>gmtime_r\<close> sets it in 0..6.\<close>

definition http_date_format_imf :: "int \<Rightarrow> string" where
  "http_date_format_imf t =
     (let tm = gmtime_r t; y = tm_year tm + 1900; year = (if y < 0 \<or> 9999 < y then 9999 else y)
      in day_names ! nat (tm_wday tm) @ '', '' @ put_u8_2digit (tm_mday tm) @ '' '' @
         month_names ! nat (tm_mon tm mod 12) @ '' '' @ put_u16_4digit year @ '' '' @
         put_u8_2digit (tm_hour tm) @ '':'' @ put_u8_2digit (tm_min tm) @ '':'' @
         put_u8_2digit (tm_sec tm) @ '' GMT'')"

section \<open>Scanning\<close>

definition c_space :: "char \<Rightarrow> bool" where
  "c_space c \<longleftrightarrow> code c = 32 \<or> 9 \<le> code c \<and> code c \<le> 13"

definition fit_int :: "(int \<Rightarrow> int) \<Rightarrow> int \<Rightarrow> int" where
  "fit_int conv v = (if - 2147483648 \<le> v \<and> v \<le> 2147483647 then v else conv v)"

definition scan_d :: "(int \<Rightarrow> int) \<Rightarrow> string \<Rightarrow> (int \<times> string) option" where
  "scan_d conv s =
     (let p = dropWhile c_space s;
          neg = (p \<noteq> [] \<and> hd p = CHR ''-'');
          p1 = (if p \<noteq> [] \<and> (hd p = CHR ''-'' \<or> hd p = CHR ''+'') then tl p else p);
          ds = takeWhile is_digit p1
      in if ds = [] then None
         else Some (fit_int conv (if neg then - int (dec_val ds) else int (dec_val ds)), dropWhile is_digit p1))"

definition scan_3s :: "string \<Rightarrow> (string \<times> string) option" where
  "scan_3s s =
     (let p = dropWhile c_space s; w = takeWhile (\<lambda>c. \<not> c_space c) (take 3 p)
      in if w = [] then None else Some (w, drop (length w) p))"

definition scan_skip_s :: "string \<Rightarrow> string option" where
  "scan_skip_s s =
     (let p = dropWhile c_space s
      in if p = [] then None else Some (dropWhile (\<lambda>c. \<not> c_space c) p))"

definition scan_lit :: "char \<Rightarrow> string \<Rightarrow> string option" where
  "scan_lit c s = (case s of [] \<Rightarrow> None | x # r \<Rightarrow> if x = c then Some r else None)"

abbreviation scan_ws :: "string \<Rightarrow> string" where
  "scan_ws s \<equiv> dropWhile c_space s"

text \<open>The common part \<open>%d:%d:%d\<close>.\<close>

definition scan_time :: "(int \<Rightarrow> int) \<Rightarrow> string \<Rightarrow> (int \<times> int \<times> int \<times> string) option" where
  "scan_time conv s =
     do { (h, s) \<leftarrow> scan_d conv s; s \<leftarrow> scan_lit (CHR '':'') s;
          (m, s) \<leftarrow> scan_d conv s; s \<leftarrow> scan_lit (CHR '':'') s;
          (sec, s) \<leftarrow> scan_d conv s; Some (h, m, sec, s) }"

definition tm_fields_in_range :: "tm \<Rightarrow> bool" where
  "tm_fields_in_range t \<longleftrightarrow> 0 \<le> tm_mon t \<and> tm_mon t \<le> 11 \<and> 1 \<le> tm_mday t \<and> tm_mday t \<le> 31 \<and>
     0 \<le> tm_hour t \<and> tm_hour t \<le> 23 \<and> 0 \<le> tm_min t \<and> tm_min t \<le> 59 \<and> 0 \<le> tm_sec t \<and> tm_sec t \<le> 59"

definition http_date_month_from_abbr :: "string \<Rightarrow> int option" where
  "http_date_month_from_abbr mon = map_option (\<lambda>i. int i) (find (\<lambda>i. month_names ! i = mon) [0..<12])"

text \<open>The tail the three branches share: month, range test, \<open>timegm\<close>; \<open>-1\<close> on failure.\<close>

definition date_of :: "int \<Rightarrow> string \<Rightarrow> int \<Rightarrow> int \<Rightarrow> int \<Rightarrow> int \<Rightarrow> int" where
  "date_of mday mon year h m s =
     (case http_date_month_from_abbr mon of None \<Rightarrow> - 1
      | Some i \<Rightarrow> let t = \<lparr>tm_sec = s, tm_min = m, tm_hour = h, tm_mday = mday, tm_mon = i, tm_year = year, tm_wday = 0\<rparr>
          in if tm_fields_in_range t then timegm t else - 1)"

definition or_fail :: "int option \<Rightarrow> int" where
  "or_fail r = (case r of None \<Rightarrow> - 1 | Some t \<Rightarrow> t)"

definition parse_fixdate :: "(int \<Rightarrow> int) \<Rightarrow> string \<Rightarrow> int" where
  "parse_fixdate conv s = or_fail
     (do { (mday, s) \<leftarrow> scan_d conv s; (mon, s) \<leftarrow> scan_3s (scan_ws s);
           (year, s) \<leftarrow> scan_d conv (scan_ws s); (h, m, sec, s) \<leftarrow> scan_time conv (scan_ws s);
           Some (date_of mday mon (year - 1900) h m sec) })"

definition parse_rfc850 :: "(int \<Rightarrow> int) \<Rightarrow> string \<Rightarrow> int" where
  "parse_rfc850 conv s = or_fail
     (do { (mday, s) \<leftarrow> scan_d conv s; s \<leftarrow> scan_lit (CHR ''-'') s; (mon, s) \<leftarrow> scan_3s s;
           s \<leftarrow> scan_lit (CHR ''-'') s; (year, s) \<leftarrow> scan_d conv s;
           (h, m, sec, s) \<leftarrow> scan_time conv (scan_ws s);
           Some (date_of mday mon (if year < 69 then year + 100 else year) h m sec) })"

definition parse_asctime :: "(int \<Rightarrow> int) \<Rightarrow> string \<Rightarrow> int" where
  "parse_asctime conv s = or_fail
     (do { s \<leftarrow> scan_skip_s s; (mon, s) \<leftarrow> scan_3s (scan_ws s); (mday, s) \<leftarrow> scan_d conv (scan_ws s);
           (h, m, sec, s) \<leftarrow> scan_time conv (scan_ws s); (year, s) \<leftarrow> scan_d conv (scan_ws s);
           Some (date_of mday mon (year - 1900) h m sec) })"

definition http_date_parse_imf :: "(int \<Rightarrow> int) \<Rightarrow> string \<Rightarrow> string \<Rightarrow> int" where
  "http_date_parse_imf conv junk src =
     (if length src = 0 \<or> 64 \<le> length src then - 1
      else if 26 \<le> length src \<and> src ! 3 = CHR '','' then parse_fixdate conv (c_string (drop 5 src))
      else if CHR '','' \<in> set src
      then (let k = length (takeWhile (\<lambda>c. c \<noteq> CHR '','') src)
            in parse_rfc850 conv (if k + 2 \<le> length src then c_string (drop (k + 2) src) else junk))
      else parse_asctime conv (c_string src))"

section \<open>The calendar is a bijection\<close>

lemma div_bounds:
  fixes x k :: int
  assumes "0 < k"
  shows "k * (x div k) \<le> x" "x < k * (x div k) + k"
  using mult_div_mod_eq [of k x] pos_mod_sign [of k x] pos_mod_bound [of k x] assms by linarith+

lemma march_bounds:
  fixes doy m w :: int
  assumes "0 \<le> doy" "doy \<le> 365" "153 * m \<le> 5 * doy + 2" "5 * doy + 2 < 153 * m + 153"
    "5 * w \<le> 153 * m + 2" "153 * m + 2 < 5 * w + 5"
  shows "0 \<le> m" "m \<le> 11" "1 \<le> doy - w + 1" "doy - w + 1 \<le> 31"
  using assms by linarith+

lemma march_month:
  fixes doy :: int
  assumes "0 \<le> doy" "doy \<le> 365" "m = (5 * doy + 2) div 153"
  shows "0 \<le> m" "m \<le> 11" "1 \<le> doy - (153 * m + 2) div 5 + 1" "doy - (153 * m + 2) div 5 + 1 \<le> 31"
  using march_bounds [OF assms(1,2), of m "(153 * m + 2) div 5"] div_bounds [of 153 "5 * doy + 2"]
    div_bounds [of 5 "153 * m + 2"] by (simp_all only: assms(3) [symmetric] zero_less_numeral simp_thms)

lemma march_years:
  fixes era c q y1 :: int
  assumes "0 \<le> c" "c \<le> 3" "0 \<le> q" "q \<le> 24" "0 \<le> y1" "y1 \<le> 3" "y = era * 400 + c * 100 + q * 4 + y1"
  shows "y div 4 = era * 100 + c * 25 + q" "y div 100 = era * 4 + c" "y div 400 = era"
proof -
  show "y div 4 = era * 100 + c * 25 + q" using assms by (intro int_div_pos_eq [of _ _ _ y1]) auto
  show "y div 100 = era * 4 + c" using assms by (intro int_div_pos_eq [of _ _ _ "q * 4 + y1"]) auto
  show "y div 400 = era" using assms by (intro int_div_pos_eq [of _ _ _ "c * 100 + q * 4 + y1"]) auto
qed

text \<open>The linear facts, stated over variables so that no quotient is split.\<close>

lemma day_sum:
  fixes z era doe :: int
  assumes "z = era * 146097 + doe" "doe = c * 36524 + q * 1461 + y1 * 365 + doy" "y = era * 400 + c * 100 + q * 4 + y1"
  shows "365 * y + (era * 100 + c * 25 + q) - (era * 4 + c) + era + k + (doy - k + 1) - 1 - 719468 = z - 719468"
  using assms by simp

lemma second_sum:
  fixes s :: int
  assumes "h * 60 + m = m'" "m' * 60 + x = s"
  shows "h * 3600 + m * 60 + x = s"
  using assms by auto

lemma cap_digit:
  fixes doe :: int
  assumes "0 \<le> doe" "doe < 146097" "c = min 3 (doe div 36524)"
  shows "0 \<le> c" "c \<le> 3" "0 \<le> doe - c * 36524" "doe - c * 36524 \<le> 36524"
proof -
  define w where "w = doe div 36524"
  have w: "36524 * w \<le> doe" "doe < 36524 * w + 36524" using div_bounds [of 36524 doe] by (simp_all add: w_def)
  show "0 \<le> c" "c \<le> 3" "0 \<le> doe - c * 36524" "doe - c * 36524 \<le> 36524"
    using w assms(1,2) by (auto simp: assms(3) w_def [symmetric] min_def)
qed

lemma cap_year:
  fixes r :: int
  assumes "0 \<le> r" "r \<le> 1460" "y1 = min 3 (r div 365)"
  shows "0 \<le> y1" "y1 \<le> 3" "0 \<le> r - y1 * 365" "r - y1 * 365 \<le> 365"
proof -
  define w where "w = r div 365"
  have w: "365 * w \<le> r" "r < 365 * w + 365" using div_bounds [of 365 r] by (simp_all add: w_def)
  show "0 \<le> y1" "y1 \<le> 3" "0 \<le> r - y1 * 365" "r - y1 * 365 \<le> 365"
    using w assms(1,2) by (auto simp: assms(3) w_def [symmetric] min_def)
qed

lemma split_cycle_digits:
  assumes "0 \<le> doe" "doe < 146097" "split_cycle doe = (yoe, doy)"
  obtains c q y1 where "0 \<le> c" "c \<le> 3" "0 \<le> q" "q \<le> 24" "0 \<le> y1" "y1 \<le> 3" "0 \<le> doy" "doy \<le> 365"
    "yoe = c * 100 + q * 4 + y1" "doe = c * 36524 + q * 1461 + y1 * 365 + doy"
proof -
  define c r1 where "c = min 3 (doe div 36524)" and "r1 = doe - c * 36524"
  define q r2 where "q = r1 div 1461" and "r2 = r1 - q * 1461"
  define y1 where "y1 = min 3 (r2 div 365)"
  have c: "0 \<le> c" "c \<le> 3" "0 \<le> r1" "r1 \<le> 36524"
    using cap_digit [OF assms(1,2) c_def] by (simp_all add: r1_def)
  have "1461 * q \<le> r1" "r1 < 1461 * q + 1461" using div_bounds [of 1461 r1] by (simp_all add: q_def)
  then have q: "0 \<le> q" "q \<le> 24" "0 \<le> r2" "r2 \<le> 1460" using c(3,4) by (simp_all add: r2_def)
  have eq: "yoe = c * 100 + q * 4 + y1" "doy = r2 - y1 * 365"
    using assms(3) by (simp_all only: split_cycle_def Let_def prod.inject c_def r1_def q_def r2_def y1_def)
  have "0 \<le> y1" "y1 \<le> 3" "0 \<le> doy" "doy \<le> 365"
    using cap_year [OF q(3,4) y1_def] by (simp_all add: eq(2))
  then show thesis using that [of c q y1] c q eq r1_def r2_def by linarith
qed

lemma gmtime_fields:
  assumes "tm = gmtime_r t"
  shows "timegm (tm\<lparr>tm_wday := w\<rparr>) = t" "tm_fields_in_range tm" "0 \<le> tm_wday tm \<and> tm_wday tm \<le> 6"
proof -
  define days s z where "days = t div 86400" and "s = t mod 86400" and "z = days + 719468"
  obtain yoe doy where sp: "split_cycle (z mod 146097) = (yoe, doy)" by (cases "split_cycle (z mod 146097)") auto
  define y m mon where "y = z div 146097 * 400 + yoe" and "m = (5 * doy + 2) div 153" and "mon = (m + 2) mod 12"
  have tm: "tm = \<lparr>tm_sec = s mod 60, tm_min = s div 60 mod 60, tm_hour = s div 3600,
          tm_mday = doy - (153 * m + 2) div 5 + 1, tm_mon = mon,
          tm_year = y + (if mon < 2 then 1 else 0) - 1900, tm_wday = (days + 4) mod 7\<rparr>"
    using sp unfolding assms gmtime_r_def Let_def z_def days_def s_def y_def m_def mon_def by simp
  have doe: "0 \<le> z mod 146097" "z mod 146097 < 146097" by simp_all
  obtain c q y1 where dig: "0 \<le> c" "c \<le> 3" "0 \<le> q" "q \<le> 24" "0 \<le> y1" "y1 \<le> 3" "0 \<le> doy" "doy \<le> 365"
    and yoe: "yoe = c * 100 + q * 4 + y1" "z mod 146097 = c * 36524 + q * 1461 + y1 * 365 + doy"
    by (rule split_cycle_digits [OF doe sp])
  note m = march_month [OF dig(7,8) m_def]
  have y: "y = z div 146097 * 400 + c * 100 + q * 4 + y1" by (simp add: y_def yoe)
  note yd = march_years [OF dig(1-6) y]
  have mon: "0 \<le> mon" "mon \<le> 11" "(mon + 10) mod 12 = m" using m(1,2) by (simp_all add: mon_def mod_simps)
  have s: "0 \<le> s" "s < 86400" by (simp_all add: s_def)
  have "z = z div 146097 * 146097 + z mod 146097" by simp
  then have "days_of y m (doy - (153 * m + 2) div 5 + 1) = days"
    using day_sum [OF _ yoe(2) y] by (simp only: days_of_def yd) (simp add: z_def)
  then have d: "timegm (tm\<lparr>tm_wday := w\<rparr>) = days * 86400 + s div 3600 * 3600 + (s div 60 mod 60) * 60 + s mod 60"
    using mon(3) by (simp add: timegm_def tm)
  have h: "s div 3600 = s div 60 div 60" using zdiv_zmult2_eq [of 60 s 60] by simp
  have "t = days * 86400 + s" by (simp add: days_def s_def)
  then show "timegm (tm\<lparr>tm_wday := w\<rparr>) = t"
    using d second_sum [OF div_mult_mod_eq div_mult_mod_eq, of s] by (simp add: add.assoc h)
  have "0 \<le> s div 3600" using s by (simp add: pos_imp_zdiv_nonneg_iff)
  moreover have "s div 3600 \<le> 23" using s zdiv_mono1 [of s 86399 3600] by simp
  moreover have "0 \<le> s mod 60" "s mod 60 \<le> 59" "0 \<le> s div 60 mod 60" "s div 60 mod 60 \<le> 59"
    "0 \<le> (days + 4) mod 7" "(days + 4) mod 7 \<le> 6"
    by (simp_all add: zle_diff1_eq [symmetric])
  ultimately show "tm_fields_in_range tm" "0 \<le> tm_wday tm \<and> tm_wday tm \<le> 6"
    using m(3,4) mon(1,2) unfolding tm_fields_in_range_def tm tm.select_convs by blast+
qed

section \<open>Scanning what was printed\<close>

lemma digit_not_space: "is_digit c \<Longrightarrow> \<not> c_space c \<and> c \<noteq> CHR ''-'' \<and> c \<noteq> CHR ''+''"
  by (auto simp: is_digit_def c_space_def)

lemma scan_d_digits:
  assumes "ds \<noteq> []" "\<forall>c\<in>set ds. is_digit c" "r = [] \<or> \<not> is_digit (hd r)" "int (dec_val ds) \<le> 2147483647"
  shows "scan_d conv (ds @ r) = Some (int (dec_val ds), r)"
proof -
  obtain c cs where ds: "ds = c # cs" using assms(1) by (cases ds) auto
  have c: "\<not> c_space c" "c \<noteq> CHR ''-''" "c \<noteq> CHR ''+''" using digit_not_space [of c] assms(2) ds by auto
  have t: "takeWhile is_digit (ds @ r) = ds" "dropWhile is_digit (ds @ r) = r"
    using assms(2,3) by (cases r; simp add: takeWhile_all_append dropWhile_all_append)+
  have "dropWhile c_space (ds @ r) = ds @ r" using c by (simp add: ds)
  then show ?thesis
    using c t assms(1,4) by (simp add: scan_d_def Let_def fit_int_def) (simp add: ds)
qed

lemma put_2_value:
  assumes "0 \<le> v" "v \<le> 99"
  shows "\<forall>c\<in>set (put_u8_2digit v). is_digit c" "int (dec_val (put_u8_2digit v)) = v" "put_u8_2digit v \<noteq> []"
proof -
  have d: "nat (v div 10 mod 10) < 10" "nat (v div 1 mod 10) < 10" by simp_all
  then show "\<forall>c\<in>set (put_u8_2digit v). is_digit c" "put_u8_2digit v \<noteq> []"
    by (simp_all add: put_u8_2digit_def digit_at_def)
  have "v div 10 mod 10 = v div 10" using assms by (simp add: div_bounds)
  then show "int (dec_val (put_u8_2digit v)) = v"
    using d assms by (simp add: put_u8_2digit_def digit_at_def dec_val_def pos_imp_zdiv_nonneg_iff)
qed

lemma dec_val_4:
  "a < 10 \<Longrightarrow> b < 10 \<Longrightarrow> c < 10 \<Longrightarrow> d < 10 \<Longrightarrow>
   dec_val [digit_char a, digit_char b, digit_char c, digit_char d] = ((a * 10 + b) * 10 + c) * 10 + d"
  by (simp add: dec_val_def)

lemma div_mult2_int: "(v :: int) div 10 div 10 = v div 100" "v div 100 div 10 = v div 1000"
  using zdiv_zmult2_eq [of 10 v 10] zdiv_zmult2_eq [of 10 v 100] by (simp_all add: mult.commute)

lemma put_4_value:
  assumes "0 \<le> v" "v \<le> 9999"
  shows "\<forall>c\<in>set (put_u16_4digit v). is_digit c" "int (dec_val (put_u16_4digit v)) = v" "put_u16_4digit v \<noteq> []"
proof -
  have d: "nat (v div k mod 10) < 10" for k by simp
  then show "\<forall>c\<in>set (put_u16_4digit v). is_digit c" "put_u16_4digit v \<noteq> []"
    by (simp_all add: put_u16_4digit_def digit_at_def)
  have n: "int (nat (v div k mod 10)) = v div k mod 10" for k by simp
  have "v div 1000 \<le> 9" using assms(2) zdiv_mono1 [of v 9999 1000] by simp
  moreover have "0 \<le> v div 1000" using assms(1) by (simp add: pos_imp_zdiv_nonneg_iff)
  ultimately have top: "v div 1000 mod 10 = v div 1000" by (intro mod_pos_pos_trivial) simp_all
  have "((v div 1000 mod 10 * 10 + v div 100 mod 10) * 10 + v div 10 mod 10) * 10 + v div 1 mod 10 = v"
    using div_mult_mod_eq [of "v div 100" 10] div_mult_mod_eq [of "v div 10" 10] div_mult_mod_eq [of v 10]
    by (simp only: top div_mult2_int div_by_1)
  moreover have "int (dec_val (put_u16_4digit v)) =
      ((v div 1000 mod 10 * 10 + v div 100 mod 10) * 10 + v div 10 mod 10) * 10 + v div 1 mod 10"
    unfolding put_u16_4digit_def digit_at_def dec_val_4 [OF d d d d]
    by (simp only: of_nat_add of_nat_mult of_nat_numeral n)
  ultimately show "int (dec_val (put_u16_4digit v)) = v" by (simp only:)
qed

lemma month_scan:
  assumes "0 \<le> m" "m \<le> 11"
  shows "http_date_month_from_abbr (month_names ! nat (m mod 12)) = Some m"
    "\<exists>a b c. month_names ! nat (m mod 12) = [a, b, c] \<and> \<not> c_space a \<and> \<not> c_space b \<and> \<not> c_space c \<and> a \<noteq> NUL \<and> b \<noteq> NUL \<and> c \<noteq> NUL"
proof -
  have "m \<in> set (map int [0..<12])" using assms image_eqI [of m int "nat m" "{0..<12}"] by simp
  moreover have "\<forall>m\<in>set (map int [0..<12]). http_date_month_from_abbr (month_names ! nat (m mod 12)) = Some m" by code_simp
  moreover have "\<forall>m\<in>set (map int [0..<12]). length (month_names ! nat (m mod 12)) = 3 \<and>
      list_all (\<lambda>c. \<not> c_space c \<and> c \<noteq> NUL) (month_names ! nat (m mod 12))" by code_simp
  ultimately have a: "http_date_month_from_abbr (month_names ! nat (m mod 12)) = Some m"
    and b: "length (month_names ! nat (m mod 12)) = 3" "list_all (\<lambda>c. \<not> c_space c \<and> c \<noteq> NUL) (month_names ! nat (m mod 12))"
    by blast+
  show "http_date_month_from_abbr (month_names ! nat (m mod 12)) = Some m" by (rule a)
  from b(1) obtain x y z where l: "month_names ! nat (m mod 12) = [x, y, z]"
    by (auto simp: numeral_3_eq_3 length_Suc_conv)
  then show "\<exists>a b c. month_names ! nat (m mod 12) = [a, b, c] \<and> \<not> c_space a \<and> \<not> c_space b \<and> \<not> c_space c \<and> a \<noteq> NUL \<and> b \<noteq> NUL \<and> c \<noteq> NUL"
    using b(2) by simp
qed

lemma space_is_space [simp]: "c_space (CHR '' '')"
  by (simp add: c_space_def)

lemma scan_3s_word:
  "\<not> c_space a \<Longrightarrow> \<not> c_space b \<Longrightarrow> \<not> c_space c \<Longrightarrow> scan_3s (a # b # c # r) = Some ([a, b, c], r)"
  by (simp add: scan_3s_def)

lemma scan_ws_digits: "ds \<noteq> [] \<Longrightarrow> \<forall>c\<in>set ds. is_digit c \<Longrightarrow> scan_ws (CHR '' '' # ds @ r) = ds @ r"
  using digit_not_space by (cases ds) auto

lemma scan_time_print:
  assumes "0 \<le> h" "h \<le> 99" "0 \<le> m" "m \<le> 99" "0 \<le> x" "x \<le> 99"
  shows "scan_time conv (put_u8_2digit h @ CHR '':'' # put_u8_2digit m @ CHR '':'' # put_u8_2digit x @ '' GMT'') =
    Some (h, m, x, '' GMT'')"
proof -
  have d: "\<not> is_digit (CHR '':'')" "\<not> is_digit (CHR '' '')" by code_simp+
  show ?thesis
    using assms d
    by (simp add: scan_time_def scan_lit_def scan_d_digits put_2_value)
qed

lemma digits_no_nul: "\<forall>c\<in>set ds. is_digit c \<Longrightarrow> NUL \<notin> set ds"
  by (auto simp: is_digit_def NUL_def)

lemma c_string_id: "NUL \<notin> set s \<Longrightarrow> c_string s = s"
  unfolding c_string_def takeWhile_eq_all_conv by blast

lemma parse_fixdate_print:
  assumes "tm_fields_in_range tm" "0 \<le> y" "y \<le> 9999"
  shows "parse_fixdate conv (c_string (put_u8_2digit (tm_mday tm) @ '' '' @ month_names ! nat (tm_mon tm mod 12) @ '' '' @
      put_u16_4digit y @ '' '' @ put_u8_2digit (tm_hour tm) @ '':'' @ put_u8_2digit (tm_min tm) @ '':'' @
      put_u8_2digit (tm_sec tm) @ '' GMT'')) = timegm (tm\<lparr>tm_year := y - 1900, tm_wday := 0\<rparr>)"
proof -
  have r: "0 \<le> tm_mday tm" "tm_mday tm \<le> 99" "0 \<le> tm_hour tm" "tm_hour tm \<le> 99" "0 \<le> tm_min tm" "tm_min tm \<le> 99"
    "0 \<le> tm_sec tm" "tm_sec tm \<le> 99" "0 \<le> tm_mon tm" "tm_mon tm \<le> 11"
    using assms(1) by (auto simp: tm_fields_in_range_def)
  obtain a b c where mon: "month_names ! nat (tm_mon tm mod 12) = [a, b, c]" "\<not> c_space a" "\<not> c_space b" "\<not> c_space c"
    and nn: "a \<noteq> NUL" "b \<noteq> NUL" "c \<noteq> NUL"
    using month_scan(2) [OF r(9,10)] by blast
  define T where "T = put_u8_2digit (tm_hour tm) @ CHR '':'' # put_u8_2digit (tm_min tm) @ CHR '':'' # put_u8_2digit (tm_sec tm) @ '' GMT''"
  define S where "S = put_u8_2digit (tm_mday tm) @ CHR '' '' # a # b # c # CHR '' '' # put_u16_4digit y @ CHR '' '' # T"
  have S: "put_u8_2digit (tm_mday tm) @ '' '' @ month_names ! nat (tm_mon tm mod 12) @ '' '' @
      put_u16_4digit y @ '' '' @ put_u8_2digit (tm_hour tm) @ '':'' @ put_u8_2digit (tm_min tm) @ '':'' @
      put_u8_2digit (tm_sec tm) @ '' GMT'' = S"
    by (simp add: S_def T_def mon(1))
  have "NUL \<notin> set S"
    using nn digits_no_nul [OF put_2_value(1)] digits_no_nul [OF put_4_value(1) [OF assms(2,3)]] r
    by (auto simp: S_def T_def) (auto simp: NUL_def)
  then have cs: "c_string S = S" by (rule c_string_id)
  have d: "\<not> is_digit (CHR '' '')" by code_simp
  have ms: "scan_ws (CHR '' '' # a # b # c # x) = a # b # c # x" for x using mon by simp
  have "scan_ws (CHR '' '' # T) = T"
    unfolding T_def using put_2_value [OF r(3,4)] by (intro scan_ws_digits) simp_all
  moreover have "scan_ws (CHR '' '' # put_u16_4digit y @ CHR '' '' # T) = put_u16_4digit y @ CHR '' '' # T"
    using put_4_value [OF assms(2,3)] by (intro scan_ws_digits) simp_all
  moreover have "scan_d conv (put_u16_4digit y @ CHR '' '' # T) = Some (y, CHR '' '' # T)"
    using scan_d_digits [of "put_u16_4digit y" "CHR '' '' # T" conv] put_4_value [OF assms(2,3)] d assms by simp
  moreover have "scan_d conv S = Some (tm_mday tm, CHR '' '' # a # b # c # CHR '' '' # put_u16_4digit y @ CHR '' '' # T)"
    unfolding S_def
    using scan_d_digits [of "put_u8_2digit (tm_mday tm)" _ conv] put_2_value [OF r(1,2)] d r by simp
  moreover have "scan_time conv T = Some (tm_hour tm, tm_min tm, tm_sec tm, '' GMT'')"
    unfolding T_def by (rule scan_time_print [OF r(3-8)])
  ultimately have "parse_fixdate conv S = date_of (tm_mday tm) [a, b, c] (y - 1900) (tm_hour tm) (tm_min tm) (tm_sec tm)"
    by (simp only: parse_fixdate_def bind.simps prod.case ms scan_3s_word [OF mon(2-4)] or_fail_def option.case)
  also have "\<dots> = timegm (tm\<lparr>tm_year := y - 1900, tm_wday := 0\<rparr>)"
    using month_scan(1) [OF r(9,10)] assms(1) unfolding mon(1)
    by (simp add: date_of_def tm_fields_in_range_def timegm_def)
  finally show ?thesis unfolding S cs .
qed

section \<open>Properties\<close>

text \<open>
  C30. Formatting and parsing dates is a round trip: for every time whose year has at most four
  digits, the fixed 29-byte date is read back as that time, whatever the library does with
  numbers that do not fit an \<open>int\<close> and whatever lies behind the buffer.
\<close>

theorem http_date_roundtrip:
  assumes "0 \<le> tm_year (gmtime_r t) + 1900" "tm_year (gmtime_r t) + 1900 \<le> 9999"
  shows "length (http_date_format_imf t) = 29 \<and> http_date_parse_imf conv junk (http_date_format_imf t) = t"
proof -
  define tm where "tm = gmtime_r t"
  define y where "y = tm_year tm + 1900"
  note f = gmtime_fields [OF tm_def]
  have "nat (tm_wday tm) \<in> set [0..<7]" using f(3) by auto
  moreover have "\<forall>i\<in>set [0..<7]. length (day_names ! i) = 3" by code_simp
  ultimately have "length (day_names ! nat (tm_wday tm)) = 3" by blast
  then obtain a b c where day: "day_names ! nat (tm_wday tm) = [a, b, c]"
    by (auto simp: numeral_3_eq_3 length_Suc_conv)
  define R where "R = put_u8_2digit (tm_mday tm) @ '' '' @ month_names ! nat (tm_mon tm mod 12) @ '' '' @
      put_u16_4digit y @ '' '' @ put_u8_2digit (tm_hour tm) @ '':'' @ put_u8_2digit (tm_min tm) @ '':'' @
      put_u8_2digit (tm_sec tm) @ '' GMT''"
  have F: "http_date_format_imf t = a # b # c # CHR '','' # CHR '' '' # R"
  proof -
    have "\<not> (y < 0 \<or> 9999 < y)" using assms by (auto simp: y_def tm_def)
    then show ?thesis
      unfolding http_date_format_imf_def Let_def tm_def [symmetric] y_def [symmetric] by (simp add: day R_def)
  qed
  have "\<exists>d e g. month_names ! nat (tm_mon tm mod 12) = [d, e, g]"
    using month_scan(2) [of "tm_mon tm"] f(2) by (auto simp: tm_fields_in_range_def)
  then have len: "length R = 24" by (auto simp: R_def put_u8_2digit_def put_u16_4digit_def)
  have "parse_fixdate conv (c_string R) = timegm (tm\<lparr>tm_year := y - 1900, tm_wday := 0\<rparr>)"
    unfolding R_def using assms by (intro parse_fixdate_print f(2)) (simp_all add: y_def tm_def)
  also have "\<dots> = t" using f(1) [of 0] by (simp add: y_def)
  finally show ?thesis using len by (simp add: F http_date_parse_imf_def)
qed

theorem http_date_roundtrip_witness:
  "http_date_parse_imf (\<lambda>v. v) [] (http_date_format_imf 784111777) = 784111777 \<and>
   http_date_format_imf 784111777 = ''Sun, 06 Nov 1994 08:49:37 GMT''"
proof -
  have "0 \<le> tm_year (gmtime_r 784111777) + 1900" "tm_year (gmtime_r 784111777) + 1900 \<le> 9999" by code_simp+
  moreover have "http_date_format_imf 784111777 = ''Sun, 06 Nov 1994 08:49:37 GMT''" by code_simp
  ultimately show ?thesis using http_date_roundtrip [of 784111777 "\<lambda>v. v" "[]"] by simp
qed

lemma scan_d_text:
  "ds \<noteq> [] \<Longrightarrow> list_all is_digit ds \<Longrightarrow> r = [] \<or> \<not> is_digit (hd r) \<Longrightarrow> int (dec_val ds) \<le> 2147483647 \<Longrightarrow>
   s = ds @ r \<Longrightarrow> scan_d conv s = Some (int (dec_val ds), r)"
  using scan_d_digits [of ds r conv] by (simp add: list_all_iff)

lemma rfc850_sample: "parse_rfc850 conv ''06-Nov-94 08:49:37'' = 784111777"
proof -
  have "scan_d conv ''06-Nov-94 08:49:37'' = Some (int (dec_val ''06''), ''-Nov-94 08:49:37'')"
    by (rule scan_d_text) (code_simp, code_simp, code_simp, code_simp, simp)
  moreover have "scan_d conv ''94 08:49:37'' = Some (int (dec_val ''94''), '' 08:49:37'')"
    by (rule scan_d_text) (code_simp, code_simp, code_simp, code_simp, simp)
  moreover have "scan_d conv ''08:49:37'' = Some (int (dec_val ''08''), '':49:37'')"
    by (rule scan_d_text) (code_simp, code_simp, code_simp, code_simp, simp)
  moreover have "scan_d conv ''49:37'' = Some (int (dec_val ''49''), '':37'')"
    by (rule scan_d_text) (code_simp, code_simp, code_simp, code_simp, simp)
  moreover have "scan_d conv ''37'' = Some (int (dec_val ''37''), [])"
    by (rule scan_d_text) (code_simp, code_simp, code_simp, code_simp, simp)
  moreover have "scan_3s ''Nov-94 08:49:37'' = Some (''Nov'', ''-94 08:49:37'')"
    by (rule scan_3s_word) code_simp+
  moreover have "scan_ws '' 08:49:37'' = ''08:49:37''" by code_simp
  moreover have "date_of (int (dec_val ''06'')) ''Nov'' (int (dec_val ''94'')) (int (dec_val ''08''))
      (int (dec_val ''49'')) (int (dec_val ''37'')) = 784111777" by code_simp
  moreover have "\<not> int (dec_val ''94'') < 69" by code_simp
  ultimately show ?thesis
    by (simp only: parse_rfc850_def scan_time_def scan_lit_def or_fail_def bind.simps prod.case option.case list.case
        if_True if_False simp_thms)
qed

text \<open>
  A date whose only comma is its last byte is read from behind the terminator: the value
  returned for \<open>Sunday,\<close> is whatever the string there, which was never written, denotes.
\<close>

lemma http_date_reads_past_end:
  "http_date_parse_imf conv junk ''Sunday,'' = parse_rfc850 conv junk \<and>
   parse_rfc850 conv ''06-Nov-94 08:49:37'' \<noteq> parse_rfc850 conv []"
proof -
  have "parse_rfc850 conv [] = - 1" by (simp add: parse_rfc850_def scan_d_def or_fail_def)
  moreover have "http_date_parse_imf conv junk ''Sunday,'' = parse_rfc850 conv junk"
    by (simp add: http_date_parse_imf_def)
  ultimately show ?thesis using rfc850_sample [of conv] by simp
qed

end
