(* ===== verification/Response_Api.thy ===== *)
theory Response_Api
  imports Http_Params
begin

text \<open>
  The response object as the C side of the server fills it,
  \<open>src/http_response_server_api.c\<close>, and the request accessors of \<open>src/http_request.c\<close> that
  read headers and the method.  A hash table with string keys is an association list in
  insertion order: an update replaces the value in place, a new key goes to the end.
\<close>

section \<open>Ordered tables\<close>

fun ht_update :: "'k \<Rightarrow> 'v \<Rightarrow> ('k \<times> 'v) list \<Rightarrow> ('k \<times> 'v) list" where
  "ht_update k v [] = [(k, v)]"
| "ht_update k v ((k', v') # t) = (if k' = k then (k, v) # t else (k', v') # ht_update k v t)"

lemma ht_update_find: "map_of (ht_update k v t) = (map_of t)(k \<mapsto> v)"
  by (induction t) (auto simp: fun_eq_iff)

section \<open>Requests\<close>

datatype header_value = H_Str string | H_Arr "string list"

record http_request =
  req_method :: "string option"
  req_uri :: "string option"
  req_headers :: "(string \<times> header_value) list option"
  req_keep_alive :: bool

definition http_request_method_is_get :: "http_request option \<Rightarrow> bool" where
  "http_request_method_is_get r = (case r of None \<Rightarrow> False | Some req \<Rightarrow> req_method req = Some ''GET'')"

definition http_request_method_is_head :: "http_request option \<Rightarrow> bool" where
  "http_request_method_is_head r = (case r of None \<Rightarrow> False | Some req \<Rightarrow> req_method req = Some ''HEAD'')"

definition http_request_find_header :: "http_request option \<Rightarrow> string \<Rightarrow> string option" where
  "http_request_find_header r name =
     (case r of None \<Rightarrow> None | Some req \<Rightarrow> (case req_headers req of None \<Rightarrow> None | Some t \<Rightarrow>
        (case map_of t name of
           None \<Rightarrow> None
         | Some (H_Str v) \<Rightarrow> Some v
         | Some (H_Arr []) \<Rightarrow> None
         | Some (H_Arr (v # _)) \<Rightarrow> Some v)))"

definition http_response_should_keep_alive :: "http_request option \<Rightarrow> bool" where
  "http_response_should_keep_alive r = (case r of None \<Rightarrow> False | Some req \<Rightarrow> req_keep_alive req)"

section \<open>Responses\<close>

text \<open>\<open>r_body\<close> is the string builder, with \<^const>\<open>None\<close> while nothing was allocated;
  \<open>r_body_view\<close> is the borrowed body that shadows it.\<close>

record http_response =
  r_status :: int
  r_reason :: "string option"
  r_headers :: "(string \<times> header_value) list"
  r_body :: "string option"
  r_body_view :: "string option"
  r_committed :: bool
  r_is_head :: bool
  r_version :: "string option"

definition http_response_set_head :: "http_response \<Rightarrow> bool \<Rightarrow> http_response" where
  "http_response_set_head r h = r\<lparr>r_is_head := h\<rparr>"

definition http_response_set_protocol_version :: "http_response \<Rightarrow> string \<Rightarrow> http_response" where
  "http_response_set_protocol_version r v = r\<lparr>r_version := Some v\<rparr>"

definition http_response_set_committed :: "http_response \<Rightarrow> http_response" where
  "http_response_set_committed r = r\<lparr>r_committed := True\<rparr>"

definition http_response_get_body :: "http_response \<Rightarrow> string option" where
  "http_response_get_body r = (case r_body_view r of Some v \<Rightarrow> Some v | None \<Rightarrow> r_body r)"

definition http_response_force_connection_close :: "http_response \<Rightarrow> http_response" where
  "http_response_force_connection_close r =
     r\<lparr>r_headers := ht_update ''connection'' (H_Arr [''close'']) (r_headers r)\<rparr>"

definition http_response_set_alt_svc_if_unset :: "http_response \<Rightarrow> string option \<Rightarrow> http_response" where
  "http_response_set_alt_svc_if_unset r value =
     (case value of None \<Rightarrow> r
      | Some v \<Rightarrow>
         if v = [] then r
         else if map_of (r_headers r) ''alt-svc'' \<noteq> None then r
         else r\<lparr>r_headers := ht_update ''alt-svc'' (H_Arr [v]) (r_headers r)\<rparr>)"

definition http_response_static_set_status :: "http_response \<Rightarrow> int \<Rightarrow> http_response" where
  "http_response_static_set_status r status_code = r\<lparr>r_status := status_code\<rparr>"

definition http_response_static_set_header :: "http_response \<Rightarrow> string \<Rightarrow> string \<Rightarrow> http_response" where
  "http_response_static_set_header r name value =
     r\<lparr>r_headers := ht_update (map ascii_lower name) (H_Str value) (r_headers r)\<rparr>"

text \<open>\<open>smart_str_0\<close> of an empty builder allocates nothing.\<close>

definition response_set_body_bytes :: "http_response \<Rightarrow> string option \<Rightarrow> http_response" where
  "response_set_body_bytes r data =
     r\<lparr>r_body_view := None, r_body := (case data of None \<Rightarrow> None | Some d \<Rightarrow> if d = [] then None else Some d)\<rparr>"

definition http_response_static_set_body_str :: "http_response \<Rightarrow> string option \<Rightarrow> http_response" where
  "http_response_static_set_body_str r body = response_set_body_bytes r body"

definition http_response_static_set_body_view :: "http_response \<Rightarrow> string option \<Rightarrow> http_response" where
  "http_response_static_set_body_view r body =
     r\<lparr>r_body := None, r_body_view := (case body of None \<Rightarrow> None | Some b \<Rightarrow> if b = [] then None else Some b)\<rparr>"

definition http_response_static_set_body_cstr :: "http_response \<Rightarrow> string \<Rightarrow> http_response" where
  "http_response_static_set_body_cstr r body = response_set_body_bytes r (Some body)"

definition http_response_set_error :: "http_response \<Rightarrow> int \<Rightarrow> string \<Rightarrow> http_response" where
  "http_response_set_error r status message =
     r\<lparr>r_status := status,
       r_headers := ht_update ''content-type'' (H_Str ''text/plain; charset=utf-8'') (r_headers r),
       r_body_view := None, r_body := (if message = [] then None else Some message)\<rparr>"

definition http_response_reset_to_error :: "http_response \<Rightarrow> int \<Rightarrow> string \<Rightarrow> http_response" where
  "http_response_reset_to_error r status_code message =
     (response_set_body_bytes (r\<lparr>r_status := status_code\<rparr>) (Some message))
       \<lparr>r_headers := [], r_reason := Some message, r_committed := True\<rparr>"

text \<open>The \<open>do .. while\<close> loop fills \<open>tmp\<close> from the lowest digit; the copy reverses it.\<close>

function u64_digits :: "u64 \<Rightarrow> string" where
  "u64_digits v = digit_char (unat (v mod 10)) # (if v div 10 \<noteq> 0 then u64_digits (v div 10) else [])"
  by auto
termination
proof (relation "measure unat", goal_cases)
  case (2 v)
  then have "unat v div 10 \<noteq> 0" by (simp add: unat_div flip: unat_eq_0)
  then show ?case by (simp add: unat_div)
qed simp

declare u64_digits.simps [simp del]

definition format_u64 :: "u64 \<Rightarrow> string" where
  "format_u64 v = rev (u64_digits v)"

definition http_response_set_content_length :: "http_response \<Rightarrow> u64 \<Rightarrow> http_response" where
  "http_response_set_content_length r n = http_response_static_set_header r ''content-length'' (format_u64 n)"

definition is_content_header :: "string \<Rightarrow> bool" where
  "is_content_header name \<longleftrightarrow> 8 \<le> length name \<and> eq_ci (take 8 name) ''content-''"

definition http_response_apply_extra_headers ::
    "http_response \<Rightarrow> (string \<times> string) list \<Rightarrow> bool \<Rightarrow> http_response" where
  "http_response_apply_extra_headers r extra include_content_headers =
     foldl (\<lambda>r (name, value).
       if \<not> include_content_headers \<and> is_content_header name then r
       else http_response_static_set_header r name value) r extra"

definition http_response_set_connection :: "http_response \<Rightarrow> bool \<Rightarrow> http_response" where
  "http_response_set_connection r keep_alive =
     http_response_static_set_header r ''connection'' (if keep_alive then ''keep-alive'' else ''close'')"

definition http_response_header_allowed_h2h3 :: "string \<Rightarrow> bool" where
  "http_response_header_allowed_h2h3 name =
     (if length name = 7 then \<not> eq_ci name ''upgrade''
      else if length name = 10 then \<not> eq_ci name ''connection'' \<and> \<not> eq_ci name ''keep-alive''
      else if length name = 14 then \<not> eq_ci name ''content-length''
      else if length name = 17 then \<not> eq_ci name ''transfer-encoding''
      else True)"

definition http_response_emit_status_body :: "http_response \<Rightarrow> int \<Rightarrow> string \<Rightarrow> http_response" where
  "http_response_emit_status_body r status_code body =
     (let r1 = http_response_static_set_header (http_response_static_set_status r status_code)
                 ''content-type'' ''text/plain; charset=utf-8''
      in if body \<noteq> [] then http_response_static_set_body_cstr r1 body else r1)"

definition http_response_synth_error :: "http_response \<Rightarrow> int \<Rightarrow> string option \<Rightarrow> http_response" where
  "http_response_synth_error r status_code message =
     http_response_emit_status_body r status_code (case message of None \<Rightarrow> [] | Some m \<Rightarrow> m)"

section \<open>Facts\<close>

text \<open>The value a header has in a response, as a string setter stored it.\<close>

definition header_of :: "http_response \<Rightarrow> string \<Rightarrow> header_value option" where
  "header_of r name = map_of (r_headers r) name"

named_theorems response_simps \<open>how the setters act on status, headers and bodies\<close>

lemma set_header_of [response_simps]:
  "header_of (http_response_static_set_header r name value) k =
     (if k = map ascii_lower name then Some (H_Str value) else header_of r k)"
  by (simp add: header_of_def http_response_static_set_header_def ht_update_find)

lemma set_header_rest [response_simps]:
  "r_status (http_response_static_set_header r name value) = r_status r"
  "r_body (http_response_static_set_header r name value) = r_body r"
  "r_body_view (http_response_static_set_header r name value) = r_body_view r"
  "http_response_get_body (http_response_static_set_header r name value) = http_response_get_body r"
  by (simp_all add: http_response_static_set_header_def http_response_get_body_def split: option.split)

lemma set_status_simps [response_simps]:
  "r_status (http_response_static_set_status r s) = s"
  "header_of (http_response_static_set_status r s) k = header_of r k"
  "http_response_get_body (http_response_static_set_status r s) = http_response_get_body r"
  by (simp_all add: http_response_static_set_status_def header_of_def http_response_get_body_def split: option.split)

lemma set_body_simps [response_simps]:
  "r_status (http_response_static_set_body_view r b) = r_status r"
  "header_of (http_response_static_set_body_view r b) k = header_of r k"
  "r_status (http_response_static_set_body_str r b) = r_status r"
  "header_of (http_response_static_set_body_str r b) k = header_of r k"
  "r_status (http_response_static_set_body_cstr r s) = r_status r"
  "header_of (http_response_static_set_body_cstr r s) k = header_of r k"
  by (simp_all add: http_response_static_set_body_view_def http_response_static_set_body_str_def
      http_response_static_set_body_cstr_def response_set_body_bytes_def header_of_def)

lemma apply_extra_status [response_simps]:
  "r_status (http_response_apply_extra_headers r extra inc) = r_status r"
  unfolding http_response_apply_extra_headers_def
  by (induction extra arbitrary: r) (auto simp: response_simps)

lemma apply_extra_other [response_simps]:
  assumes "\<forall>(n, v)\<in>set extra. map ascii_lower n \<noteq> k"
  shows "header_of (http_response_apply_extra_headers r extra inc) k = header_of r k"
  using assms unfolding http_response_apply_extra_headers_def
  by (induction extra arbitrary: r) (auto simp: response_simps)


lemma format_u64_dec: "format_u64 v = dec (unat v)"
proof (induction v rule: u64_digits.induct)
  case (1 v)
  have m: "unat (v mod 10) = unat v mod 10" "unat (v div 10) = unat v div 10" by (simp_all add: unat_mod unat_div)
  have z: "v div 10 \<noteq> 0 \<longleftrightarrow> 10 \<le> unat v" using m(2) by (auto simp: div_eq_0_iff simp flip: unat_eq_0)
  show ?case
    using 1 z m unfolding format_u64_def
    by (cases "v div 10 \<noteq> 0") (simp_all add: u64_digits.simps [of v] numeral_in.simps [of 10 "unat v"])
qed

end
