(* ===== verification/Static_Path.thy ===== *)
theory Static_Path
  imports Http_Params
begin

text \<open>
  From a request target to a path below a mount, \<open>src/static/http_static_path.c\<close>, with the
  prefix check of \<open>src/static/static_handler_class.c\<close>.  The glob matcher \<open>fnmatch\<close> of the C
  library is an argument; the platform's only separator is the slash.
\<close>

unbundle bit_operations_syntax

section \<open>Mounts\<close>

definition HTTP_STATIC_FLAG_DOTFILES_DENY :: u32 where "HTTP_STATIC_FLAG_DOTFILES_DENY = 1"
definition HTTP_STATIC_FLAG_DOTFILES_ALLOW :: u32 where "HTTP_STATIC_FLAG_DOTFILES_ALLOW = 2"
definition HTTP_STATIC_FLAG_DOTFILES_IGNORE :: u32 where "HTTP_STATIC_FLAG_DOTFILES_IGNORE = 4"
definition HTTP_STATIC_FLAG_SYMLINKS_REJECT :: u32 where "HTTP_STATIC_FLAG_SYMLINKS_REJECT = 8"
definition HTTP_STATIC_FLAG_SYMLINKS_FOLLOW :: u32 where "HTTP_STATIC_FLAG_SYMLINKS_FOLLOW = 16"
definition HTTP_STATIC_FLAG_SYMLINKS_OWNER :: u32 where "HTTP_STATIC_FLAG_SYMLINKS_OWNER = 32"
definition HTTP_STATIC_FLAG_PRECOMP_BR :: u32 where "HTTP_STATIC_FLAG_PRECOMP_BR = 64"
definition HTTP_STATIC_FLAG_PRECOMP_GZIP :: u32 where "HTTP_STATIC_FLAG_PRECOMP_GZIP = 128"
definition HTTP_STATIC_FLAG_PRECOMP_ZSTD :: u32 where "HTTP_STATIC_FLAG_PRECOMP_ZSTD = 256"
definition HTTP_STATIC_FLAG_ETAG :: u32 where "HTTP_STATIC_FLAG_ETAG = 512"
definition HTTP_STATIC_FLAG_ON_MISSING_NEXT :: u32 where "HTTP_STATIC_FLAG_ON_MISSING_NEXT = 2048"

text \<open>Header and type tables are association lists in insertion order; \<^const>\<open>None\<close> is a
  null pointer.\<close>

record http_static_handler =
  url_prefix :: "string option"
  root_directory :: "string option"
  cache_control :: "string option"
  index_files :: "string list"
  hide_globs :: "string list"
  extra_headers :: "(string \<times> string) list"
  mime_overrides :: "(string \<times> string) list"
  mount_flags :: u32

definition has_flag :: "http_static_handler \<Rightarrow> u32 \<Rightarrow> bool" where
  "has_flag m f \<longleftrightarrow> mount_flags m AND f \<noteq> 0"

definition validate_url_prefix :: "string \<Rightarrow> bool" where
  "validate_url_prefix p \<longleftrightarrow>
     2 \<le> length p \<and> hd p = CHR ''/'' \<and> last p = CHR ''/'' \<and>
     (\<forall>i<length p. p ! i \<noteq> NUL \<and> \<not> (i + 1 < length p \<and> p ! i = CHR ''/'' \<and> p ! (i + 1) = CHR ''/''))"

section \<open>Decoding\<close>

datatype http_static_path_result =
  HTTP_STATIC_PATH_BAD_REQUEST | HTTP_STATIC_PATH_FORBIDDEN | HTTP_STATIC_PATH_HIDE | HTTP_STATIC_PATH_NO_MATCH

definition MAXPATHLEN :: nat where
  "MAXPATHLEN = 4096"

text \<open>The decoding loop; \<open>out\<close> is the part of the destination already written.\<close>

fun percent_decode :: "nat \<Rightarrow> string \<Rightarrow> string \<Rightarrow> http_static_path_result + string" where
  "percent_decode dst_cap out [] = Inr out"
| "percent_decode dst_cap out (c # rest) =
     (if c = NUL then Inl HTTP_STATIC_PATH_BAD_REQUEST
      else if c = CHR ''%'' then
        (case rest of a # b # rest' \<Rightarrow>
           (case (digit_of a, digit_of b) of
              (Some hi, Some lo) \<Rightarrow>
                let byte = char_of (hi * 16 + lo)
                in if byte = NUL \<or> byte = CHR 0x5C then Inl HTTP_STATIC_PATH_BAD_REQUEST
                   else if dst_cap \<le> length out + 1 then Inl HTTP_STATIC_PATH_BAD_REQUEST
                   else percent_decode dst_cap (out @ [byte]) rest'
            | _ \<Rightarrow> Inl HTTP_STATIC_PATH_BAD_REQUEST)
         | _ \<Rightarrow> Inl HTTP_STATIC_PATH_BAD_REQUEST)
      else if c = CHR 0x5C then Inl HTTP_STATIC_PATH_BAD_REQUEST
      else if dst_cap \<le> length out + 1 then Inl HTTP_STATIC_PATH_BAD_REQUEST
      else percent_decode dst_cap (out @ [c]) rest)"

section \<open>Segments\<close>

definition HTTP_STATIC_PATH_MAX_SEGMENTS :: nat where
  "HTTP_STATIC_PATH_MAX_SEGMENTS = 256"

definition not_slash :: "char \<Rightarrow> bool" where
  "not_slash c \<longleftrightarrow> c \<noteq> CHR ''/''"

text \<open>What the loop body says about one segment; \<^const>\<open>None\<close> lets it go on.\<close>

definition check_segment :: "http_static_handler \<Rightarrow> string \<Rightarrow> http_static_path_result option" where
  "check_segment mount seg =
     (if seg = [] then Some HTTP_STATIC_PATH_BAD_REQUEST
      else if seg = ''.'' then Some HTTP_STATIC_PATH_FORBIDDEN
      else if seg = ''..'' then Some HTTP_STATIC_PATH_FORBIDDEN
      else if hd seg = CHR ''.'' then
        (if has_flag mount HTTP_STATIC_FLAG_DOTFILES_DENY then Some HTTP_STATIC_PATH_FORBIDDEN
         else if has_flag mount HTTP_STATIC_FLAG_DOTFILES_IGNORE then Some HTTP_STATIC_PATH_HIDE
         else None)
      else None)"

function segments_loop :: "http_static_handler \<Rightarrow> nat \<Rightarrow> string \<Rightarrow> http_static_path_result option" where
  "segments_loop mount n p =
     (if p = [] then None
      else if HTTP_STATIC_PATH_MAX_SEGMENTS < n + 1 then Some HTTP_STATIC_PATH_BAD_REQUEST
      else case check_segment mount (takeWhile not_slash p) of
        Some r \<Rightarrow> Some r
      | None \<Rightarrow> segments_loop mount (n + 1) (tl (dropWhile not_slash p)))"
  by auto
termination
  by (relation "measure (\<lambda>(m, n, p). length p)") (simp_all add: length_tl_dropWhile del: length_tl)

declare segments_loop.simps [simp del]

definition validate_segments :: "http_static_handler \<Rightarrow> string \<Rightarrow> http_static_path_result option" where
  "validate_segments mount path =
     segments_loop mount 0 (if path \<noteq> [] \<and> hd path = CHR ''/'' then tl path else path)"

section \<open>Resolution\<close>

text \<open>The absolute path and its part below the root.\<close>

definition http_static_path_resolve ::
    "http_static_handler option \<Rightarrow> string \<Rightarrow> nat \<Rightarrow> http_static_path_result + (string \<times> string)" where
  "http_static_path_resolve m request_path out_buf_cap =
     (case m of None \<Rightarrow> Inl HTTP_STATIC_PATH_NO_MATCH
      | Some mount \<Rightarrow> (case (url_prefix mount, root_directory mount) of
          (Some url, Some root) \<Rightarrow>
            if request_path = [] \<or> hd request_path \<noteq> CHR ''/'' then Inl HTTP_STATIC_PATH_BAD_REQUEST
            else if length request_path < length url then Inl HTTP_STATIC_PATH_NO_MATCH
            else if take (length url) request_path \<noteq> url then Inl HTTP_STATIC_PATH_NO_MATCH
            else case percent_decode MAXPATHLEN []
                        (takeWhile (\<lambda>c. c \<noteq> CHR ''?'' \<and> c \<noteq> CHR ''#'') (drop (length url) request_path)) of
              Inl rc \<Rightarrow> Inl rc
            | Inr decoded \<Rightarrow>
                (case (if decoded \<noteq> [] then validate_segments mount decoded else None) of
                   Some rc \<Rightarrow> Inl rc
                 | None \<Rightarrow>
                    if out_buf_cap < length root + 1 + length decoded + 1 then Inl HTTP_STATIC_PATH_BAD_REQUEST
                    else let base = (if root \<noteq> [] \<and> last root \<noteq> CHR ''/'' then root @ ''/'' else root)
                         in Inr (base @ decoded, decoded))
        | _ \<Rightarrow> Inl HTTP_STATIC_PATH_NO_MATCH))"

definition http_static_path_join :: "string \<Rightarrow> nat \<Rightarrow> string \<Rightarrow> string option" where
  "http_static_path_join buf cap name =
     (let need_sep = (buf = [] \<or> last buf \<noteq> CHR ''/'');
          extra = (if need_sep then 1 else 0) + length name + 1
      in if cap < length buf + extra then None
         else Some (buf @ (if need_sep then ''/'' else []) @ name))"

definition http_static_path_is_hidden ::
    "(string \<Rightarrow> string \<Rightarrow> bool) \<Rightarrow> http_static_handler option \<Rightarrow> string \<Rightarrow> bool" where
  "http_static_path_is_hidden fnmatch m relative =
     (case m of None \<Rightarrow> False | Some mount \<Rightarrow> list_ex (\<lambda>glob. fnmatch glob (c_string relative)) (hide_globs mount))"

section \<open>Lexical normal form\<close>

text \<open>The reference: the components of a path, with empty and \<open>.\<close> components skipped and
  \<open>..\<close> removing the component before it.\<close>

fun split_slash :: "string \<Rightarrow> string list" where
  "split_slash [] = [[]]"
| "split_slash (c # cs) =
     (if c = CHR ''/'' then [] # split_slash cs
      else (case split_slash cs of [] \<Rightarrow> [[c]] | e # es \<Rightarrow> (c # e) # es))"

fun walk :: "string list \<Rightarrow> string list \<Rightarrow> string list" where
  "walk acc [] = acc"
| "walk acc (s # ss) =
     (if s = [] \<or> s = ''.'' then walk acc ss
      else if s = ''..'' then walk (butlast acc) ss
      else walk (acc @ [s]) ss)"

definition lexical :: "string \<Rightarrow> string list" where
  "lexical path = walk [] (split_slash path)"

lemma split_slash_not_Nil [simp]: "split_slash s \<noteq> []"
  by (cases s) (auto split: list.splits)

lemma split_slash_append: "split_slash (a @ CHR ''/'' # b) = split_slash a @ split_slash b"
  by (induction a) (auto split: list.splits)

lemma split_slash_step:
  "split_slash p = takeWhile not_slash p #
     (case dropWhile not_slash p of [] \<Rightarrow> [] | _ # r \<Rightarrow> split_slash r)"
  by (induction p) (auto simp: not_slash_def split: list.splits)

lemma walk_append: "walk acc (xs @ ys) = walk (walk acc xs) ys"
  by (induction xs arbitrary: acc) auto

lemma walk_forward: "''..'' \<notin> set ss \<Longrightarrow> prefix acc (walk acc ss)"
proof (induction ss arbitrary: acc)
  case (Cons s ss)
  have "prefix acc (walk (acc @ [s]) ss)"
    by (rule prefix_order.trans [of _ "acc @ [s]"]) (use Cons in simp_all)
  moreover have "prefix acc (walk acc ss)" using Cons by simp
  ultimately show ?case using Cons.prems by auto
qed simp

lemma segments_loop_ok:
  "segments_loop mount n p = None \<Longrightarrow> ''..'' \<notin> set (split_slash p)"
proof (induction mount n p rule: segments_loop.induct)
  case (1 mount n p)
  show ?case
  proof (cases "p = []")
    case False
    let ?seg = "takeWhile not_slash p"
    have seg: "check_segment mount ?seg = None" "segments_loop mount (n + 1) (tl (dropWhile not_slash p)) = None"
      "\<not> HTTP_STATIC_PATH_MAX_SEGMENTS < n + 1"
      using 1(2) False by (auto simp: segments_loop.simps [of mount n p] split: if_splits option.splits)
    have "''..'' \<notin> set (split_slash (tl (dropWhile not_slash p)))" using 1(1) False seg by blast
    moreover have "?seg \<noteq> ''..''" using seg(1) by (auto simp: check_segment_def)
    ultimately show ?thesis
      unfolding split_slash_step [of p] by (simp split: list.splits) (metis list.sel(3))
  qed simp
qed

lemma validate_segments_ok: "validate_segments mount p = None \<Longrightarrow> ''..'' \<notin> set (split_slash p)"
  using segments_loop_ok [of mount 0 "tl p"] segments_loop_ok [of mount 0 p]
  by (cases p) (auto simp: validate_segments_def split: if_splits list.splits)

lemma percent_decode_clean:
  assumes "percent_decode cap out s = Inr d" "NUL \<notin> set out" "CHR 0x5C \<notin> set out" "length out < cap"
  shows "NUL \<notin> set d \<and> CHR 0x5C \<notin> set d \<and> length d < cap"
  using assms
  by (induction cap out s rule: percent_decode.induct) (auto simp: Let_def split: if_splits list.splits option.splits)

lemma lexical_below:
  assumes "''..'' \<notin> set (split_slash d)" "root \<noteq> []"
  shows "prefix (lexical root) (lexical ((if last root \<noteq> CHR ''/'' then root @ ''/'' else root) @ d))"
proof -
  have slash: "lexical (root @ CHR ''/'' # d) = walk (lexical root) (split_slash d)" for root
    by (simp add: lexical_def split_slash_append walk_append)
  show ?thesis
  proof (cases "last root = CHR ''/''")
    case False
    then show ?thesis using slash [of root] walk_forward [OF assms(1)] by simp
  next
    case True
    then obtain r where r: "root = r @ ''/''" using assms(2) by (metis append_butlast_last_id)
    have "lexical root = lexical r" by (simp add: r lexical_def split_slash_append walk_append)
    then show ?thesis using True slash [of r] walk_forward [OF assms(1)] by (simp add: r)
  qed
qed

section \<open>Properties\<close>

text \<open>
  C31. No request leaves the mount: whenever a request target resolves, the lexical form of
  the absolute path starts with that of the root directory, the path has no NUL and no
  backslash beyond those of the root, so the system calls see all of it, and it fits the
  caller's buffer with its terminator.
\<close>

theorem resolved_path_confined:
  assumes "http_static_path_resolve (Some mount) request_path cap = Inr (path, rel)"
    and "root_directory mount = Some root" "root \<noteq> []"
  shows "prefix (lexical root) (lexical path) \<and> suffix rel path \<and> NUL \<notin> set rel \<and> CHR 0x5C \<notin> set rel \<and>
    length path < cap \<and> (NUL \<notin> set root \<longrightarrow> c_string path = path)"
proof -
  obtain url where url: "url_prefix mount = Some url"
    using assms(1,2) by (auto simp: http_static_path_resolve_def split: option.splits)
  define t where "t = takeWhile (\<lambda>c. c \<noteq> CHR ''?'' \<and> c \<noteq> CHR ''#'') (drop (length url) request_path)"
  have dec: "percent_decode MAXPATHLEN [] t = Inr rel"
    and seg: "rel \<noteq> [] \<Longrightarrow> validate_segments mount rel = None"
    and len: "length root + 1 + length rel + 1 \<le> cap"
    and path: "path = (if last root \<noteq> CHR ''/'' then root @ ''/'' else root) @ rel"
    using assms url by (auto simp: http_static_path_resolve_def t_def Let_def split: if_splits sum.splits option.splits)
  have clean: "NUL \<notin> set rel" "CHR 0x5C \<notin> set rel"
    using percent_decode_clean [OF dec] by (simp_all add: MAXPATHLEN_def)
  have "''..'' \<notin> set (split_slash rel)"
    using validate_segments_ok seg by (cases "rel = []") auto
  then have pre: "prefix (lexical root) (lexical path)" unfolding path by (rule lexical_below [OF _ assms(3)])
  have "c_string path = path" if "NUL \<notin> set root"
    unfolding c_string_def takeWhile_eq_all_conv using that clean(1) by (auto simp: path NUL_def)
  then show ?thesis using pre clean len by (auto simp: path suffix_def)
qed

definition demo_mount :: http_static_handler where
  "demo_mount = \<lparr>url_prefix = Some ''/s/'', root_directory = Some ''/srv'', cache_control = None, index_files = [],
     hide_globs = [], extra_headers = [], mime_overrides = [], mount_flags = 9\<rparr>"

theorem resolved_path_confined_witness:
  "http_static_path_resolve (Some demo_mount) ''/s/a%2Fb.js?x'' 100 = Inr (''/srv/a/b.js'', ''a/b.js'') \<and>
   prefix (lexical ''/srv'') (lexical ''/srv/a/b.js'') \<and>
   http_static_path_resolve (Some demo_mount) ''/s/%2e%2E/x'' 100 = Inl HTTP_STATIC_PATH_FORBIDDEN"
proof -
  have r: "http_static_path_resolve (Some demo_mount) ''/s/a%2Fb.js?x'' 100 = Inr (''/srv/a/b.js'', ''a/b.js'')"
    by code_simp
  moreover have "http_static_path_resolve (Some demo_mount) ''/s/%2e%2E/x'' 100 = Inl HTTP_STATIC_PATH_FORBIDDEN"
    by code_simp
  ultimately show ?thesis
    using resolved_path_confined [OF r, of "''/srv''"] by (simp add: demo_mount_def)
qed

end
