(* ===== verification/Send_File.thy ===== *)
theory Send_File
  imports Response_Api Static_Path Http_Range Http_Mime Http_Date Static_Cache
begin

text \<open>
  The file-delivery engine, \<open>src/send_file.c\<close>.  The file system, the clock, the timer, the
  file handle factory and the protocol's \<open>send_static_response\<close> operation are the fields of
  an environment.  Every effect outside the response and the cache is an event of a log:
  descriptors opened and closed, the operation called and whether it took the file, the
  callbacks of the caller, the removal of the file, and the cache and zero-coroutine counters
  the static dispatcher bumps.  System calls see a path up to its first NUL.
\<close>

section \<open>Files\<close>

text \<open>The outcomes of successive \<open>read\<close> calls on a descriptor: bytes (none at end of file), an
  interruption, an error.  After the listed outcomes the descriptor is at its end.\<close>

datatype read_result = Read_Bytes string | Read_Intr | Read_Error

record open_file =
  of_stat :: "stat_fields option"
  of_dev :: nat
  of_reads :: "read_result list"

fun slurp_loop :: "nat \<Rightarrow> string \<Rightarrow> read_result list \<Rightarrow> string option" where
  "slurp_loop expected out reads =
     (if expected \<le> length out then (if length out \<noteq> expected then None else Some out)
      else case reads of
        [] \<Rightarrow> None
      | Read_Intr # rest \<Rightarrow> slurp_loop expected out rest
      | Read_Error # rest \<Rightarrow> None
      | Read_Bytes d # rest \<Rightarrow>
          if d = [] then None else slurp_loop expected (out @ take (expected - length out) d) rest)"

declare slurp_loop.simps [simp del]

definition fs_slurp_fd :: "open_file \<Rightarrow> nat \<Rightarrow> string option" where
  "fs_slurp_fd f expected_size = (if expected_size = 0 then Some [] else slurp_loop expected_size [] (of_reads f))"

record engine_env =
  en_open :: "string \<Rightarrow> bool \<Rightarrow> open_file option"
  en_now :: int
  en_conv :: "int \<Rightarrow> int"
  en_junk :: string
  en_keep_alive :: bool
  en_has_op :: bool
  en_op_ok :: bool
  en_timer_ok :: bool
  en_io_ok :: bool

section \<open>Conditional requests\<close>

definition mtime_of :: "stat_fields \<Rightarrow> int" where
  "mtime_of st = sint (st_mtim_sec st)"

definition http_conditional_check ::
    "(int \<Rightarrow> int) \<Rightarrow> string \<Rightarrow> string option \<Rightarrow> string option \<Rightarrow> string option \<Rightarrow> int \<Rightarrow> bool" where
  "http_conditional_check conv junk if_none_match if_modified_since etag last_modified =
     (if if_none_match \<noteq> None \<and> if_none_match \<noteq> Some []
      then http_etag_match_inm (the if_none_match) (case etag of None \<Rightarrow> [] | Some e \<Rightarrow> e)
      else if if_modified_since \<noteq> None \<and> if_modified_since \<noteq> Some []
      then (let since = http_date_parse_imf conv junk (the if_modified_since)
            in if since = - 1 then False else last_modified \<le> since)
      else False)"

section \<open>State\<close>

datatype send_file_on_error = SEND_FILE_ERR_INLINE_500 | SEND_FILE_ERR_PASSTHROUGH_PHP | SEND_FILE_ERR_EMIT_VIA_OP

record send_file_config =
  cf_abs_path :: "string option"
  cf_content_type :: "string option"
  cf_content_disposition :: "string option"
  cf_cache_control :: "string option"
  cf_etag :: bool
  cf_last_modified :: bool
  cf_accept_ranges :: bool
  cf_conditional :: bool
  cf_delete_after_send :: bool
  cf_reject_symlinks :: bool
  cf_content_encoding :: "string option"
  cf_status_override :: int
  cf_extra_headers :: "(string \<times> string) list"
  cf_mime_overrides :: "(string \<times> string) list"
  cf_cache_view :: "cache_view option"
  cf_use_cache :: bool
  cf_on_error :: send_file_on_error

record engine_state =
  es_cfg :: send_file_config
  es_armed :: bool
  es_request :: "http_request option"
  es_path :: string
  es_file :: "open_file option"
  es_st :: stat_fields
  es_is_head :: bool
  es_view :: "cache_view option"
  es_timer :: bool
  es_defer_error :: "(int \<times> string) option"

datatype engine_event =
  Ev_Open | Ev_Close | Ev_Armed | Ev_Done int | Ev_Passthrough | Ev_Unlink string
| Ev_Cache_Hit | Ev_Cache_Miss | Ev_Zero_Coroutine
| Ev_Op (handed: bool) (accepted: bool) u64 u64 bool

record engine_world =
  ew_resp :: http_response
  ew_cache :: "http_static_cache option"
  ew_log :: "engine_event list"

definition emit :: "engine_event \<Rightarrow> engine_world \<Rightarrow> engine_world" where
  "emit e w = w\<lparr>ew_log := ew_log w @ [e]\<rparr>"

section \<open>Content type and header text\<close>

definition override_type :: "(string \<times> string) list \<Rightarrow> string \<Rightarrow> string option" where
  "override_type overrides path =
     (if overrides = [] then None
      else let ext = http_mime_extract_lowered_ext path 32
           in if ext = [] then None else map_of overrides ext)"

definition engine_resolve_content_type :: "engine_state \<Rightarrow> string option" where
  "engine_resolve_content_type s =
     (case cf_content_type (es_cfg s) of Some t \<Rightarrow> Some t
      | None \<Rightarrow> (case override_type (cf_mime_overrides (es_cfg s)) (es_path s) of Some t \<Rightarrow> Some t
        | None \<Rightarrow> http_mime_lookup_by_ext (es_path s)))"

definition content_range :: "u64 \<Rightarrow> u64 \<Rightarrow> u64 \<Rightarrow> string" where
  "content_range first last_pos n = ''bytes '' @ dec (unat first) @ ''-'' @ dec (unat last_pos) @ ''/'' @ dec (unat n)"

section \<open>Finishing and handing over\<close>

definition engine_finalize :: "engine_state \<Rightarrow> int \<Rightarrow> engine_world \<Rightarrow> engine_world" where
  "engine_finalize s status w =
     (let w1 = (if es_file s \<noteq> None then emit Ev_Close w else w);
          w2 = (if cf_delete_after_send (es_cfg s) \<and> status = 0 then emit (Ev_Unlink (c_string (es_path s))) w1 else w1)
      in if es_armed s then emit (Ev_Done status) w2 else w2)"

text \<open>Whether the operation took the request; on refusal a file that was passed is the
  engine's again.\<close>

definition engine_delegate_to_protocol ::
    "engine_env \<Rightarrow> engine_state \<Rightarrow> engine_world \<Rightarrow> open_file option \<Rightarrow> u64 \<Rightarrow> u64 \<Rightarrow> bool \<Rightarrow>
     bool \<times> engine_state \<times> engine_world" where
  "engine_delegate_to_protocol env s w file_io body_offset body_length head_only =
     (if \<not> en_has_op env then (False, s, w)
      else let w1 = (if file_io = None \<and> es_file s \<noteq> None then emit Ev_Close w else w);
               w2 = emit (Ev_Op (file_io \<noteq> None) (en_op_ok env) body_offset body_length head_only) w1
           in if en_op_ok env then (True, s\<lparr>es_file := None\<rparr>, w2)
              else (False, s\<lparr>es_file := file_io\<rparr>, w2))"

text \<open>The callers' pattern \<open>if (!delegate) engine_finalize(state, -1)\<close>: the state while the
  operation is in flight, nothing once it is freed.\<close>

definition delegate_or_finish ::
    "engine_env \<Rightarrow> engine_state \<Rightarrow> engine_world \<Rightarrow> open_file option \<Rightarrow> u64 \<Rightarrow> u64 \<Rightarrow> bool \<Rightarrow>
     engine_state option \<times> engine_world" where
  "delegate_or_finish env s w file_io off len head_only =
     (case engine_delegate_to_protocol env s w file_io off len head_only of (ok, s', w') \<Rightarrow>
        if ok then (Some s', w') else (None, engine_finalize s' (- 1) w'))"

definition engine_emit_error_via_op ::
    "engine_env \<Rightarrow> engine_state \<Rightarrow> engine_world \<Rightarrow> int \<Rightarrow> string \<Rightarrow> engine_state option \<times> engine_world" where
  "engine_emit_error_via_op env s w status body =
     (let r1 = http_response_static_set_header (http_response_static_set_status (ew_resp w) status)
                 ''content-type'' ''text/plain; charset=utf-8'';
          r2 = (if body \<noteq> [] then http_response_static_set_body_cstr r1 body else r1);
          r3 = http_response_set_content_length r2 (word_of_nat (length body));
          r4 = http_response_set_connection r3 (en_keep_alive env)
      in delegate_or_finish env s (w\<lparr>ew_resp := r4\<rparr>) None 0 0 True)"

section \<open>The response\<close>

record engine_meta =
  me_etag :: "string option"
  me_last_modified :: "string option"
  me_content_type :: "string option"

definition HTTP_ETAG_LEN :: nat where "HTTP_ETAG_LEN = 20"
definition HTTP_DATE_LEN :: nat where "HTTP_DATE_LEN = 29"

definition engine_metadata :: "engine_state \<Rightarrow> engine_meta" where
  "engine_metadata s =
     (let cfg = es_cfg s; fresh = (if cf_last_modified cfg then Some (http_date_format_imf (mtime_of (es_st s))) else None)
      in case es_view s of
        Some v \<Rightarrow>
          \<lparr>me_etag = (case v_etag v of Some e \<Rightarrow> if length e = HTTP_ETAG_LEN then Some e else None | None \<Rightarrow> None),
           me_last_modified = (case v_last_modified v of
               Some d \<Rightarrow> if length d = HTTP_DATE_LEN then Some d else fresh | None \<Rightarrow> fresh),
           me_content_type = v_content_type v\<rparr>
      | None \<Rightarrow>
          \<lparr>me_etag = (if cf_etag cfg then Some (http_etag_format_strong (es_st s)) else None),
           me_last_modified = fresh,
           me_content_type = Some (case engine_resolve_content_type s of
               Some t \<Rightarrow> t | None \<Rightarrow> ''application/octet-stream'')\<rparr>)"

definition engine_not_modified :: "engine_env \<Rightarrow> engine_state \<Rightarrow> engine_meta \<Rightarrow> bool" where
  "engine_not_modified env s me \<longleftrightarrow> cf_conditional (es_cfg s) \<and>
     http_conditional_check (en_conv env) (en_junk env)
       (http_request_find_header (es_request s) ''if-none-match'')
       (http_request_find_header (es_request s) ''if-modified-since'')
       (me_etag me) (mtime_of (es_st s))"

definition engine_cache_insert :: "engine_env \<Rightarrow> engine_state \<Rightarrow> engine_meta \<Rightarrow> engine_world \<Rightarrow> engine_world" where
  "engine_cache_insert env s me w =
     (if es_view s = None \<and> cf_use_cache (es_cfg s)
      then (case ew_cache w of None \<Rightarrow> w
        | Some c \<Rightarrow> w\<lparr>ew_cache := Some (http_static_cache_insert (en_now env) c (es_path s) (es_st s)
            (me_content_type me) (me_etag me)
            (if cf_last_modified (es_cfg s) then me_last_modified me else None))\<rparr>)
      else w)"

text \<open>The range decision: serve everything, serve a part, or refuse.\<close>

datatype range_choice = Whole | Part u64 u64 | Unsatisfiable

definition engine_range :: "engine_state \<Rightarrow> engine_meta \<Rightarrow> bool \<Rightarrow> range_choice" where
  "engine_range s me not_modified =
     (if not_modified \<or> \<not> cf_accept_ranges (es_cfg s) then Whole
      else let range_hdr = http_request_find_header (es_request s) ''range'';
               if_range = http_request_find_header (es_request s) ''if-range'';
               range_allowed = (case if_range of None \<Rightarrow> True
                 | Some v \<Rightarrow> (case me_etag me of Some e \<Rightarrow> v = e | None \<Rightarrow> False))
        in if range_hdr \<noteq> None \<and> range_allowed
           then (case http_range_parse range_hdr (st_size (es_st s)) of
               RANGE_OK first last_pos \<Rightarrow> Part first last_pos
             | RANGE_NOT_SATISFIABLE \<Rightarrow> Unsatisfiable
             | _ \<Rightarrow> Whole)
           else Whole)"

definition engine_416 :: "engine_env \<Rightarrow> u64 \<Rightarrow> http_response \<Rightarrow> http_response" where
  "engine_416 env n r =
     (let r1 = http_response_static_set_header (http_response_static_set_status r 416)
                 ''content-type'' ''text/plain; charset=utf-8'';
          cr = ''bytes */'' @ dec (unat n);
          r2 = (if length cr < 48 then http_response_static_set_header r1 ''content-range'' cr else r1);
          r3 = http_response_static_set_header r2 ''content-length'' ''0''
      in http_response_set_connection r3 (en_keep_alive env))"

abbreviation set_opt :: "string \<Rightarrow> string option \<Rightarrow> http_response \<Rightarrow> http_response" where
  "set_opt name v r \<equiv> (case v of None \<Rightarrow> r | Some x \<Rightarrow> http_response_static_set_header r name x)"

definition engine_body_len :: "engine_state \<Rightarrow> bool \<Rightarrow> range_choice \<Rightarrow> u64" where
  "engine_body_len s not_modified rc =
     (if not_modified then 0 else case rc of Part a b \<Rightarrow> b - a + 1 | _ \<Rightarrow> st_size (es_st s))"

definition engine_headers :: "engine_env \<Rightarrow> engine_state \<Rightarrow> engine_meta \<Rightarrow> bool \<Rightarrow> range_choice \<Rightarrow> http_response \<Rightarrow> http_response" where
  "engine_headers env s me not_modified rc r =
     (let cfg = es_cfg s; inc = (\<not> not_modified);
          is_range = (case rc of Part a b \<Rightarrow> True | _ \<Rightarrow> False);
          code0 = (if not_modified then 304 else if is_range then 206 else 200);
          code = (if cf_status_override cfg \<noteq> 0 \<and> \<not> not_modified \<and> code0 < 400 then cf_status_override cfg else code0);
          r1 = http_response_static_set_status r code;
          r2 = (if inc then set_opt ''content-type'' (me_content_type me) r1 else r1);
          r3 = (if inc then http_response_set_content_length r2 (engine_body_len s not_modified rc) else r2);
          r4 = set_opt ''etag'' (me_etag me) r3;
          r5 = (if cf_last_modified cfg then set_opt ''last-modified'' (me_last_modified me) r4 else r4);
          r6 = (if inc then set_opt ''content-encoding'' (cf_content_encoding cfg) r5 else r5);
          r7 = (if cf_content_encoding cfg \<noteq> None then http_response_static_set_header r6 ''vary'' ''Accept-Encoding'' else r6);
          r8 = (if cf_accept_ranges cfg \<and> inc then http_response_static_set_header r7 ''accept-ranges'' ''bytes'' else r7);
          r9 = (case rc of Part a b \<Rightarrow>
                  if inc \<and> length (content_range a b (st_size (es_st s))) < 64
                  then http_response_static_set_header r8 ''content-range'' (content_range a b (st_size (es_st s))) else r8
                | _ \<Rightarrow> r8);
          r10 = set_opt ''cache-control'' (cf_cache_control cfg) r9;
          r11 = set_opt ''content-disposition'' (cf_content_disposition cfg) r10;
          r12 = http_response_apply_extra_headers r11 (cf_extra_headers cfg) inc
      in http_response_set_connection r12 (en_keep_alive env))"

definition SEND_FILE_SLURP_THRESHOLD :: nat where
  "SEND_FILE_SLURP_THRESHOLD = 65536"

text \<open>The hand-over at the end: head only, an inlined small body, or the file.\<close>

definition engine_send_body ::
    "engine_env \<Rightarrow> engine_state \<Rightarrow> bool \<Rightarrow> range_choice \<Rightarrow> engine_world \<Rightarrow> engine_state option \<times> engine_world" where
  "engine_send_body env s not_modified rc w =
     (let file_io = es_file s; n = st_size (es_st s);
          is_range = (case rc of Part a b \<Rightarrow> True | _ \<Rightarrow> False);
          inline = (if \<not> is_range \<and> unat n \<le> SEND_FILE_SLURP_THRESHOLD
                    then Option.bind file_io (\<lambda>f. fs_slurp_fd f (unat n)) else None)
      in if not_modified then delegate_or_finish env s w file_io 0 0 True
         else if es_is_head s \<or> n = 0 then delegate_or_finish env s w file_io 0 0 True
         else case inline of
           Some body \<Rightarrow> delegate_or_finish env s
               (w\<lparr>ew_resp := http_response_static_set_body_str (ew_resp w) (Some body)\<rparr>) None 0 0 True
         | None \<Rightarrow> delegate_or_finish env s w file_io (case rc of Part a b \<Rightarrow> a | _ \<Rightarrow> 0)
               (engine_body_len s not_modified rc) False)"

definition engine_handle_stat :: "engine_env \<Rightarrow> engine_state \<Rightarrow> engine_world \<Rightarrow> engine_state option \<times> engine_world" where
  "engine_handle_stat env s w =
     (if \<not> st_isreg (es_st s)
      then (if cf_on_error (es_cfg s) = SEND_FILE_ERR_INLINE_500
            then engine_emit_error_via_op env s w 500 ''Internal Server Error''
            else engine_emit_error_via_op env s w 404 ''Not Found'')
      else let me = engine_metadata s; nm = engine_not_modified env s me; w1 = engine_cache_insert env s me w;
               rc = engine_range s me nm
        in case rc of
          Unsatisfiable \<Rightarrow> delegate_or_finish env s (w1\<lparr>ew_resp := engine_416 env (st_size (es_st s)) (ew_resp w1)\<rparr>) None 0 0 True
        | _ \<Rightarrow> engine_send_body env s nm rc (w1\<lparr>ew_resp := engine_headers env s me nm rc (ew_resp w1)\<rparr>))"

section \<open>Events\<close>

definition engine_on_protocol_done :: "engine_state \<Rightarrow> int \<Rightarrow> engine_world \<Rightarrow> engine_world" where
  "engine_on_protocol_done s status w = engine_finalize s status w"

definition engine_defer_dispatch :: "engine_env \<Rightarrow> engine_state \<Rightarrow> engine_world \<Rightarrow> engine_state option \<times> engine_world" where
  "engine_defer_dispatch env s w =
     (let s1 = s\<lparr>es_timer := False\<rparr>
      in case es_defer_error s1 of
        Some (status, body) \<Rightarrow> engine_emit_error_via_op env s1 w status body
      | None \<Rightarrow> engine_handle_stat env s1 w)"

datatype send_file_result = SEND_FILE_PASSTHROUGH | SEND_FILE_HANDLED | SEND_FILE_ASYNC

text \<open>The tail shared by the success path and the deferred errors: fire \<open>on_armed\<close>, mark,
  start the zero timer.\<close>

definition engine_arm :: "engine_env \<Rightarrow> engine_state \<Rightarrow> engine_world \<Rightarrow> send_file_result \<times> engine_state option \<times> engine_world" where
  "engine_arm env s w =
     (let w1 = emit Ev_Armed w; s1 = s\<lparr>es_armed := True\<rparr>
      in if en_timer_ok env then (SEND_FILE_ASYNC, Some (s1\<lparr>es_timer := True\<rparr>), w1)
         else (SEND_FILE_ASYNC, None, engine_finalize s1 (- 1) w1))"

definition engine_arm_and_defer_error ::
    "engine_env \<Rightarrow> engine_state \<Rightarrow> engine_world \<Rightarrow> int \<Rightarrow> string \<Rightarrow> send_file_result \<times> engine_state option \<times> engine_world" where
  "engine_arm_and_defer_error env s w status body = engine_arm env (s\<lparr>es_defer_error := Some (status, body)\<rparr>) w"

definition engine_handle_open_failure ::
    "engine_env \<Rightarrow> engine_state \<Rightarrow> engine_world \<Rightarrow> send_file_result \<times> engine_state option \<times> engine_world" where
  "engine_handle_open_failure env s w =
     (if cf_on_error (es_cfg s) = SEND_FILE_ERR_PASSTHROUGH_PHP then (SEND_FILE_PASSTHROUGH, None, emit Ev_Passthrough w)
      else if cf_on_error (es_cfg s) = SEND_FILE_ERR_EMIT_VIA_OP then engine_arm_and_defer_error env s w 404 ''Not Found''
      else engine_arm_and_defer_error env s w 500 ''Internal Server Error'')"

definition send_file ::
    "engine_env \<Rightarrow> http_request option \<Rightarrow> send_file_config \<Rightarrow> engine_world \<Rightarrow>
     send_file_result \<times> engine_state option \<times> engine_world" where
  "send_file env request config w =
     (if request = None \<or> cf_abs_path config = None \<or> cf_abs_path config = Some [] then (SEND_FILE_HANDLED, None, w)
      else let path = the (cf_abs_path config)
        in if MAXPATHLEN \<le> length path + 1 then (SEND_FILE_HANDLED, None, w)
        else if \<not> en_has_op env then (SEND_FILE_HANDLED, None, w)
        else let s = \<lparr>es_cfg = config, es_armed = False, es_request = request, es_path = path, es_file = None,
                      es_st = zero_stat, es_is_head = http_request_method_is_head request,
                      es_view = cf_cache_view config, es_timer = False, es_defer_error = None\<rparr>
        in case en_open env (c_string path) (cf_reject_symlinks config) of
             None \<Rightarrow> engine_handle_open_failure env s w
           | Some f \<Rightarrow>
              let w1 = emit Ev_Open w;
                  stat = (case cf_cache_view config of Some v \<Rightarrow> Some (v_st v) | None \<Rightarrow> of_stat f)
              in case stat of
                   None \<Rightarrow> engine_arm_and_defer_error env s (emit Ev_Close w1) 500 ''Internal Server Error''
                 | Some st \<Rightarrow>
                    if \<not> en_io_ok env
                    then engine_arm_and_defer_error env (s\<lparr>es_st := st\<rparr>) (emit Ev_Close w1) 500 ''Internal Server Error''
                    else engine_arm env (s\<lparr>es_st := st, es_file := Some f\<rparr>) w1)"

section \<open>The life of a delivery\<close>

text \<open>The environment of the first tick, of the second one, and the status with which the
  protocol reports completion.\<close>

definition engine_run ::
    "engine_env \<Rightarrow> engine_env \<Rightarrow> int \<Rightarrow> http_request option \<Rightarrow> send_file_config \<Rightarrow> engine_world \<Rightarrow>
     send_file_result \<times> engine_world" where
  "engine_run env env' status request config w =
     (case send_file env request config w of
        (res, None, w1) \<Rightarrow> (res, w1)
      | (res, Some s, w1) \<Rightarrow> (case engine_defer_dispatch env' s w1 of
            (None, w2) \<Rightarrow> (res, w2)
          | (Some s', w2) \<Rightarrow> (res, engine_on_protocol_done s' status w2)))"

definition tally :: "(engine_event \<Rightarrow> bool) \<Rightarrow> engine_world \<Rightarrow> nat" where
  "tally p w = length (filter p (ew_log w))"

fun is_done :: "engine_event \<Rightarrow> bool" where
  "is_done (Ev_Done n) = True" | "is_done e = False"

fun is_taken :: "engine_event \<Rightarrow> bool" where
  "is_taken (Ev_Op h a x y z) = (h \<and> a)" | "is_taken e = False"

lemma tally_emit [simp]: "tally p (emit e w) = tally p w + (if p e then 1 else 0)"
  by (simp add: tally_def emit_def)

lemma tally_other [simp]: "tally p (w\<lparr>ew_resp := r\<rparr>) = tally p w" "tally p (engine_cache_insert env s me w) = tally p w"
  by (simp_all add: tally_def engine_cache_insert_def split: option.split)

text \<open>What a live state still owes: the close of its file, the \<open>on_done\<close> of its \<open>on_armed\<close>.\<close>

definition ledger :: "engine_state option \<Rightarrow> engine_world \<Rightarrow> bool" where
  "ledger o' w \<longleftrightarrow>
     tally ((=) Ev_Open) w = tally ((=) Ev_Close) w + tally is_taken w
       + (case o' of Some s \<Rightarrow> of_bool (es_file s \<noteq> None) | None \<Rightarrow> 0) \<and>
     tally ((=) Ev_Armed) w = tally is_done w + (case o' of Some s \<Rightarrow> of_bool (es_armed s) | None \<Rightarrow> 0)"

lemma ledger_other [simp]:
  "ledger o' (w\<lparr>ew_resp := r\<rparr>) = ledger o' w" "ledger o' (engine_cache_insert env s me w) = ledger o' w"
  by (simp_all add: ledger_def)

lemma ledger_finalize: "ledger (Some s) w \<Longrightarrow> ledger None (engine_finalize s n w)"
  by (auto simp: ledger_def engine_finalize_def Let_def)

lemma ledger_delegate:
  assumes "ledger (Some s) w" "f = None \<or> f = es_file s"
  shows "case_prod ledger (delegate_or_finish env s w f off len h)"
proof (cases "engine_delegate_to_protocol env s w f off len h")
  case (fields ok s' w')
  have "ledger (Some s') w'"
    using fields assms by (auto simp: engine_delegate_to_protocol_def ledger_def Let_def split: if_splits)
  with fields show ?thesis by (simp add: delegate_or_finish_def ledger_finalize)
qed

lemma ledger_emit_error: "ledger (Some s) w \<Longrightarrow> case_prod ledger (engine_emit_error_via_op env s w n body)"
  by (simp add: engine_emit_error_via_op_def Let_def ledger_delegate)

lemma ledger_send_body: "ledger (Some s) w \<Longrightarrow> case_prod ledger (engine_send_body env s nm rc w)"
  by (simp add: engine_send_body_def Let_def ledger_delegate split: option.split)

lemma ledger_handle_stat: "ledger (Some s) w \<Longrightarrow> case_prod ledger (engine_handle_stat env s w)"
  by (simp add: engine_handle_stat_def Let_def ledger_delegate ledger_send_body ledger_emit_error split: range_choice.split)

lemma ledger_dispatch: "ledger (Some s) w \<Longrightarrow> case_prod ledger (engine_defer_dispatch env s w)"
proof -
  assume "ledger (Some s) w"
  then have "ledger (Some (s\<lparr>es_timer := False\<rparr>)) w" by (simp add: ledger_def)
  then show ?thesis
    by (simp add: engine_defer_dispatch_def Let_def ledger_handle_stat ledger_emit_error split: option.split)
qed

lemma ledger_arm:
  assumes "ledger (Some s) w" "\<not> es_armed s"
  shows "case_prod ledger (snd (engine_arm env s w))"
proof -
  have "ledger (Some (s\<lparr>es_armed := True\<rparr>)) (emit Ev_Armed w)" using assms by (simp add: ledger_def)
  from this ledger_finalize [OF this] show ?thesis by (simp add: engine_arm_def Let_def ledger_def)
qed

lemma ledger_first_events:
  assumes "ledger None w"
  shows "ledger None (emit Ev_Close (emit Ev_Open w))" "ledger None (emit Ev_Passthrough w)"
    "es_file s = None \<Longrightarrow> \<not> es_armed s \<Longrightarrow> ledger (Some s) w"
    "es_file s \<noteq> None \<Longrightarrow> \<not> es_armed s \<Longrightarrow> ledger (Some s) (emit Ev_Open w)"
  using assms by (simp_all add: ledger_def)

lemma ledger_send_file: "ledger None w \<Longrightarrow> case_prod ledger (snd (send_file env req cfg w))"
  unfolding send_file_def engine_handle_open_failure_def engine_arm_and_defer_error_def Let_def
  by (simp add: ledger_arm ledger_first_events split: option.split)

text \<open>Events that only the first tick produces.\<close>

definition first_tick :: "(engine_event \<Rightarrow> bool) \<Rightarrow> bool" where
  "first_tick p \<longleftrightarrow> p = (=) Ev_Armed \<or> p = (=) Ev_Passthrough \<or> p = (=) Ev_Open"

lemma later_finalize: "first_tick p \<Longrightarrow> tally p (engine_finalize s n w) = tally p w"
  by (auto simp: first_tick_def engine_finalize_def Let_def)

lemma later_delegate: "first_tick p \<Longrightarrow> tally p (snd (delegate_or_finish env s w f off len h)) = tally p w"
  by (auto simp: delegate_or_finish_def engine_delegate_to_protocol_def Let_def later_finalize first_tick_def)

lemma later_dispatch: "first_tick p \<Longrightarrow> tally p (snd (engine_defer_dispatch env s w)) = tally p w"
  by (simp add: engine_defer_dispatch_def engine_handle_stat_def engine_emit_error_via_op_def engine_send_body_def
      Let_def later_delegate split: option.split range_choice.split)

lemma arm_first_tick:
  assumes "engine_arm env s w = (res, o', w')"
  shows "res = SEND_FILE_ASYNC" "tally ((=) Ev_Armed) w' = tally ((=) Ev_Armed) w + 1"
    "tally ((=) Ev_Passthrough) w' = tally ((=) Ev_Passthrough) w"
  using assms by (auto simp: engine_arm_def Let_def later_finalize first_tick_def split: if_splits)

lemma send_file_cases:
  "send_file env req cfg w = (SEND_FILE_HANDLED, None, w) \<or>
   send_file env req cfg w = (SEND_FILE_PASSTHROUGH, None, emit Ev_Passthrough w) \<or>
   (\<exists>s w1. send_file env req cfg w = engine_arm env s w1 \<and>
      w1 \<in> {w, emit Ev_Open w, emit Ev_Close (emit Ev_Open w)})"
  unfolding send_file_def engine_handle_open_failure_def engine_arm_and_defer_error_def Let_def
  by (simp split: option.split) blast

lemma send_file_first_tick:
  assumes "send_file env req cfg w = (res, o', w')" "ew_log w = []"
  shows "tally ((=) Ev_Armed) w' = of_bool (res = SEND_FILE_ASYNC)"
    "tally ((=) Ev_Passthrough) w' = of_bool (res = SEND_FILE_PASSTHROUGH)"
    "res = SEND_FILE_HANDLED \<Longrightarrow> o' = None \<and> w' = w"
proof -
  have z: "tally p w = 0" for p using assms(2) by (simp add: tally_def)
  consider "res = SEND_FILE_HANDLED" "o' = None" "w' = w"
    | "res = SEND_FILE_PASSTHROUGH" "o' = None" "w' = emit Ev_Passthrough w"
    | s w1 where "engine_arm env s w1 = (res, o', w')" "w1 \<in> {w, emit Ev_Open w, emit Ev_Close (emit Ev_Open w)}"
    using send_file_cases [of env req cfg w] assms(1) by force
  then have "tally ((=) Ev_Armed) w' = of_bool (res = SEND_FILE_ASYNC) \<and>
      tally ((=) Ev_Passthrough) w' = of_bool (res = SEND_FILE_PASSTHROUGH) \<and>
      (res = SEND_FILE_HANDLED \<longrightarrow> o' = None \<and> w' = w)"
  proof cases
    case 3
    have "tally ((=) Ev_Armed) w1 = 0" "tally ((=) Ev_Passthrough) w1 = 0" using 3(2) z by auto
    then show ?thesis using arm_first_tick [OF 3(1)] by simp
  qed (simp_all add: z)
  then show "tally ((=) Ev_Armed) w' = of_bool (res = SEND_FILE_ASYNC)"
    "tally ((=) Ev_Passthrough) w' = of_bool (res = SEND_FILE_PASSTHROUGH)"
    "res = SEND_FILE_HANDLED \<Longrightarrow> o' = None \<and> w' = w" by blast+
qed

lemma engine_run_cases:
  assumes "engine_run env env' n req cfg w = (res, w')" "ledger None w"
  shows "ledger None w'" "\<exists>o1 w1. send_file env req cfg w = (res, o1, w1) \<and>
    (o1 = None \<longrightarrow> w' = w1) \<and> (\<forall>p. first_tick p \<longrightarrow> tally p w' = tally p w1)"
proof -
  obtain r o1 w1 where sf: "send_file env req cfg w = (r, o1, w1)" by (metis prod_cases3)
  then have l1: "ledger o1 w1" using ledger_send_file [OF assms(2), of env req cfg] by simp
  have "ledger None w' \<and> (\<exists>o1 w1. send_file env req cfg w = (res, o1, w1) \<and>
    (o1 = None \<longrightarrow> w' = w1) \<and> (\<forall>p. first_tick p \<longrightarrow> tally p w' = tally p w1))"
  proof (cases o1)
    case None then show ?thesis using assms sf l1 by (auto simp: engine_run_def)
  next
    case (Some s)
    obtain o2 w2 where d: "engine_defer_dispatch env' s w1 = (o2, w2)" by fastforce
    have "ledger o2 w2" using ledger_dispatch [of s w1 env'] l1 Some d by simp
    then show ?thesis
      using assms(1) sf Some d later_dispatch [of _ env' s w1]
      by (auto simp: engine_run_def engine_on_protocol_done_def ledger_finalize later_finalize split: option.splits)
  qed
  then show "ledger None w'" "\<exists>o1 w1. send_file env req cfg w = (res, o1, w1) \<and>
    (o1 = None \<longrightarrow> w' = w1) \<and> (\<forall>p. first_tick p \<longrightarrow> tally p w' = tally p w1)" by blast+
qed


text \<open>A 100-byte file \<open>/srv/a.txt\<close> with a working protocol, asked for with a range.\<close>

definition demo_stat :: stat_fields where
  "demo_stat = \<lparr>st_mtim_sec = 784111777, st_mtim_nsec = 0, st_size = 100, st_ino = 7, st_isreg = True\<rparr>"

definition demo_env :: engine_env where
  "demo_env = \<lparr>en_open = (\<lambda>p nf. if p = ''/srv/a.txt'' then Some \<lparr>of_stat = Some demo_stat, of_dev = 1, of_reads = []\<rparr> else None),
     en_now = 0, en_conv = (\<lambda>v. v), en_junk = [], en_keep_alive = True, en_has_op = True, en_op_ok = True,
     en_timer_ok = True, en_io_ok = True\<rparr>"

definition demo_request :: "string \<Rightarrow> http_request" where
  "demo_request rg = \<lparr>req_method = Some ''GET'', req_uri = Some ''/a.txt'',
     req_headers = Some [(''range'', H_Str rg)], req_keep_alive = True\<rparr>"

definition demo_config :: send_file_config where
  "demo_config = \<lparr>cf_abs_path = Some ''/srv/a.txt'', cf_content_type = Some ''text/plain'', cf_content_disposition = None,
     cf_cache_control = None, cf_etag = False, cf_last_modified = False, cf_accept_ranges = True,
     cf_conditional = True, cf_delete_after_send = True, cf_reject_symlinks = False, cf_content_encoding = None,
     cf_status_override = 0, cf_extra_headers = [], cf_mime_overrides = [], cf_cache_view = None,
     cf_use_cache = False, cf_on_error = SEND_FILE_ERR_INLINE_500\<rparr>"

definition demo_world :: engine_world where
  "demo_world = \<lparr>ew_resp = \<lparr>r_status = 200, r_reason = None, r_headers = [], r_body = None, r_body_view = None,
     r_committed = False, r_is_head = False, r_version = None\<rparr>, ew_cache = None, ew_log = []\<rparr>"

definition demo_run :: "string \<Rightarrow> send_file_result \<times> engine_world" where
  "demo_run rg = engine_run demo_env demo_env 0 (Some (demo_request rg)) demo_config demo_world"

lemma demo_run_part:
  "ew_log (snd (demo_run ''bytes=10-19'')) =
     [Ev_Open, Ev_Armed, Ev_Op True True 10 10 False, Ev_Unlink ''/srv/a.txt'', Ev_Done 0]"
  "fst (demo_run ''bytes=10-19'') = SEND_FILE_ASYNC"
  by code_simp+


text \<open>The removal after sending does not look at the response: a request for an
  unsatisfiable range is answered 416 and the file is gone.\<close>

lemma delete_after_refused_range:
  "r_status (ew_resp (snd (demo_run ''bytes=200-''))) = 416"
  "ew_log (snd (demo_run ''bytes=200-'')) =
     [Ev_Open, Ev_Armed, Ev_Close, Ev_Op False True 0 0 True, Ev_Unlink ''/srv/a.txt'', Ev_Done 0]"
  by code_simp+

section \<open>What is sent\<close>

text \<open>The file is only ever offered for a transfer with the arguments of the call.\<close>

lemma delegate_ops:
  assumes "delegate_or_finish env s w f off len h = (o', w')" "ew_log w' = ew_log w @ es"
    "Ev_Op x a off' len' h' \<in> set es"
  shows "off' = off" "len' = len" "h' = h" "ew_resp w' = ew_resp w"
  using assms
  by (auto simp: delegate_or_finish_def engine_delegate_to_protocol_def engine_finalize_def Let_def emit_def
      split: if_splits)

lemma http_range_parse_resolve:
  assumes "http_range_parse h n = RANGE_OK a b"
  shows "\<exists>sf f ls l. range_resolve sf f ls l n = RANGE_OK a b"
  using assms by (auto simp: http_range_parse_def range_last_def Let_def split: option.splits if_splits prod.splits)

lemma engine_range_parse:
  assumes "engine_range s me nm = Part a b"
  shows "\<exists>h. http_range_parse h (st_size (es_st s)) = RANGE_OK a b"
proof -
  have "engine_range s me nm = Part a b \<Longrightarrow>
      http_range_parse (http_request_find_header (es_request s) ''range'') (st_size (es_st s)) = RANGE_OK a b"
    unfolding engine_range_def Let_def by (simp split: if_split_asm http_range_result.split_asm)
  then show ?thesis using assms by blast
qed

lemma part_length:
  fixes a b n :: u64
  assumes "a \<le> b" "b < n"
  shows "unat (b - a + 1) = unat b - unat a + 1"
proof -
  have "unat (b - a) = unat b - unat a" using assms(1) by (simp add: unat_sub word_le_nat_alt)
  moreover have "unat b < 2 ^ 64 - 1" using assms(2) unat_u64 [of n] by (simp add: word_less_nat_alt)
  ultimately show ?thesis by (simp add: unat_word_ariths)
qed

lemma engine_range_part:
  assumes "engine_range s me nm = Part a b"
  shows "unat a + unat (b - a + 1) \<le> unat (st_size (es_st s))"
proof -
  have r: "a \<le> b" "b < st_size (es_st s)"
    using engine_range_parse [OF assms] http_range_parse_resolve range_resolve_bounds by blast+
  have "unat a \<le> unat b" "unat b < unat (st_size (es_st s))" using r by (simp_all add: word_le_nat_alt word_less_nat_alt)
  then show ?thesis unfolding part_length [OF r] by linarith
qed

text \<open>The headers that describe the body, when the mount adds none of the same name.\<close>

lemma set_opt_other: "k \<noteq> map ascii_lower name \<Longrightarrow> header_of (set_opt name v r) k = header_of r k"
  by (simp add: set_header_of split: option.split)

lemma set_other:
  "k \<noteq> map ascii_lower name \<Longrightarrow> header_of (http_response_static_set_header r name v) k = header_of r k"
  by (simp add: set_header_of)

lemma set_opt_status: "r_status (set_opt name v r) = r_status r"
  by (simp add: response_simps split: option.split)

lemma response_if:
  "header_of (if b then x else y) k = (if b then header_of x k else header_of y k)"
  "r_status (if b then x else y) = (if b then r_status x else r_status y)"
  by simp_all

lemma header_names_low:
  "map ascii_lower ''content-length'' = ''content-length''" "map ascii_lower ''content-range'' = ''content-range''"
  "map ascii_lower ''content-type'' = ''content-type''"
  "map ascii_lower ''connection'' = ''connection''" "map ascii_lower ''etag'' = ''etag''"
  "map ascii_lower ''last-modified'' = ''last-modified''" "map ascii_lower ''content-encoding'' = ''content-encoding''"
  "map ascii_lower ''vary'' = ''vary''" "map ascii_lower ''accept-ranges'' = ''accept-ranges''"
  "map ascii_lower ''cache-control'' = ''cache-control''" "map ascii_lower ''content-disposition'' = ''content-disposition''"
  by code_simp+

lemmas engine_headers_unfold = engine_headers_def http_response_set_connection_def http_response_set_content_length_def Let_def

lemma set_same: "header_of (http_response_static_set_header r name v) (map ascii_lower name) = Some (H_Str v)"
  by (simp add: set_header_of)

lemma engine_headers_length:
  assumes "\<forall>(n, v)\<in>set (cf_extra_headers (es_cfg s)). map ascii_lower n \<noteq> ''content-length''"
  shows "header_of (engine_headers env s me False rc r) ''content-length'' = Some (H_Str (dec (unat (engine_body_len s False rc))))"
proof -
  have low: "header_of (http_response_static_set_header r ''content-length'' v) ''content-length'' = Some (H_Str v)" for r v
    using set_same [of r "''content-length''" v] by (simp only: header_names_low)
  show ?thesis
    by (cases rc) (simp_all add: engine_headers_unfold set_opt_other set_other low header_names_low response_if
        apply_extra_other [OF assms] format_u64_dec del: list.map)
qed

lemma engine_headers_range:
  assumes "\<forall>(n, v)\<in>set (cf_extra_headers (es_cfg s)). map ascii_lower n \<noteq> ''content-range''"
    and "length (content_range a b (st_size (es_st s))) < 64"
  shows "header_of (engine_headers env s me False (Part a b) r) ''content-range'' =
    Some (H_Str (content_range a b (st_size (es_st s))))"
proof -
  have low: "header_of (http_response_static_set_header r ''content-range'' v) ''content-range'' = Some (H_Str v)" for r v
    using set_same [of r "''content-range''" v] by (simp only: header_names_low)
  show ?thesis
    by (simp add: engine_headers_unfold set_opt_other set_other low header_names_low response_if
        apply_extra_other [OF assms(1)] assms(2) del: list.map)
qed

lemma status_if:
  "r_status (if b then http_response_static_set_header r name v else r) = r_status r"
  "r_status (if b then set_opt name x r else r) = r_status r"
  by (simp_all add: response_simps set_opt_status)

lemma engine_headers_status:
  assumes "cf_status_override (es_cfg s) = 0"
  shows "r_status (engine_headers env s me nm rc r) = (if nm then 304 else case rc of Part a b \<Rightarrow> 206 | _ \<Rightarrow> 200)"
  unfolding engine_headers_unfold
  by (cases rc) (simp_all only: range_choice.case status_if set_opt_status set_header_rest set_status_simps apply_extra_status assms if_False if_True
      simp_thms split: if_split)

lemma send_body_transfer:
  assumes "engine_send_body env s nm rc w = (o', w')" "ew_log w' = ew_log w @ es" "Ev_Op h a off len False \<in> set es"
  shows "\<not> nm" "off = (case rc of Part a b \<Rightarrow> a | _ \<Rightarrow> 0)" "len = engine_body_len s nm rc" "ew_resp w' = ew_resp w"
proof -
  have no: "delegate_or_finish env s w2 f x y True \<noteq> (o', w')" if "ew_log w2 = ew_log w" for w2 f x y
    using delegate_ops(3) [of env s w2 f x y True o' w' es h a off len False] assms(2,3) that by auto
  have "\<not> nm \<and> delegate_or_finish env s w (es_file s) (case rc of Part a b \<Rightarrow> a | _ \<Rightarrow> 0) (engine_body_len s nm rc) False = (o', w')"
    using assms(1) no unfolding engine_send_body_def Let_def
    by (simp split: if_split_asm option.split_asm)
  then have "\<not> nm" and d: "delegate_or_finish env s w (es_file s) (case rc of Part a b \<Rightarrow> a | _ \<Rightarrow> 0) (engine_body_len s nm rc) False = (o', w')"
    by blast+
  then show "\<not> nm" "off = (case rc of Part a b \<Rightarrow> a | _ \<Rightarrow> 0)" "len = engine_body_len s nm rc" "ew_resp w' = ew_resp w"
    using delegate_ops [OF d assms(2,3)] by simp_all
qed

lemma handle_stat_transfer:
  assumes "engine_handle_stat env s w = (o', w')" "ew_log w' = ew_log w @ es" "Ev_Op h a off len False \<in> set es"
  shows "\<exists>me rc r. rc = engine_range s me False \<and> rc \<noteq> Unsatisfiable \<and> ew_resp w' = engine_headers env s me False rc r \<and>
    off = (case rc of Part a b \<Rightarrow> a | _ \<Rightarrow> 0) \<and> len = engine_body_len s False rc"
proof -
  define me where "me = engine_metadata s"
  define nm where "nm = engine_not_modified env s me"
  define w1 where "w1 = engine_cache_insert env s me w"
  define rc where "rc = engine_range s me nm"
  define w2 where "w2 = w1\<lparr>ew_resp := engine_headers env s me nm rc (ew_resp w1)\<rparr>"
  have l: "ew_log w1 = ew_log w" by (simp add: w1_def engine_cache_insert_def split: option.split)
  have no: "delegate_or_finish env s w2 None x y True \<noteq> (o', w')" if "ew_log w2 = ew_log w" for w2 x y
    using delegate_ops(3) [of env s w2 None x y True o' w' es h a off len False] assms(2,3) that by auto
  have "rc \<noteq> Unsatisfiable \<and> engine_send_body env s nm rc w2 = (o', w')"
    using assms(1) no l unfolding engine_handle_stat_def engine_emit_error_via_op_def Let_def
    by (simp add: me_def [symmetric] nm_def [symmetric] w1_def [symmetric] rc_def [symmetric] w2_def
        split: if_split_asm range_choice.split_asm)
  moreover have "ew_log w' = ew_log w2 @ es" using assms(2) l by (simp add: w2_def)
  ultimately have "rc \<noteq> Unsatisfiable" "\<not> nm" "off = (case rc of Part a b \<Rightarrow> a | _ \<Rightarrow> 0)" "len = engine_body_len s nm rc"
      "ew_resp w' = ew_resp w2"
    using send_body_transfer [of env s nm rc w2 o' w' es h a off len] assms(3) by simp_all
  then have "rc = engine_range s me False \<and> rc \<noteq> Unsatisfiable \<and> ew_resp w' = engine_headers env s me False rc (ew_resp w1) \<and>
    off = (case rc of Part a b \<Rightarrow> a | _ \<Rightarrow> 0) \<and> len = engine_body_len s False rc"
    by (simp add: w2_def rc_def)
  then show ?thesis by blast
qed

text \<open>C33. When the engine offers the file for a transfer of \<open>len\<close> bytes from \<open>off\<close>, that part
  lies inside the file; \<open>Content-Length\<close> is exactly \<open>len\<close>; and either the part is the whole
  file and the status 200, or the status is 206 and \<open>Content-Range\<close> names exactly these bytes.
  The mount's extra headers must not set those two headers, the caller must not override the
  status, and the header must fit the 64-byte buffer.\<close>

theorem sent_part_in_file:
  assumes "engine_handle_stat env s w = (o', w')" "ew_log w' = ew_log w @ es" "Ev_Op h a off len False \<in> set es"
    and "\<forall>(n, v)\<in>set (cf_extra_headers (es_cfg s)). map ascii_lower n \<notin> {''content-length'', ''content-range''}"
    and "cf_status_override (es_cfg s) = 0" "length (content_range off (off + len - 1) (st_size (es_st s))) < 64"
  shows "unat off + unat len \<le> unat (st_size (es_st s)) \<and>
    header_of (ew_resp w') ''content-length'' = Some (H_Str (dec (unat len))) \<and>
    (off = 0 \<and> len = st_size (es_st s) \<and> r_status (ew_resp w') = 200 \<or>
     r_status (ew_resp w') = 206 \<and>
     header_of (ew_resp w') ''content-range'' = Some (H_Str (content_range off (off + len - 1) (st_size (es_st s)))))"
proof -
  obtain me rc r where rc: "rc = engine_range s me False" "rc \<noteq> Unsatisfiable"
    and resp: "ew_resp w' = engine_headers env s me False rc r"
    and off: "off = (case rc of Part a b \<Rightarrow> a | _ \<Rightarrow> 0)" "len = engine_body_len s False rc"
    using handle_stat_transfer [OF assms(1-3)] by blast
  have ex: "\<forall>(n, v)\<in>set (cf_extra_headers (es_cfg s)). map ascii_lower n \<noteq> ''content-length''"
    "\<forall>(n, v)\<in>set (cf_extra_headers (es_cfg s)). map ascii_lower n \<noteq> ''content-range''" using assms(4) by auto
  note st = engine_headers_status [OF assms(5), of env me False rc r] and cl = engine_headers_length [OF ex(1), of env me rc r]
  show ?thesis
  proof (cases rc)
    case (Part a b)
    have p: "off = a" "len = b - a + 1" using off Part by (simp_all add: engine_body_len_def)
    then have q: "off + len - 1 = b" by simp
    have "unat off + unat len \<le> unat (st_size (es_st s))" using engine_range_part [of s me False a b] rc Part p by simp
    moreover have "header_of (ew_resp w') ''content-range'' = Some (H_Str (content_range off (off + len - 1) (st_size (es_st s))))"
      using engine_headers_range [OF ex(2), of a b env me r] assms(6) Part resp p(1) q by simp
    ultimately show ?thesis using st cl resp off(2) Part by (simp only: if_False range_choice.case simp_thms)
  next
    case Whole
    then have "off = 0" "len = st_size (es_st s)" using off by (simp_all add: engine_body_len_def)
    then show ?thesis using st cl resp off(2) Whole by simp
  qed (use rc in simp)
qed

definition demo_state :: engine_state where
  "demo_state = \<lparr>es_cfg = demo_config, es_armed = True, es_request = Some (demo_request ''bytes=10-19''),
     es_path = ''/srv/a.txt'', es_file = en_open demo_env ''/srv/a.txt'' False, es_st = demo_stat, es_is_head = False,
     es_view = None, es_timer = False, es_defer_error = None\<rparr>"

lemma demo_part:
  "ew_log (snd (engine_handle_stat demo_env demo_state demo_world)) = [Ev_Op True True 10 10 False]"
  "length (content_range 10 (10 + 10 - 1) (st_size (es_st demo_state))) < 64"
  "cf_extra_headers (es_cfg demo_state) = []" "cf_status_override (es_cfg demo_state) = 0" "ew_log demo_world = []"
  by code_simp+

theorem sent_part_in_file_witness:
  "unat (10 :: u64) + unat (10 :: u64) \<le> unat (st_size (es_st demo_state)) \<and>
   header_of (ew_resp (snd (engine_handle_stat demo_env demo_state demo_world))) ''content-length'' = Some (H_Str (dec (unat (10 :: u64))))"
proof -
  let ?r = "engine_handle_stat demo_env demo_state demo_world"
  have p: "?r = (fst ?r, snd ?r)" by simp
  have q: "ew_log (snd ?r) = ew_log demo_world @ [Ev_Op True True 10 10 False]" by (simp only: demo_part append_Nil)
  have e: "Ev_Op True True 10 10 False \<in> set [Ev_Op True True 10 10 False]" by simp
  have x: "\<forall>(n, v)\<in>set (cf_extra_headers (es_cfg demo_state)). map ascii_lower n \<notin> {''content-length'', ''content-range''}"
    by (simp add: demo_part)
  show ?thesis using sent_part_in_file [OF p q e x demo_part(4) demo_part(2)] by blast
qed

end
