(* ===== verification/Static_Safety.thy ===== *)
theory Static_Safety
  imports Send_File
begin

text \<open>
  The path checks of the static handler, \<open>src/static/http_static_safety.c\<close> (its POSIX
  branches).  \<open>lstat\<close>, \<open>stat\<close> and \<open>realpath\<close> are the fields of a file system; opening is
  the one of the delivery engine's environment.
\<close>

record path_stat =
  ps_lnk :: bool
  ps_reg :: bool
  ps_uid :: nat
  ps_dev :: nat
  ps_ino :: u64

record static_fs =
  sf_lstat :: "string \<Rightarrow> path_stat option"
  sf_stat :: "string \<Rightarrow> path_stat option"
  sf_realpath :: "string \<Rightarrow> string option"

text \<open>A mount that resolved a path has a root.\<close>

definition root_of :: "http_static_handler \<Rightarrow> string" where
  "root_of mount = (case root_directory mount of Some r \<Rightarrow> r | None \<Rightarrow> [])"

section \<open>Owner sweep\<close>

text \<open>The test of one segment: a link must belong to the owner of its target.\<close>

definition owner_ok :: "static_fs \<Rightarrow> string \<Rightarrow> bool" where
  "owner_ok fs p =
     (case sf_lstat fs p of None \<Rightarrow> False
      | Some ls \<Rightarrow> if ps_lnk ls then (case sf_stat fs p of None \<Rightarrow> False | Some ts \<Rightarrow> ps_uid ls = ps_uid ts) else True)"

text \<open>The loop over the segments: \<open>buf\<close> holds the path so far, \<open>seg\<close> what follows the
  separator.\<close>

function owner_loop :: "static_fs \<Rightarrow> string \<Rightarrow> string \<Rightarrow> bool" where
  "owner_loop fs buf seg =
     (if seg = [] then True
      else let s = takeWhile not_slash seg; buf' = buf @ ''/'' @ s
        in if MAXPATHLEN < length buf + 1 + length s + 1 then False
           else if \<not> owner_ok fs buf' then False
           else if dropWhile not_slash seg = [] then True
           else owner_loop fs buf' (tl (dropWhile not_slash seg)))"
  by auto
termination
  by (relation "measure (\<lambda>(fs, buf, seg). length seg)") (auto simp del: length_tl intro: length_tl_dropWhile)

declare owner_loop.simps [simp del]

definition verify_path_owner_chain :: "static_fs \<Rightarrow> http_static_handler \<Rightarrow> string \<Rightarrow> bool" where
  "verify_path_owner_chain fs mount fs_path =
     (let root = root_of mount; p = c_string fs_path
      in if take (length root) p \<noteq> root then False
         else if MAXPATHLEN \<le> length root then False
         else owner_loop fs root (dropWhile (\<lambda>c. c = CHR ''/'') (drop (length root) p)))"

section \<open>Policies\<close>

definition http_static_symlink_policy_admits :: "static_fs \<Rightarrow> http_static_handler \<Rightarrow> string \<Rightarrow> bool" where
  "http_static_symlink_policy_admits fs mount fs_path =
     (if has_flag mount HTTP_STATIC_FLAG_SYMLINKS_REJECT
      then (case sf_lstat fs (c_string fs_path) of None \<Rightarrow> False | Some ls \<Rightarrow> \<not> ps_lnk ls)
      else if has_flag mount HTTP_STATIC_FLAG_SYMLINKS_OWNER then verify_path_owner_chain fs mount fs_path
      else True)"

definition http_static_resolved_under_root :: "static_fs \<Rightarrow> http_static_handler \<Rightarrow> string \<Rightarrow> bool" where
  "http_static_resolved_under_root fs mount path =
     (case sf_realpath fs (c_string path) of None \<Rightarrow> False
      | Some canonical \<Rightarrow>
         let root = root_of mount
         in if take (length root) canonical \<noteq> root then False
            else length canonical = length root \<or> canonical ! length root = CHR ''/'')"

definition open_for_policy :: "engine_env \<Rightarrow> http_static_handler \<Rightarrow> string \<Rightarrow> open_file option" where
  "open_for_policy env mount path =
     en_open env (c_string path) (has_flag mount HTTP_STATIC_FLAG_SYMLINKS_REJECT)"

text \<open>Open, \<open>fstat\<close>, and the second look at the path; \<open>fs\<close> is the file system at that
  second look.\<close>

definition http_static_try_open_candidate ::
    "engine_env \<Rightarrow> static_fs \<Rightarrow> http_static_handler \<Rightarrow> string \<Rightarrow> engine_world \<Rightarrow>
     (open_file \<times> stat_fields) option \<times> engine_world" where
  "http_static_try_open_candidate env fs mount path w =
     (case open_for_policy env mount path of
        None \<Rightarrow> (None, w)
      | Some f \<Rightarrow>
         let w1 = emit Ev_Open w; fail = (None, emit Ev_Close w1)
         in case of_stat f of
              None \<Rightarrow> fail
            | Some st \<Rightarrow>
               if \<not> st_isreg st then fail
               else case sf_lstat fs (c_string path) of
                 None \<Rightarrow> fail
               | Some path_st \<Rightarrow>
                  if ps_dev path_st \<noteq> of_dev f \<or> ps_ino path_st \<noteq> st_ino st then fail
                  else (Some (f, st), w1))"

section \<open>Facts\<close>

lemma not_slash_split:
  assumes "seg = a @ b" "b = [] \<or> hd b = CHR ''/''" "CHR ''/'' \<notin> set a"
  shows "takeWhile not_slash seg = a" "dropWhile not_slash seg = b"
proof -
  have "\<forall>c\<in>set a. not_slash c" using assms(3) by (auto simp: not_slash_def)
  moreover have "takeWhile not_slash b = [] \<and> dropWhile not_slash b = b"
    using assms(2) by (cases b) (auto simp: not_slash_def)
  ultimately show "takeWhile not_slash seg = a" "dropWhile not_slash seg = b"
    by (simp_all add: assms(1) takeWhile_append dropWhile_append)
qed

text \<open>An accepted path was looked at up to every component boundary: each of these paths
  exists, and where it is a link, link and target have one owner.\<close>

lemma owner_loop_sound:
  assumes "owner_loop fs buf seg" "seg = a @ b" "a \<noteq> []" "last a \<noteq> CHR ''/''" "b = [] \<or> hd b = CHR ''/''"
  shows "owner_ok fs (buf @ ''/'' @ a)"
  using assms
proof (induction fs buf seg arbitrary: a rule: owner_loop.induct)
  case (1 fs buf seg)
  let ?s = "takeWhile not_slash seg" and ?r = "dropWhile not_slash seg"
  have step: "owner_ok fs (buf @ ''/'' @ ?s)" "?r = [] \<or> owner_loop fs (buf @ ''/'' @ ?s) (tl ?r)"
    "\<not> MAXPATHLEN < length buf + 1 + length ?s + 1"
    using 1(2,3,4) owner_loop.simps [of fs buf seg] by (auto simp: Let_def split: if_splits)
  show ?case
  proof (cases "CHR ''/'' \<in> set a")
    case False
    then show ?thesis using not_slash_split [OF 1(3,6)] step(1) by simp
  next
    case True
    then obtain x y where xy: "a = x @ CHR ''/'' # y" "CHR ''/'' \<notin> set x" by (meson split_list_first)
    have sx: "?s = x" "?r = CHR ''/'' # y @ b" using not_slash_split [of seg x "CHR ''/'' # y @ b"] 1(3) xy by auto
    have y: "y \<noteq> []" "last y \<noteq> CHR ''/''" using xy(1) 1(5) by (auto split: if_splits)
    have ne: "seg \<noteq> []" "?r \<noteq> []" "owner_loop fs (buf @ ''/'' @ ?s) (tl ?r)" "tl ?r = y @ b"
      using 1(3,4) sx step(2) by auto
    have "owner_ok fs ((buf @ ''/'' @ ?s) @ ''/'' @ y)"
      by (rule 1(1) [OF ne(1) refl refl step(3) _ ne(2) ne(3) ne(4) y 1(6)]) (use step(1) in simp)
    then have "owner_ok fs ((buf @ ''/'' @ x) @ ''/'' @ y)" by (simp only: sx(1))
    then show ?thesis using xy(1) by simp
  qed
qed

text \<open>A mount on the root directory of the host serves nothing: the byte behind the prefix
  \<open>/\<close> of a canonical path is the first byte of a name, not a separator.\<close>

lemma root_mount_serves_nothing:
  assumes "root_of mount = ''/''" "sf_realpath fs (c_string path) = Some (CHR ''/'' # c # rest)" "c \<noteq> CHR ''/''"
  shows "\<not> http_static_resolved_under_root fs mount path"
  using assms by (simp add: http_static_resolved_under_root_def)

text \<open>The second look uses \<open>lstat\<close>: a path that is a link never opens, although the sweep or
  the \<open>FOLLOW\<close> policy admits it, because the inode of a link differs from its target's.\<close>

lemma approved_link_never_opens:
  assumes "sf_lstat fs (c_string path) = Some ls" "open_for_policy env mount path = Some f"
    and "\<And>st. of_stat f = Some st \<Longrightarrow> ps_ino ls \<noteq> st_ino st"
  shows "fst (http_static_try_open_candidate env fs mount path w) = None"
  using assms by (auto simp: http_static_try_open_candidate_def Let_def split: option.split)

lemma emit_frame [simp]: "ew_resp (emit e w) = ew_resp w" "ew_cache (emit e w) = ew_cache w"
  by (simp_all add: emit_def)

lemma try_open_world:
  assumes "http_static_try_open_candidate env fs mount path w = (res, w')"
  shows "w' = (if res = None then w else emit Ev_Open w) \<or> res = None \<and> w' = emit Ev_Close (emit Ev_Open w)"
    "res = Some (f, st) \<Longrightarrow> open_for_policy env mount path = Some f"
  using assms unfolding http_static_try_open_candidate_def Let_def
  by (auto split: option.splits if_splits)

end
