(* ===== verification/Static_Serve.thy ===== *)
theory Static_Serve
  imports Static_Safety Http_Precompressed
begin

text \<open>
  The static dispatcher, \<open>src/static/http_static.c\<close>: mounts in order, path resolution, the
  policies, directory indexes, precompressed sidecars, the open-file cache, the engine and
  the synchronous fallback.  \<open>fnmatch\<close> is an argument; \<open>stat\<close> of the index and sidecar
  candidates is the file system's.
\<close>

unbundle bit_operations_syntax

section \<open>Helpers\<close>

definition mount_resolve_content_type :: "http_static_handler \<Rightarrow> string \<Rightarrow> string option" where
  "mount_resolve_content_type mount path =
     (case override_type (mime_overrides mount) path of Some t \<Rightarrow> Some t | None \<Rightarrow> http_mime_lookup_by_ext path)"

definition octet_stream :: string where
  "octet_stream = ''application/octet-stream''"

definition type_or_default :: "string option \<Rightarrow> string" where
  "type_or_default t = (case t of Some x \<Rightarrow> x | None \<Rightarrow> octet_stream)"

definition path_targets_directory :: "string \<Rightarrow> bool" where
  "path_targets_directory relative \<longleftrightarrow> relative = [] \<or> last relative = CHR ''/''"

definition apply_mount_headers :: "http_response \<Rightarrow> http_static_handler \<Rightarrow> bool \<Rightarrow> http_response" where
  "apply_mount_headers r mount include_content_headers =
     http_response_apply_extra_headers (set_opt ''cache-control'' (cache_control mount) r) (extra_headers mount)
       include_content_headers"

definition mount_precomp_mask :: "u32 \<Rightarrow> u32" where
  "mount_precomp_mask flags =
     (if flags AND HTTP_STATIC_FLAG_PRECOMP_BR \<noteq> 0 then HTTP_PRECOMP_BR else 0) OR
     (if flags AND HTTP_STATIC_FLAG_PRECOMP_GZIP \<noteq> 0 then HTTP_PRECOMP_GZIP else 0) OR
     (if flags AND HTTP_STATIC_FLAG_PRECOMP_ZSTD \<noteq> 0 then HTTP_PRECOMP_ZSTD else 0)"

definition static_emit_validators :: "http_response \<Rightarrow> string option \<Rightarrow> string option \<Rightarrow> http_response" where
  "static_emit_validators r etag last_modified = set_opt ''last-modified'' last_modified (set_opt ''etag'' etag r)"

definition static_emit_not_modified ::
    "http_response \<Rightarrow> http_static_handler \<Rightarrow> string option \<Rightarrow> string option \<Rightarrow> http_response" where
  "static_emit_not_modified r mount etag last_modified =
     apply_mount_headers (static_emit_validators (http_response_static_set_status r 304) etag last_modified) mount False"

definition static_emit_ok_headers ::
    "http_response \<Rightarrow> http_static_handler \<Rightarrow> string \<Rightarrow> string option \<Rightarrow> string option \<Rightarrow> string option \<Rightarrow> http_response" where
  "static_emit_ok_headers r mount content_type encoding etag last_modified =
     (let r1 = http_response_static_set_header (http_response_static_set_status r 200) ''content-type'' content_type;
          r2 = (case encoding of None \<Rightarrow> r1
                | Some e \<Rightarrow> if e = [] then r1
                    else http_response_static_set_header (http_response_static_set_header r1 ''content-encoding'' e)
                           ''vary'' ''Accept-Encoding'')
      in apply_mount_headers (static_emit_validators r2 etag last_modified) mount True)"

section \<open>Dispatch\<close>

datatype http_static_result = HTTP_STATIC_PASSTHROUGH | HTTP_STATIC_HANDLED | HTTP_STATIC_HARD_ZERO

type_synonym serve_result = "http_static_result \<times> engine_state option \<times> engine_world"

definition HTTP_STATIC_MAX_FILE_SIZE :: nat where
  "HTTP_STATIC_MAX_FILE_SIZE = 256 * 1024 * 1024"

definition answer :: "engine_world \<Rightarrow> int \<Rightarrow> string \<Rightarrow> serve_result" where
  "answer w status body = (HTTP_STATIC_HANDLED, None, w\<lparr>ew_resp := http_response_emit_status_body (ew_resp w) status body\<rparr>)"

definition missing :: "http_static_handler \<Rightarrow> engine_world \<Rightarrow> serve_result" where
  "missing mount w =
     (if has_flag mount HTTP_STATIC_FLAG_ON_MISSING_NEXT then (HTTP_STATIC_PASSTHROUGH, None, w)
      else answer w 404 ''Not Found'')"

definition is_regular :: "static_fs \<Rightarrow> string \<Rightarrow> bool" where
  "is_regular fs path = (case sf_stat fs (c_string path) of None \<Rightarrow> False | Some s \<Rightarrow> ps_reg s)"

fun find_index :: "static_fs \<Rightarrow> string \<Rightarrow> string list \<Rightarrow> string option" where
  "find_index fs dir [] = None"
| "find_index fs dir (idx # rest) =
     (case http_static_path_join dir MAXPATHLEN idx of
        None \<Rightarrow> find_index fs dir rest
      | Some p \<Rightarrow> if is_regular fs p then Some p else find_index fs dir rest)"

definition gate :: "static_fs \<Rightarrow> http_static_handler \<Rightarrow> string \<Rightarrow> bool" where
  "gate fs mount path \<longleftrightarrow>
     http_static_symlink_policy_admits fs mount path \<and> http_static_resolved_under_root fs mount path"

definition conditional :: "engine_env \<Rightarrow> http_request option \<Rightarrow> string option \<Rightarrow> stat_fields \<Rightarrow> bool" where
  "conditional env req etag st =
     http_conditional_check (en_conv env) (en_junk env) (http_request_find_header req ''if-none-match'')
       (http_request_find_header req ''if-modified-since'') etag (mtime_of st)"

text \<open>The answer from a cached body.\<close>

definition serve_cached ::
    "engine_env \<Rightarrow> http_request option \<Rightarrow> http_static_handler \<Rightarrow> cache_view \<Rightarrow> string \<Rightarrow> string option \<Rightarrow> string option \<Rightarrow>
     engine_world \<Rightarrow> serve_result" where
  "serve_cached env req mount cv body encoding override_ct w =
     (let etag = (if has_flag mount HTTP_STATIC_FLAG_ETAG then v_etag cv else None)
      in if conditional env req etag (v_st cv)
         then (HTTP_STATIC_HANDLED, None,
               w\<lparr>ew_resp := static_emit_not_modified (ew_resp w) mount etag (v_last_modified cv)\<rparr>)
         else let ct = (case override_ct of Some t \<Rightarrow> t | None \<Rightarrow> type_or_default (v_content_type cv));
                  r = static_emit_ok_headers (ew_resp w) mount ct encoding etag (v_last_modified cv)
              in (HTTP_STATIC_HANDLED, None, w\<lparr>ew_resp := http_response_static_set_body_view r (Some body)\<rparr>))"

definition mount_config ::
    "http_static_handler \<Rightarrow> string \<Rightarrow> cache_view option \<Rightarrow> string option \<Rightarrow> string option \<Rightarrow> send_file_config" where
  "mount_config mount path view encoding override_ct =
     \<lparr>cf_abs_path = Some path, cf_content_type = override_ct, cf_content_disposition = None,
      cf_cache_control = cache_control mount, cf_etag = has_flag mount HTTP_STATIC_FLAG_ETAG,
      cf_last_modified = True, cf_accept_ranges = True, cf_conditional = True, cf_delete_after_send = False,
      cf_reject_symlinks = has_flag mount HTTP_STATIC_FLAG_SYMLINKS_REJECT, cf_content_encoding = encoding,
      cf_status_override = 0, cf_extra_headers = extra_headers mount, cf_mime_overrides = mime_overrides mount,
      cf_cache_view = view, cf_use_cache = True,
      cf_on_error = (if has_flag mount HTTP_STATIC_FLAG_ON_MISSING_NEXT then SEND_FILE_ERR_PASSTHROUGH_PHP
                     else SEND_FILE_ERR_EMIT_VIA_OP)\<rparr>"

text \<open>The synchronous fallback behind a successful open: \<open>close\<close> comes first on every way
  out but the last, where it follows the read.\<close>

definition serve_opened ::
    "engine_env \<Rightarrow> static_fs \<Rightarrow> http_request option \<Rightarrow> http_static_handler \<Rightarrow> string \<Rightarrow> bool \<Rightarrow> string option \<Rightarrow>
     string option \<Rightarrow> open_file \<Rightarrow> stat_fields \<Rightarrow> engine_world \<Rightarrow> serve_result" where
  "serve_opened env fs req mount path prefer_inline encoding override_ct f st w =
     (let etag = (if has_flag mount HTTP_STATIC_FLAG_ETAG then Some (http_etag_format_strong st) else None);
          last_modified = Some (http_date_format_imf (mtime_of st));
          wc = emit Ev_Close w;
          ct = (case override_ct of Some t \<Rightarrow> t | None \<Rightarrow> type_or_default (mount_resolve_content_type mount path))
      in if \<not> http_static_resolved_under_root fs mount path \<or> \<not> http_static_symlink_policy_admits fs mount path
         then answer wc 404 ''Not Found''
         else if HTTP_STATIC_MAX_FILE_SIZE < unat (st_size st) then answer wc 413 ''Payload Too Large''
         else if conditional env req etag st
         then (HTTP_STATIC_HANDLED, None, wc\<lparr>ew_resp := static_emit_not_modified (ew_resp w) mount etag last_modified\<rparr>)
         else if http_request_method_is_get req
         then (case fs_slurp_fd f (unat (st_size st)) of
             None \<Rightarrow> answer wc 500 ''Internal Server Error''
           | Some body \<Rightarrow>
               let r = static_emit_ok_headers (ew_resp w) mount ct encoding etag last_modified;
                   c = (if prefer_inline then map_option (\<lambda>c. http_static_cache_body_store c path body) (ew_cache w)
                        else ew_cache w)
               in (HTTP_STATIC_HANDLED, None,
                   wc\<lparr>ew_resp := (if http_request_method_is_head req then http_response_set_content_length r (st_size st)
                                   else http_response_static_set_body_view r (Some body)), ew_cache := c\<rparr>))
         else let r = static_emit_ok_headers (ew_resp w) mount ct encoding etag last_modified
           in (HTTP_STATIC_HANDLED, None,
               wc\<lparr>ew_resp := (if http_request_method_is_head req then http_response_set_content_length r (st_size st)
                               else http_response_static_set_body_view r None)\<rparr>))"

definition serve_sync ::
    "engine_env \<Rightarrow> static_fs \<Rightarrow> http_request option \<Rightarrow> http_static_handler \<Rightarrow> string \<Rightarrow> bool \<Rightarrow> string option \<Rightarrow>
     string option \<Rightarrow> engine_world \<Rightarrow> serve_result" where
  "serve_sync env fs req mount path prefer_inline encoding override_ct w =
     (case http_static_try_open_candidate env fs mount path w of
        (None, w1) \<Rightarrow> missing mount w1
      | (Some (f, st), w1) \<Rightarrow> serve_opened env fs req mount path prefer_inline encoding override_ct f st w1)"

text \<open>The sidecar choice in front of the cache: path, coding, type of the original.\<close>

definition choose_sidecar ::
    "engine_env \<Rightarrow> static_fs \<Rightarrow> http_request option \<Rightarrow> http_static_handler \<Rightarrow> string \<Rightarrow> http_static_cache option \<Rightarrow>
     string \<times> string option \<times> string option \<times> http_static_cache option" where
  "choose_sidecar env fs req mount path cache =
     (let em = mount_precomp_mask (mount_flags mount)
      in if em = 0 then (path, None, None, cache)
         else let ct = type_or_default (mount_resolve_content_type mount path)
           in case http_precompressed_select (is_regular fs) (en_now env) (http_request_find_header req ''accept-encoding'')
                     em path MAXPATHLEN cache of
                (None, cache') \<Rightarrow> (path, None, None, cache')
              | (Some (path', token), cache') \<Rightarrow> (path', Some token, if ct = [] then None else Some ct, cache'))"

text \<open>The cache lookup in front of the gate; the counters are events.\<close>

definition look_up :: "engine_env \<Rightarrow> string \<Rightarrow> engine_world \<Rightarrow> cache_view option \<times> engine_world" where
  "look_up env path w =
     (case ew_cache w of None \<Rightarrow> (None, w)
      | Some c \<Rightarrow> (case http_static_cache_lookup (en_now env) c path of
          (Some v, c') \<Rightarrow> (Some v, emit Ev_Cache_Hit (w\<lparr>ew_cache := Some c'\<rparr>))
        | (None, c') \<Rightarrow> (None, emit Ev_Cache_Miss (w\<lparr>ew_cache := Some c'\<rparr>))))"

definition serve_file ::
    "engine_env \<Rightarrow> static_fs \<Rightarrow> http_request option \<Rightarrow> http_static_handler \<Rightarrow> string \<Rightarrow> string option \<Rightarrow> string option \<Rightarrow>
     engine_world \<Rightarrow> serve_result" where
  "serve_file env fs req mount path encoding override_ct w0 =
     (let (view, w) = look_up env path w0;
          gate_ok = (view \<noteq> None \<or> gate fs mount path);
          prefer_inline = (case view of None \<Rightarrow> False
            | Some cv \<Rightarrow> http_request_method_is_get req \<and> unat (st_size (v_st cv)) \<le> SEND_FILE_SLURP_THRESHOLD \<and>
                http_request_find_header req ''range'' = None);
          cached_body = (if prefer_inline then Option.bind (ew_cache w) (\<lambda>c. http_static_cache_body_acquire c path) else None)
      in case cached_body of
           Some body \<Rightarrow> serve_cached env req mount (the view) body encoding override_ct w
         | None \<Rightarrow>
            if \<not> prefer_inline \<and> gate_ok \<and> en_has_op env
            then (case send_file env req (mount_config mount path view encoding override_ct) w of
                (SEND_FILE_ASYNC, s, w1) \<Rightarrow> (HTTP_STATIC_HARD_ZERO, s, emit Ev_Zero_Coroutine w1)
              | (SEND_FILE_PASSTHROUGH, s, w1) \<Rightarrow> (HTTP_STATIC_PASSTHROUGH, None, w1)
              | (SEND_FILE_HANDLED, s, w1) \<Rightarrow> serve_sync env fs req mount path prefer_inline encoding override_ct w1)
            else serve_sync env fs req mount path prefer_inline encoding override_ct w)"

definition serve_resolved ::
    "engine_env \<Rightarrow> static_fs \<Rightarrow> (string \<Rightarrow> string \<Rightarrow> bool) \<Rightarrow> http_request option \<Rightarrow> http_static_handler \<Rightarrow> string \<Rightarrow> string \<Rightarrow>
     engine_world \<Rightarrow> serve_result" where
  "serve_resolved env fs fnmatch req mount fs_path relative w =
     (if relative \<noteq> [] \<and> http_static_path_is_hidden fnmatch (Some mount) relative then missing mount w
      else case (if path_targets_directory relative then find_index fs fs_path (index_files mount) else Some fs_path) of
        None \<Rightarrow> missing mount w
      | Some p \<Rightarrow> (case choose_sidecar env fs req mount p (ew_cache w) of (path, encoding, override_ct, cache) \<Rightarrow>
          serve_file env fs req mount path encoding override_ct (w\<lparr>ew_cache := cache\<rparr>)))"

fun serve_mounts ::
    "engine_env \<Rightarrow> static_fs \<Rightarrow> (string \<Rightarrow> string \<Rightarrow> bool) \<Rightarrow> http_request option \<Rightarrow> string \<Rightarrow> http_static_handler option list \<Rightarrow>
     engine_world \<Rightarrow> serve_result" where
  "serve_mounts env fs fnmatch req uri [] w = (HTTP_STATIC_PASSTHROUGH, None, w)"
| "serve_mounts env fs fnmatch req uri (None # rest) w = serve_mounts env fs fnmatch req uri rest w"
| "serve_mounts env fs fnmatch req uri (Some mount # rest) w =
     (case http_static_path_resolve (Some mount) uri MAXPATHLEN of
        Inl HTTP_STATIC_PATH_NO_MATCH \<Rightarrow> serve_mounts env fs fnmatch req uri rest w
      | Inl HTTP_STATIC_PATH_BAD_REQUEST \<Rightarrow> answer w 400 ''Bad Request''
      | Inl HTTP_STATIC_PATH_FORBIDDEN \<Rightarrow> answer w 404 ''Not Found''
      | Inl HTTP_STATIC_PATH_HIDE \<Rightarrow> missing mount w
      | Inr (fs_path, relative) \<Rightarrow> serve_resolved env fs fnmatch req mount fs_path relative w)"

definition http_static_try_serve_mounts ::
    "engine_env \<Rightarrow> static_fs \<Rightarrow> (string \<Rightarrow> string \<Rightarrow> bool) \<Rightarrow> http_static_handler option list \<Rightarrow> http_request option \<Rightarrow>
     engine_world \<Rightarrow> serve_result" where
  "http_static_try_serve_mounts env fs fnmatch mounts req w =
     (if mounts = [] then (HTTP_STATIC_PASSTHROUGH, None, w)
      else case req of None \<Rightarrow> (HTTP_STATIC_PASSTHROUGH, None, w)
      | Some rq \<Rightarrow>
         if \<not> http_request_method_is_get req \<and> \<not> http_request_method_is_head req
         then (HTTP_STATIC_PASSTHROUGH, None, w)
         else case req_uri rq of
           None \<Rightarrow> (HTTP_STATIC_PASSTHROUGH, None, w)
         | Some uri \<Rightarrow> if uri = [] then (HTTP_STATIC_PASSTHROUGH, None, w)
             else serve_mounts env fs fnmatch req uri mounts w)"

end
