(* ===== verification/Static_Confined.thy ===== *)
theory Static_Confined
  imports Static_Serve
begin

text \<open>
  What the static dispatcher can reveal: every file it hands to the engine or reads itself
  passed the policy and the root check of a mount, and the open-file cache keeps that true
  over any number of requests.
\<close>

section \<open>Vouched caches\<close>

text \<open>Entries of an abstract cache: positive ones are about admitted paths, bodies are
  contents of their files.\<close>

definition entry_ok :: "(string \<Rightarrow> bool) \<Rightarrow> (string \<Rightarrow> string \<Rightarrow> bool) \<Rightarrow> cache_entry \<Rightarrow> bool" where
  "entry_ok V B e \<longleftrightarrow> (\<not> e_not_found e \<longrightarrow> V (e_path e)) \<and> (\<forall>b. e_body e = Some b \<longrightarrow> B (e_path e) b)"

definition vouched :: "(string \<Rightarrow> bool) \<Rightarrow> (string \<Rightarrow> string \<Rightarrow> bool) \<Rightarrow> http_static_cache option \<Rightarrow> bool" where
  "vouched V B oc = (case oc of None \<Rightarrow> True
     | Some c \<Rightarrow> (\<exists>A. cache_rel (c_max c) (c_ttl c) c A \<and> (\<forall>e\<in>set A. entry_ok V B e)))"

lemma a_step_ok:
  assumes "\<forall>e\<in>set A. entry_ok V B e"
    and "\<And>now p st ct et lm. x = C_Insert now p st ct et lm \<Longrightarrow> V p" "\<And>p b. x = C_Store p b \<Longrightarrow> B p b"
  shows "\<forall>e\<in>set (snd (a_step mx ttl A x)). entry_ok V B e"
proof (cases x)
  case (C_Lookup now p)
  then show ?thesis using assms(1) a_find_in [of p A] by (auto simp: a_drop_def split: option.split)
next
  case (C_Insert now p st ct et lm)
  then have "entry_ok V B (a_entry now p st ct et lm False)" using assms(2) by (simp add: entry_ok_def a_entry_def)
  then show ?thesis using assms(1) C_Insert by (auto simp: a_replace_def a_drop_def dest: in_set_takeD)
next
  case (C_Negative now p)
  have "entry_ok V B (a_entry now p zero_stat None None None True)" by (simp add: entry_ok_def a_entry_def)
  then show ?thesis using assms(1) C_Negative by (auto simp: a_replace_def a_drop_def dest: in_set_takeD)
next
  case (C_Store p b)
  then show ?thesis using assms(1) assms(3) [OF C_Store] by (auto simp: a_store_def entry_ok_def)
qed (use assms(1) in \<open>auto simp: a_drop_def split: option.split\<close>)

lemma vouched_step:
  assumes "vouched V B (Some c)"
    and "\<And>now p st ct et lm. x = C_Insert now p st ct et lm \<Longrightarrow> V p" "\<And>p b. x = C_Store p b \<Longrightarrow> B p b"
  shows "vouched V B (Some (snd (cache_step c x)))"
proof -
  obtain A where A: "cache_rel (c_max c) (c_ttl c) c A" "\<forall>e\<in>set A. entry_ok V B e"
    using assms(1) by (auto simp: vouched_def)
  let ?A = "snd (a_step (unat (c_max c)) (c_ttl c) A x)" and ?c = "snd (cache_step c x)"
  have "cache_rel (c_max c) (c_ttl c) ?c ?A" using sim_step [OF A(1), of x] by (simp add: simulates_def)
  moreover from this have "c_max ?c = c_max c" "c_ttl ?c = c_ttl c" by (auto simp: cache_rel_def)
  moreover have "\<forall>e\<in>set ?A. entry_ok V B e" by (rule a_step_ok [OF A(2)]) (use assms(2,3) in auto)
  ultimately show ?thesis by (auto simp: vouched_def)
qed

lemma vouched_lookup:
  assumes "vouched V B (Some c)" "http_static_cache_lookup now c path = (view, c')"
  shows "vouched V B (Some c')" "view \<noteq> None \<Longrightarrow> V path"
proof -
  show "vouched V B (Some c')" using vouched_step [OF assms(1), of "C_Lookup now path"] assms(2) by simp
  obtain A where A: "cache_rel (c_max c) (c_ttl c) c A" "\<forall>e\<in>set A. entry_ok V B e"
    using assms(1) by (auto simp: vouched_def)
  have "R_View view = fst (a_step (unat (c_max c)) (c_ttl c) A (C_Lookup now path))"
    using sim_lookup [OF A(1), of now path] assms(2) by (simp add: simulates_def)
  then show "V path" if "view \<noteq> None"
    using that A(2) a_find_in [of path A] by (auto simp: entry_ok_def split: option.splits if_splits)
qed

lemma vouched_acquire:
  assumes "vouched V B (Some c)" "http_static_cache_body_acquire c path = Some b"
  shows "B path b"
proof -
  obtain A where A: "cache_rel (c_max c) (c_ttl c) c A" "\<forall>e\<in>set A. entry_ok V B e"
    using assms(1) by (auto simp: vouched_def)
  have "R_Body (Some b) = fst (a_step (unat (c_max c)) (c_ttl c) A (C_Acquire path))"
    using sim_acquire [OF A(1), of path] assms(2) by (simp add: simulates_def)
  then show ?thesis using A(2) a_find_in [of path A] by (cases "a_find path A") (auto simp: entry_ok_def)
qed

lemma vouched_insert: "vouched V B (Some c) \<Longrightarrow> V p \<Longrightarrow> vouched V B (Some (http_static_cache_insert now c p st ct et lm))"
  using vouched_step [of V B c "C_Insert now p st ct et lm"] by simp

lemma vouched_store: "vouched V B (Some c) \<Longrightarrow> B p b \<Longrightarrow> vouched V B (Some (http_static_cache_body_store c p b))"
  using vouched_step [of V B c "C_Store p b"] by simp

lemma vouched_exists:
  assumes "vouched V B oc" shows "vouched V B (snd (sidecar_exists r now oc p))"
proof (cases oc)
  case (Some c)
  obtain pr c1 where p: "http_static_cache_probe now c p = (pr, c1)" by fastforce
  have c1: "vouched V B (Some c1)" using vouched_step [of V B c "C_Probe now p"] assms Some p by simp
  then have "vouched V B (Some (http_static_cache_negative_insert now c1 p))"
    using vouched_step [of V B c1 "C_Negative now p"] by simp
  then show ?thesis using Some c1 by (simp add: sidecar_exists_def p)
qed (simp add: sidecar_exists_def vouched_def)

lemma vouched_loop: "vouched V B oc \<Longrightarrow> vouched V B (snd (precomp_loop r now em cap p oc ks))"
proof (induction ks arbitrary: oc)
  case (Cons k ks)
  then show ?case using vouched_exists [OF Cons.prems, of r now "p @ pc_suffix k"] by (auto split: prod.split)
qed simp

lemma vouched_sidecar:
  assumes "vouched V B oc" "choose_sidecar env fs req mount p oc = (path, enc, ct, oc')"
  shows "vouched V B oc'"
  using assms vouched_loop [OF assms(1)]
  by (auto simp: choose_sidecar_def http_precompressed_select_def Let_def split: if_splits option.splits prod.splits)
     (metis snd_conv)+

section \<open>The engine\<close>

lemma delegate_frame:
  "ew_cache (snd (delegate_or_finish env s w f off len h)) = ew_cache w"
  "ew_resp (snd (delegate_or_finish env s w f off len h)) = ew_resp w"
  by (auto simp: delegate_or_finish_def engine_delegate_to_protocol_def engine_finalize_def Let_def split: prod.split)

lemma vouched_tick:
  assumes "vouched V B (ew_cache w)" "V (es_path s)"
  shows "vouched V B (ew_cache (snd (engine_defer_dispatch env s w)))"
proof -
  have i: "vouched V B (ew_cache (engine_cache_insert env s' me w))" if "es_path s' = es_path s" for s' me
    using assms that vouched_insert by (auto simp: engine_cache_insert_def split: option.splits)
  have b: "ew_cache (snd (engine_send_body env s' nm rc w')) = ew_cache w'" for s' nm rc w'
    by (simp add: engine_send_body_def Let_def delegate_frame split: option.split)
  show ?thesis
    unfolding engine_defer_dispatch_def engine_handle_stat_def engine_emit_error_via_op_def Let_def
    by (simp add: delegate_frame b i assms(1) split: option.split range_choice.split)
qed

lemma send_file_state:
  assumes "send_file env req cfg w = (res, st, w')"
  shows "ew_cache w' = ew_cache w" "ew_resp w' = ew_resp w" "st = Some s \<Longrightarrow> Some (es_path s) = cf_abs_path cfg"
  using assms unfolding send_file_def engine_handle_open_failure_def engine_arm_and_defer_error_def engine_arm_def Let_def
  by (auto simp: engine_finalize_def Let_def split: if_splits option.splits)

section \<open>The dispatcher\<close>

definition shows_file :: "engine_env \<Rightarrow> string \<Rightarrow> string \<Rightarrow> bool" where
  "shows_file env p b \<longleftrightarrow> (\<exists>nf f n. en_open env (c_string p) nf = Some f \<and> fs_slurp_fd f n = Some b)"

definition body_from :: "(string \<Rightarrow> bool) \<Rightarrow> (string \<Rightarrow> string \<Rightarrow> bool) \<Rightarrow> http_response \<Rightarrow> http_response \<Rightarrow> bool" where
  "body_from V B r r' \<longleftrightarrow> r_body_view r' = r_body_view r \<or> r_body_view r' = None \<or>
     (\<exists>p b. V p \<and> B p b \<and> r_body_view r' = Some b)"

definition served :: "(string \<Rightarrow> bool) \<Rightarrow> (string \<Rightarrow> string \<Rightarrow> bool) \<Rightarrow> http_response \<Rightarrow> serve_result \<Rightarrow> bool" where
  "served V B r x = (case x of (res, st, w') \<Rightarrow>
     vouched V B (ew_cache w') \<and> (\<forall>s. st = Some s \<longrightarrow> V (es_path s)) \<and> body_from V B r (ew_resp w'))"

lemma extra_view: "r_body_view (http_response_apply_extra_headers r extra inc) = r_body_view r"
  unfolding http_response_apply_extra_headers_def
  by (induction extra arbitrary: r) (auto simp: set_header_rest)

lemma emit_view:
  "r_body_view (static_emit_not_modified r m e l) = r_body_view r"
  "r_body_view (static_emit_ok_headers r m ct enc e l) = r_body_view r"
  "r_body_view (http_response_set_content_length r n) = r_body_view r"
  by (simp_all add: static_emit_not_modified_def static_emit_ok_headers_def apply_mount_headers_def extra_view
      static_emit_validators_def http_response_set_content_length_def set_header_rest http_response_static_set_status_def
      Let_def split: option.split)

lemma served_answer: "vouched V B (ew_cache w) \<Longrightarrow> r_body_view (ew_resp w) = r_body_view r \<Longrightarrow> served V B r (answer w n body)"
  by (simp add: served_def answer_def body_from_def http_response_emit_status_body_def Let_def set_header_rest
      http_response_static_set_status_def http_response_static_set_body_cstr_def response_set_body_bytes_def)

lemma served_missing: "vouched V B (ew_cache w) \<Longrightarrow> ew_resp w = r \<Longrightarrow> served V B r (missing mount w)"
  by (simp add: missing_def served_answer) (simp add: served_def body_from_def)

lemma served_cached:
  assumes "vouched V B (ew_cache w)" "V p" "B p body" "ew_resp w = r"
  shows "served V B r (serve_cached env req mount cv body enc ct w)"
  using assms by (auto simp: serve_cached_def served_def body_from_def Let_def emit_view
      http_response_static_set_body_view_def split: option.split)

lemma served_opened:
  assumes "vouched V (shows_file env) (ew_cache w)" "gate fs mount path \<Longrightarrow> V path" "ew_resp w = r"
    and "open_for_policy env mount path = Some f"
  shows "served V (shows_file env) r (serve_opened env fs req mount path inl enc ct f st w)"
proof (cases "gate fs mount path")
  case False
  then show ?thesis
    using assms(1,3) by (simp add: serve_opened_def Let_def gate_def de_Morgan_conj [symmetric] conj_commute served_answer)
next
  case True
  then have V: "V path" and g: "http_static_resolved_under_root fs mount path" "http_static_symlink_policy_admits fs mount path"
    using assms(2) by (simp_all add: gate_def)
  have B: "shows_file env path b" if "fs_slurp_fd f n = Some b" for n b
    using assms(4) that unfolding shows_file_def open_for_policy_def by blast
  have st: "vouched V (shows_file env) (map_option (\<lambda>c. http_static_cache_body_store c path b) (ew_cache w))"
    if "fs_slurp_fd f n = Some b" for n b
    using assms(1) vouched_store [of V "shows_file env" _ path b] B [OF that] by (cases "ew_cache w") (auto simp: vouched_def)
  show ?thesis
    unfolding serve_opened_def Let_def using g assms(1,3) V B st
    by (auto simp: served_answer split: option.split) (auto simp: served_def body_from_def emit_view http_response_static_set_body_view_def)
qed

lemma served_sync:
  assumes "vouched V (shows_file env) (ew_cache w)" "gate fs mount path \<Longrightarrow> V path" "ew_resp w = r"
  shows "served V (shows_file env) r (serve_sync env fs req mount path inl enc ct w)"
proof -
  obtain res w1 where o: "http_static_try_open_candidate env fs mount path w = (res, w1)" by fastforce
  note t = try_open_world(1) [OF o]
  have w1: "ew_cache w1 = ew_cache w" "ew_resp w1 = ew_resp w" using t by (auto split: if_splits)
  show ?thesis
  proof (cases res)
    case None
    then show ?thesis using o w1 assms by (simp add: serve_sync_def served_missing)
  next
    case (Some fst)
    obtain f st where "fst = (f, st)" by fastforce
    then show ?thesis
      using o w1 assms Some try_open_world(2) [OF o, of f st] by (simp add: serve_sync_def served_opened)
  qed
qed

lemma look_up_ok:
  assumes "vouched V B (ew_cache w)" "look_up env path w = (view, w')"
  shows "vouched V B (ew_cache w')" "view \<noteq> None \<Longrightarrow> V path" "ew_resp w' = ew_resp w"
  using assms vouched_lookup [of V B]
  by (auto simp: look_up_def split: option.splits prod.splits)

lemma served_file:
  assumes "vouched V (shows_file env) (ew_cache w)" "gate fs mount path \<Longrightarrow> V path"
  shows "served V (shows_file env) (ew_resp w) (serve_file env fs req mount path enc ct w)"
proof -
  obtain view w1 where l: "look_up env path w = (view, w1)" by fastforce
  note lu = look_up_ok [OF assms(1) l]
  define inl where "inl = (case view of None \<Rightarrow> False
    | Some cv \<Rightarrow> http_request_method_is_get req \<and> unat (st_size (v_st cv)) \<le> SEND_FILE_SLURP_THRESHOLD \<and>
        http_request_find_header req ''range'' = None)"
  define cb where "cb = (if inl then Option.bind (ew_cache w1) (\<lambda>c. http_static_cache_body_acquire c path) else None)"
  have "inl \<Longrightarrow> V path" using lu(2) by (auto simp: inl_def split: option.splits)
  then have hit: "served V (shows_file env) (ew_resp w) (serve_cached env req mount (the view) body enc ct w1)" if "cb = Some body" for body
    using that lu(1,3) vouched_acquire [of V "shows_file env" _ path body]
    by (intro served_cached [of V "shows_file env" _ path]) (auto simp: cb_def bind_eq_Some_conv split: if_splits)
  have sync: "served V (shows_file env) (ew_resp w) (serve_sync env fs req mount path i enc ct w1)" for i
    by (rule served_sync) (use lu assms(2) in auto)
  have eng: "served V (shows_file env) (ew_resp w)
      (case send_file env req (mount_config mount path view enc ct) w1 of
         (SEND_FILE_ASYNC, s, w1) \<Rightarrow> (HTTP_STATIC_HARD_ZERO, s, emit Ev_Zero_Coroutine w1)
       | (SEND_FILE_PASSTHROUGH, s, w1) \<Rightarrow> (HTTP_STATIC_PASSTHROUGH, None, w1)
       | (SEND_FILE_HANDLED, s, w1) \<Rightarrow> serve_sync env fs req mount path inl enc ct w1)"
    if "view \<noteq> None \<or> gate fs mount path"
  proof -
    have V: "V path" using that lu(2) assms(2) by blast
    obtain res st w2 where sf: "send_file env req (mount_config mount path view enc ct) w1 = (res, st, w2)"
      by (metis prod_cases3)
    note f = send_file_state [OF sf]
    have "served V (shows_file env) (ew_resp w) (serve_sync env fs req mount path inl enc ct w2)"
      by (rule served_sync) (use lu f assms(2) in auto)
    then show ?thesis
      using sf f lu V by (cases res) (auto simp: served_def body_from_def mount_config_def)
  qed
  show ?thesis
    unfolding serve_file_def Let_def l prod.case inl_def [symmetric] cb_def [symmetric]
  proof (cases cb, goal_cases)
    case 1 then show ?case using sync eng by (simp only: option.case) (simp split: if_split)
  next
    case (2 body) then show ?case using hit by (simp only: option.case)
  qed
qed

lemma served_mounts:
  assumes "vouched V (shows_file env) (ew_cache w)" "\<And>m p. Some m \<in> set mounts \<Longrightarrow> gate fs m p \<Longrightarrow> V p"
  shows "served V (shows_file env) (ew_resp w) (serve_mounts env fs fnmatch req uri mounts w)"
  using assms(2)
proof (induction mounts)
  case Nil
  then show ?case using assms(1) by (simp add: served_def body_from_def)
next
  case (Cons om rest)
  have rest: "served V (shows_file env) (ew_resp w) (serve_mounts env fs fnmatch req uri rest w)"
    by (rule Cons.IH) (use Cons.prems in auto)
  show ?case
  proof (cases om)
    case None then show ?thesis using rest by simp
  next
    case (Some mount)
    have r: "served V (shows_file env) (ew_resp w) (serve_resolved env fs fnmatch req mount p rel w)" for p rel
      unfolding serve_resolved_def
      using assms(1) served_missing [OF assms(1), of "ew_resp w" mount] Cons.prems [of mount] Some
      by (auto split: option.split prod.split
          intro!: served_file [where w = "w\<lparr>ew_cache := _\<rparr>", simplified] dest: vouched_sidecar [OF assms(1)])
    show ?thesis
      using Some rest r served_missing [OF assms(1), of "ew_resp w" mount] served_answer [OF assms(1), of "ew_resp w"]
      by (simp split: sum.split http_static_path_result.split prod.split)
  qed
qed

text \<open>
  C34. Only admitted files are served.  Take a cache in which every positive entry is about a
  path that passed the symlink policy and the root check of some mount and every cached body
  is the content of its file (an empty cache is such).  After a request, a delivery handed to
  the engine is for such a path; a body put on the response is the content of a file with
  such a path; and the cache is again as before, also after the engine's tick has inserted
  what it learnt.  A request other than \<open>GET\<close> and \<open>HEAD\<close> changes nothing at all.
\<close>

theorem static_serve_confined:
  fixes fs mounts V
  assumes V: "V = (\<lambda>p. \<exists>m. Some m \<in> set mounts \<and>
      http_static_symlink_policy_admits fs m p \<and> http_static_resolved_under_root fs m p)"
    and "vouched V (shows_file env) (ew_cache w)"
    and run: "http_static_try_serve_mounts env fs fnmatch mounts req w = (res, st, w')"
  shows "vouched V (shows_file env) (ew_cache w') \<and>
    (case st of None \<Rightarrow> True
     | Some s \<Rightarrow> V (es_path s) \<and> vouched V (shows_file env) (ew_cache (snd (engine_defer_dispatch env' s w')))) \<and>
    (r_body_view (ew_resp w) = None \<longrightarrow> (case r_body_view (ew_resp w') of None \<Rightarrow> True
     | Some b \<Rightarrow> \<exists>p. V p \<and> shows_file env p b)) \<and>
    (\<not> http_request_method_is_get req \<and> \<not> http_request_method_is_head req \<longrightarrow>
       res = HTTP_STATIC_PASSTHROUGH \<and> st = None \<and> w' = w)"
proof -
  have "served V (shows_file env) (ew_resp w) (serve_mounts env fs fnmatch req uri mounts w)" for req uri
    by (rule served_mounts [OF assms(2)]) (auto simp: V gate_def)
  moreover have "served V (shows_file env) (ew_resp w) (HTTP_STATIC_PASSTHROUGH, None, w)"
    using assms(2) by (simp add: served_def body_from_def)
  ultimately have "served V (shows_file env) (ew_resp w) (res, st, w')"
    unfolding run [symmetric] http_static_try_serve_mounts_def by (simp split: option.split)
  then have s: "vouched V (shows_file env) (ew_cache w')" "\<And>s. st = Some s \<Longrightarrow> V (es_path s)"
      "body_from V (shows_file env) (ew_resp w) (ew_resp w')"
    by (simp_all add: served_def)
  have "\<not> http_request_method_is_get req \<and> \<not> http_request_method_is_head req \<longrightarrow>
      res = HTTP_STATIC_PASSTHROUGH \<and> st = None \<and> w' = w"
    using run by (auto simp: http_static_try_serve_mounts_def split: option.splits if_splits)
  then show ?thesis
    using s vouched_tick [OF s(1)] by (auto simp: body_from_def split: option.split)
qed

definition demo_fs :: static_fs where
  "demo_fs = \<lparr>sf_lstat = (\<lambda>p. Some \<lparr>ps_lnk = False, ps_reg = True, ps_uid = 0, ps_dev = 1, ps_ino = 7\<rparr>),
     sf_stat = (\<lambda>p. Some \<lparr>ps_lnk = False, ps_reg = True, ps_uid = 0, ps_dev = 1, ps_ino = 7\<rparr>),
     sf_realpath = (\<lambda>p. Some p)\<rparr>"

definition demo_serve :: serve_result where
  "demo_serve = http_static_try_serve_mounts demo_env demo_fs (\<lambda>_ _. False) [Some demo_mount]
     (Some ((demo_request ''bytes=10-19'')\<lparr>req_uri := Some ''/s/a.txt''\<rparr>)) demo_world"

lemma demo_serve_path:
  "map_option es_path (fst (snd demo_serve)) = Some ''/srv/a.txt''"
  by code_simp

theorem static_serve_confined_witness:
  "http_static_resolved_under_root demo_fs demo_mount ''/srv/a.txt''"
proof -
  let ?V = "\<lambda>p. \<exists>m. Some m \<in> set [Some demo_mount] \<and>
      http_static_symlink_policy_admits demo_fs m p \<and> http_static_resolved_under_root demo_fs m p"
  obtain res st w' where r: "demo_serve = (res, st, w')" by (metis prod_cases3)
  obtain s where s: "st = Some s" "es_path s = ''/srv/a.txt''" using demo_serve_path unfolding r by auto
  have "vouched ?V (shows_file demo_env) (ew_cache demo_world)" by (simp add: vouched_def demo_world_def)
  then have "?V (es_path s)"
    using static_serve_confined [OF refl _ r [unfolded demo_serve_def]] s(1) by simp
  then show ?thesis using s(2) by simp
qed

text \<open>The view the dispatcher hands to the engine is read again on the next tick.  The
  struct is copied, the strings it points to are not: with room for one entry, an insert in
  between frees the cell they live in.\<close>

definition demo_cache :: http_static_cache where
  "demo_cache = http_static_cache_insert 0 (http_static_cache_create 1 60) ''/a'' demo_stat None (Some ''x'') None"

lemma view_outlived_by_state:
  "fst (http_static_cache_lookup 0 demo_cache ''/a'') \<noteq> None"
  "c_heap demo_cache 0 \<noteq> None"
  "c_heap (http_static_cache_insert 0 (snd (http_static_cache_lookup 0 demo_cache ''/a'')) ''/b'' demo_stat None None None) 0 = None"
  by code_simp+

end
