(* ===== verification/Multipart_Parser.thy ===== *)
theory Multipart_Parser
  imports Http_Params
begin

text \<open>
  The streaming multipart parser, \<open>src/formats/multipart_parser.c\<close>.  One iteration of the
  loop of \<open>multipart_parser_execute\<close> is \<open>mp_step\<close>; the loop runs with fuel, of which twice
  the length of the input is enough.  Callbacks are events in the order of the calls, and an
  argument tells from the events so far whether the next call returns 0.  A callback that is
  not installed is one that returns 0.

  The pointer \<open>mark\<close> is the text between it and the current position.  The array
  \<open>lookbehind\<close> is its used part.
\<close>

section \<open>State\<close>

datatype mp_state =
  MP_STATE_START | MP_STATE_BOUNDARY_START | MP_STATE_BOUNDARY | MP_STATE_BOUNDARY_ALMOST_DONE
| MP_STATE_BOUNDARY_DONE | MP_STATE_HEADER_FIELD_START | MP_STATE_HEADER_FIELD | MP_STATE_HEADER_VALUE_START
| MP_STATE_HEADER_VALUE | MP_STATE_HEADER_VALUE_ALMOST_DONE | MP_STATE_HEADERS_ALMOST_DONE | MP_STATE_HEADERS_DONE
| MP_STATE_PART_DATA | MP_STATE_PART_DATA_CR | MP_STATE_PART_DATA_LF | MP_STATE_PART_DATA_BOUNDARY_START
| MP_STATE_PART_DATA_BOUNDARY_DASH | MP_STATE_PART_DATA_BOUNDARY | MP_STATE_PART_DATA_END | MP_STATE_BODY_END
| MP_STATE_END | MP_STATE_ERROR

datatype mp_event =
  On_Part_Begin | On_Header_Field string | On_Header_Value string | On_Headers_Complete
| On_Part_Data string | On_Part_End | On_Body_End

record mp_parser =
  mp_boundary :: string
  mp_st :: mp_state
  mp_index :: nat
  mp_lookbehind :: string
  mp_started :: bool
  mp_error :: "string option"
  mp_events :: "mp_event list"

type_synonym mp_callbacks = "mp_event list \<Rightarrow> mp_event \<Rightarrow> bool"

definition MULTIPART_MAX_BOUNDARY_LEN :: nat where
  "MULTIPART_MAX_BOUNDARY_LEN = 70"

definition multipart_parser_init :: "string option \<Rightarrow> mp_parser option" where
  "multipart_parser_init boundary = (case boundary of None \<Rightarrow> None | Some b0 \<Rightarrow>
     let b = c_string b0
     in if b = [] \<or> MULTIPART_MAX_BOUNDARY_LEN < length b then None
        else Some \<lparr>mp_boundary = b, mp_st = MP_STATE_START, mp_index = 0, mp_lookbehind = [], mp_started = False,
                   mp_error = None, mp_events = []\<rparr>)"

definition multipart_parser_create :: "string option \<Rightarrow> mp_parser option" where
  "multipart_parser_create boundary = multipart_parser_init boundary"

definition multipart_parser_reset :: "mp_parser \<Rightarrow> mp_parser" where
  "multipart_parser_reset ps =
     ps\<lparr>mp_st := MP_STATE_START, mp_index := 0, mp_lookbehind := [], mp_started := False, mp_error := None\<rparr>"

definition multipart_parser_is_complete :: "mp_parser \<Rightarrow> bool" where
  "multipart_parser_is_complete ps \<longleftrightarrow> mp_st ps = MP_STATE_END"

definition multipart_parser_has_error :: "mp_parser \<Rightarrow> bool" where
  "multipart_parser_has_error ps \<longleftrightarrow> mp_st ps = MP_STATE_ERROR"

definition multipart_parser_get_error :: "mp_parser \<Rightarrow> string option" where
  "multipart_parser_get_error ps = (if mp_st ps = MP_STATE_ERROR then mp_error ps else None)"

section \<open>Callbacks\<close>

fun event_name :: "mp_event \<Rightarrow> string" where
  "event_name On_Part_Begin = ''on_part_begin''"
| "event_name (On_Header_Field s) = ''on_header_field''"
| "event_name (On_Header_Value s) = ''on_header_value''"
| "event_name On_Headers_Complete = ''on_headers_complete''"
| "event_name (On_Part_Data s) = ''on_part_data''"
| "event_name On_Part_End = ''on_part_end''"
| "event_name On_Body_End = ''on_body_end''"

definition mp_fail :: "string \<Rightarrow> mp_parser \<Rightarrow> mp_parser" where
  "mp_fail reason ps = ps\<lparr>mp_st := MP_STATE_ERROR, mp_error := Some reason\<rparr>"

definition MP_CALLBACK :: "mp_callbacks \<Rightarrow> mp_event \<Rightarrow> mp_parser \<Rightarrow> mp_parser + mp_parser" where
  "MP_CALLBACK cb e ps =
     (let ps' = ps\<lparr>mp_events := mp_events ps @ [e]\<rparr>
      in if cb (mp_events ps) e then Inr ps'
         else Inl (mp_fail (''callback '' @ event_name e @ '' returned error'') ps'))"

definition CALLBACK_DATA :: "mp_callbacks \<Rightarrow> (string \<Rightarrow> mp_event) \<Rightarrow> string \<Rightarrow> mp_parser \<Rightarrow> mp_parser + mp_parser" where
  "CALLBACK_DATA cb K s ps = (if s = [] then Inr ps else MP_CALLBACK cb (K s) ps)"

definition and_then :: "'e + 'a \<Rightarrow> ('a \<Rightarrow> 'e + 'b) \<Rightarrow> 'e + 'b" where
  "and_then x f = (case x of Inl e \<Rightarrow> Inl e | Inr a \<Rightarrow> f a)"

definition flush_lookbehind :: "mp_callbacks \<Rightarrow> mp_parser \<Rightarrow> mp_parser + mp_parser" where
  "flush_lookbehind cb ps =
     (if mp_lookbehind ps \<noteq> []
      then and_then (CALLBACK_DATA cb On_Part_Data (mp_lookbehind ps) ps) (\<lambda>ps1. Inr (ps1\<lparr>mp_lookbehind := []\<rparr>))
      else Inr ps)"

section \<open>One iteration\<close>

text \<open>A successful iteration tells whether \<open>p\<close> moved on, with the text behind \<open>mark\<close> then.\<close>

abbreviation CR :: char where "CR \<equiv> CHR 0x0D"
abbreviation LF :: char where "LF \<equiv> CHR 0x0A"
abbreviation DASH :: char where "DASH \<equiv> CHR ''-''"

type_synonym mp_outcome = "mp_parser + (bool \<times> mp_parser \<times> string option)"

definition accumulates :: "mp_state \<Rightarrow> bool" where
  "accumulates s \<longleftrightarrow> s = MP_STATE_HEADER_FIELD \<or> s = MP_STATE_HEADER_VALUE \<or> s = MP_STATE_PART_DATA"

definition text_of :: "string option \<Rightarrow> string" where
  "text_of m = (case m of None \<Rightarrow> [] | Some t \<Rightarrow> t)"

definition adv :: "char \<Rightarrow> string option \<Rightarrow> string option" where
  "adv c m = map_option (\<lambda>t. t @ [c]) m"

abbreviation go :: "mp_parser \<Rightarrow> string option \<Rightarrow> mp_outcome" where
  "go ps m \<equiv> Inr (True, ps, m)"

abbreviation again :: "mp_parser \<Rightarrow> string option \<Rightarrow> mp_outcome" where
  "again ps m \<equiv> Inr (False, ps, m)"

definition begin_part :: "mp_callbacks \<Rightarrow> mp_parser \<Rightarrow> string option \<Rightarrow> mp_outcome" where
  "begin_part cb ps m = and_then (MP_CALLBACK cb On_Part_Begin ps)
     (\<lambda>ps1. go (ps1\<lparr>mp_started := True, mp_st := MP_STATE_HEADER_FIELD_START\<rparr>) m)"

definition not_boundary :: "mp_callbacks \<Rightarrow> mp_parser \<Rightarrow> string option \<Rightarrow> mp_outcome" where
  "not_boundary cb ps m = and_then (flush_lookbehind cb ps) (\<lambda>ps1. again (ps1\<lparr>mp_st := MP_STATE_PART_DATA\<rparr>) m)"

definition hold :: "char \<Rightarrow> mp_state \<Rightarrow> mp_parser \<Rightarrow> mp_parser" where
  "hold c s ps = ps\<lparr>mp_lookbehind := mp_lookbehind ps @ [c], mp_st := s\<rparr>"

definition mp_step :: "mp_callbacks \<Rightarrow> mp_parser \<Rightarrow> string option \<Rightarrow> char \<Rightarrow> mp_outcome" where
  "mp_step cb ps m0 c =
     (let m = (if m0 = None \<and> accumulates (mp_st ps) then Some [] else m0); t = text_of m;
          set = (\<lambda>s. ps\<lparr>mp_st := s\<rparr>) in
      case mp_st ps of
        MP_STATE_START \<Rightarrow> if c = DASH then go (set MP_STATE_BOUNDARY_START) (adv c m) else go ps (adv c m)
      | MP_STATE_BOUNDARY_START \<Rightarrow>
          if c = DASH then go (ps\<lparr>mp_index := 0, mp_st := MP_STATE_BOUNDARY\<rparr>) (adv c m) else go (set MP_STATE_START) (adv c m)
      | MP_STATE_BOUNDARY \<Rightarrow>
          let ps1 = (if mp_index ps < length (mp_boundary ps)
                     then (if c = mp_boundary ps ! mp_index ps then ps\<lparr>mp_index := mp_index ps + 1\<rparr> else set MP_STATE_START)
                     else ps)
          in go (if mp_index ps1 = length (mp_boundary ps1) then ps1\<lparr>mp_st := MP_STATE_BOUNDARY_ALMOST_DONE\<rparr> else ps1) (adv c m)
      | MP_STATE_BOUNDARY_ALMOST_DONE \<Rightarrow>
          if c = CR then go (set MP_STATE_BOUNDARY_DONE) (adv c m)
          else if c = DASH then go (set MP_STATE_BODY_END) (adv c m)
          else if c = LF then begin_part cb ps (adv c m)
          else Inl (mp_fail ''expected CR or LF after boundary'' ps)
      | MP_STATE_BOUNDARY_DONE \<Rightarrow>
          if c = LF then begin_part cb ps (adv c m) else Inl (mp_fail ''expected LF after CR'' ps)
      | MP_STATE_HEADER_FIELD_START \<Rightarrow>
          if c = CR then go (set MP_STATE_HEADERS_ALMOST_DONE) (Some [c])
          else if c = LF
          then and_then (MP_CALLBACK cb On_Headers_Complete ps) (\<lambda>ps1. go (ps1\<lparr>mp_st := MP_STATE_PART_DATA\<rparr>) (Some []))
          else go (set MP_STATE_HEADER_FIELD) (Some [c])
      | MP_STATE_HEADER_FIELD \<Rightarrow>
          if c = CHR '':''
          then and_then (CALLBACK_DATA cb On_Header_Field t ps) (\<lambda>ps1. go (ps1\<lparr>mp_st := MP_STATE_HEADER_VALUE_START\<rparr>) None)
          else if c = CR \<or> c = LF then Inl (mp_fail ''unexpected end of line in header name'' ps)
          else go ps (adv c m)
      | MP_STATE_HEADER_VALUE_START \<Rightarrow>
          if c = CHR '' '' \<or> c = CHR 0x09 then go ps (adv c m) else again (set MP_STATE_HEADER_VALUE) (Some [])
      | MP_STATE_HEADER_VALUE \<Rightarrow>
          if c = CR
          then and_then (CALLBACK_DATA cb On_Header_Value t ps) (\<lambda>ps1. go (ps1\<lparr>mp_st := MP_STATE_HEADER_VALUE_ALMOST_DONE\<rparr>) None)
          else if c = LF
          then and_then (CALLBACK_DATA cb On_Header_Value t ps) (\<lambda>ps1. go (ps1\<lparr>mp_st := MP_STATE_HEADER_FIELD_START\<rparr>) None)
          else go ps (adv c m)
      | MP_STATE_HEADER_VALUE_ALMOST_DONE \<Rightarrow>
          if c = LF then go (set MP_STATE_HEADER_FIELD_START) (adv c m) else Inl (mp_fail ''expected LF after CR in header'' ps)
      | MP_STATE_HEADERS_ALMOST_DONE \<Rightarrow>
          if c = LF
          then and_then (MP_CALLBACK cb On_Headers_Complete ps) (\<lambda>ps1. go (ps1\<lparr>mp_st := MP_STATE_PART_DATA\<rparr>) (Some []))
          else Inl (mp_fail ''expected LF after CR'' ps)
      | MP_STATE_PART_DATA \<Rightarrow>
          if c = CR
          then and_then (CALLBACK_DATA cb On_Part_Data t ps) (\<lambda>ps1. go (ps1\<lparr>mp_lookbehind := [CR], mp_st := MP_STATE_PART_DATA_CR\<rparr>) None)
          else if c = LF
          then and_then (CALLBACK_DATA cb On_Part_Data t ps) (\<lambda>ps1. go (ps1\<lparr>mp_lookbehind := [LF], mp_st := MP_STATE_PART_DATA_LF\<rparr>) None)
          else go ps (adv c m)
      | MP_STATE_PART_DATA_CR \<Rightarrow>
          if c = LF then go (hold LF MP_STATE_PART_DATA_LF ps) (adv c m) else not_boundary cb ps m
      | MP_STATE_PART_DATA_LF \<Rightarrow>
          if c = DASH then go (hold DASH MP_STATE_PART_DATA_BOUNDARY_START ps) (adv c m) else not_boundary cb ps m
      | MP_STATE_PART_DATA_BOUNDARY_START \<Rightarrow>
          if c = DASH then go ((hold DASH MP_STATE_PART_DATA_BOUNDARY ps)\<lparr>mp_index := 0\<rparr>) (adv c m) else not_boundary cb ps m
      | MP_STATE_PART_DATA_BOUNDARY \<Rightarrow>
          if mp_index ps < length (mp_boundary ps) \<and> c \<noteq> mp_boundary ps ! mp_index ps then not_boundary cb ps m
          else let ps1 = (if mp_index ps < length (mp_boundary ps)
                          then (hold c MP_STATE_PART_DATA_BOUNDARY ps)\<lparr>mp_index := mp_index ps + 1\<rparr> else ps)
            in go (if mp_index ps1 = length (mp_boundary ps1) then ps1\<lparr>mp_lookbehind := [], mp_st := MP_STATE_PART_DATA_END\<rparr>
                   else ps1) (adv c m)
      | MP_STATE_PART_DATA_END \<Rightarrow>
          if c = DASH then go (set MP_STATE_BODY_END) (adv c m)
          else if c = CR
          then and_then (MP_CALLBACK cb On_Part_End ps)
                 (\<lambda>ps1. go (ps1\<lparr>mp_started := False, mp_st := MP_STATE_BOUNDARY_DONE\<rparr>) (adv c m))
          else if c = LF
          then and_then (MP_CALLBACK cb On_Part_End ps) (\<lambda>ps1. begin_part cb (ps1\<lparr>mp_started := False\<rparr>) (adv c m))
          else Inl (mp_fail (''expected CRLF or '' @ [CHR 0x27] @ ''--'' @ [CHR 0x27] @ '' after boundary'') ps)
      | MP_STATE_BODY_END \<Rightarrow>
          if c = DASH
          then and_then (if mp_started ps
                         then and_then (MP_CALLBACK cb On_Part_End ps) (\<lambda>ps1. Inr (ps1\<lparr>mp_started := False\<rparr>)) else Inr ps)
                 (\<lambda>ps1. and_then (MP_CALLBACK cb On_Body_End ps1) (\<lambda>ps2. go (ps2\<lparr>mp_st := MP_STATE_END\<rparr>) (adv c m)))
          else Inl (mp_fail (''expected '' @ [CHR 0x27] @ ''--'' @ [CHR 0x27] @ '' at end of body'') ps)
      | MP_STATE_END \<Rightarrow> go ps (adv c m)
      | MP_STATE_ERROR \<Rightarrow> Inl ps
      | _ \<Rightarrow> Inl (mp_fail ''unknown state'' ps))"

section \<open>The loop\<close>

fun mp_loop :: "mp_callbacks \<Rightarrow> nat \<Rightarrow> mp_parser \<Rightarrow> string option \<Rightarrow> string \<Rightarrow> (mp_parser + (mp_parser \<times> string option)) option" where
  "mp_loop cb n ps m [] = Some (Inr (ps, m))"
| "mp_loop cb 0 ps m (c # rest) = None"
| "mp_loop cb (Suc n) ps m (c # rest) =
     (case mp_step cb ps m c of
        Inl e \<Rightarrow> Some (Inl e)
      | Inr (moved, ps', m') \<Rightarrow> mp_loop cb n ps' m' (if moved then rest else c # rest))"

text \<open>The data left behind \<open>mark\<close> at the end of a chunk.\<close>

definition mp_flush :: "mp_callbacks \<Rightarrow> mp_parser \<Rightarrow> string option \<Rightarrow> mp_parser + mp_parser" where
  "mp_flush cb ps m =
     (if mp_st ps = MP_STATE_HEADER_FIELD then CALLBACK_DATA cb On_Header_Field (text_of m) ps
      else if mp_st ps = MP_STATE_HEADER_VALUE then CALLBACK_DATA cb On_Header_Value (text_of m) ps
      else if mp_st ps = MP_STATE_PART_DATA then CALLBACK_DATA cb On_Part_Data (text_of m) ps
      else Inr ps)"

definition execute_with :: "nat \<Rightarrow> mp_callbacks \<Rightarrow> mp_parser \<Rightarrow> string \<Rightarrow> (mp_parser \<times> int) option" where
  "execute_with fuel cb ps data =
     (if mp_st ps = MP_STATE_ERROR then Some (ps, - 1)
      else if mp_st ps = MP_STATE_END then Some (ps, 0)
      else case mp_loop cb fuel ps None data of
        None \<Rightarrow> None
      | Some (Inl e) \<Rightarrow> Some (e, - 1)
      | Some (Inr (ps', m)) \<Rightarrow> (case mp_flush cb ps' m of Inl e \<Rightarrow> Some (e, - 1) | Inr ps2 \<Rightarrow> Some (ps2, int (length data))))"

definition multipart_parser_execute :: "mp_callbacks \<Rightarrow> mp_parser \<Rightarrow> string \<Rightarrow> (mp_parser \<times> int) option" where
  "multipart_parser_execute cb ps data = execute_with (2 * length data) cb ps data"

section \<open>Fuel\<close>

lemmas mp_step_defs = mp_step_def begin_part_def not_boundary_def flush_lookbehind_def hold_def and_then_def
  CALLBACK_DATA_def MP_CALLBACK_def mp_fail_def Let_def

lemma mp_step_fail: "mp_step cb ps m c = Inl e \<Longrightarrow> mp_st e = MP_STATE_ERROR"
  by (cases "mp_st ps") (auto simp: mp_step_defs split: if_splits)

lemma mp_step_ok:
  assumes "mp_step cb ps m c = Inr (mv, ps', m')"
  shows "mp_st ps' \<noteq> MP_STATE_ERROR" "\<not> mv \<Longrightarrow> accumulates (mp_st ps')" "accumulates (mp_st ps) \<Longrightarrow> mv"
  using assms by (cases "mp_st ps"; auto simp: mp_step_defs accumulates_def split: if_splits)+

lemma mp_loop_enough:
  "2 * length s \<le> n + (if accumulates (mp_st ps) then 1 else 0) \<Longrightarrow> mp_loop cb n ps m s \<noteq> None"
proof (induction cb n ps m s rule: mp_loop.induct)
  case (3 cb n ps m c rest)
  show ?case
  proof (cases "mp_step cb ps m c")
    case (Inr x)
    obtain mv ps' m' where x: "x = (mv, ps', m')" by (metis prod_cases3)
    note ok = mp_step_ok [OF Inr [unfolded x]]
    show ?thesis using 3(1) [OF Inr x [symmetric] refl] 3(2) ok Inr x by (cases mv) (auto split: if_splits)
  qed simp
qed (auto split: if_splits)

lemma mp_loop_more: "mp_loop cb n ps m s = Some r \<Longrightarrow> mp_loop cb (n + k) ps m s = Some r"
  by (induction cb n ps m s rule: mp_loop.induct) (auto split: sum.splits)

lemma mp_loop_append:
  "mp_loop cb n ps m a = Some (Inr (ps1, m1)) \<Longrightarrow> mp_loop cb k ps1 m1 b = Some r \<Longrightarrow> mp_loop cb (n + k) ps m (a @ b) = Some r"
proof (induction cb n ps m a rule: mp_loop.induct)
  case (1 cb n ps m)
  then show ?case using mp_loop_more [of cb k ps m b r n] by (simp add: add.commute)
next
  case (3 cb n ps m c rest)
  show ?case using 3 by (auto split: sum.splits if_splits)
qed simp

lemma mp_loop_append_fail:
  "mp_loop cb n ps m a = Some (Inl e) \<Longrightarrow> mp_loop cb n ps m (a @ b) = Some (Inl e)"
proof (induction cb n ps m a rule: mp_loop.induct)
  case (3 cb n ps m c rest)
  show ?case using 3 by (auto split: sum.splits if_splits)
qed simp_all

lemma mp_loop_state:
  "mp_loop cb n ps m s = Some (Inr (ps', m')) \<Longrightarrow> mp_st ps \<noteq> MP_STATE_ERROR \<Longrightarrow> mp_st ps' \<noteq> MP_STATE_ERROR"
proof (induction cb n ps m s rule: mp_loop.induct)
  case (3 cb n ps m c rest)
  obtain mv ps1 m1 where s: "mp_step cb ps m c = Inr (mv, ps1, m1)" using 3(2) by (auto split: sum.splits)
  show ?case using 3(1) [OF s refl refl] 3(2) s mp_step_ok(1) [OF s] by simp
qed simp_all

lemma mp_loop_fail: "mp_loop cb n ps m s = Some (Inl e) \<Longrightarrow> mp_st e = MP_STATE_ERROR"
  by (induction cb n ps m s rule: mp_loop.induct) (auto split: sum.splits dest: mp_step_fail)

lemma mp_flush_state:
  "mp_flush cb ps m = Inl e \<Longrightarrow> mp_st e = MP_STATE_ERROR"
  "mp_flush cb ps m = Inr ps' \<Longrightarrow> mp_st ps' = mp_st ps"
  by (auto simp: mp_flush_def CALLBACK_DATA_def MP_CALLBACK_def mp_fail_def Let_def split: if_splits)

text \<open>C37. The parser always returns.  Whatever the state, the input and the callbacks, the
  loop that may process a byte twice ends within two iterations per byte: any fuel from twice
  the length on gives a result, always the same one.  The result is the number of bytes,
  all of them, or 0 once the body has ended, or \<open>-1\<close>, and \<open>-1\<close> exactly when the parser is
  in the error state.\<close>

theorem multipart_execute_returns:
  assumes "2 * length data \<le> fuel"
  shows "\<exists>ps' r. execute_with fuel cb ps data = Some (ps', r) \<and> multipart_parser_execute cb ps data = Some (ps', r) \<and>
    (r = - 1 \<longleftrightarrow> multipart_parser_has_error ps') \<and>
    (r = - 1 \<or> r = int (length data) \<or> r = 0 \<and> multipart_parser_is_complete ps)"
proof -
  obtain x where x: "mp_loop cb (2 * length data) ps None data = Some x"
    using mp_loop_enough [of data "2 * length data" ps cb None] by auto
  obtain k where "fuel = 2 * length data + k" using assms le_Suc_ex by blast
  then have y: "mp_loop cb fuel ps None data = Some x" using mp_loop_more [OF x] by simp
  show ?thesis
    unfolding multipart_parser_execute_def execute_with_def x y
    using mp_loop_state [of cb "2 * length data" ps None data] mp_loop_fail [of cb "2 * length data" ps None data] x mp_flush_state
    by (auto simp: multipart_parser_has_error_def multipart_parser_is_complete_def split: sum.split)
qed

theorem multipart_execute_returns_witness:
  "\<exists>ps ps' r. multipart_parser_create (Some ''b'') = Some ps \<and> multipart_parser_execute (\<lambda>_ _. True) ps ''--b'' = Some (ps', r)"
proof -
  obtain ps where ps: "multipart_parser_create (Some ''b'') = Some ps"
    by (simp add: multipart_parser_create_def multipart_parser_init_def c_string_def NUL_def MULTIPART_MAX_BOUNDARY_LEN_def)
  have "2 * length ''--b'' \<le> (6 :: nat)" by simp
  from multipart_execute_returns [OF this, of "\<lambda>_ _. True" ps] show ?thesis using ps by blast
qed

end
