(* ===== verification/Multipart_Chunks.thy ===== *)
theory Multipart_Chunks
  imports Multipart_Parser
begin

text \<open>
  The multipart parser does not depend on how the body is cut into chunks.  What the callbacks
  receive is compared byte by byte: a data callback may be split at a chunk border.
\<close>

section \<open>What the callbacks see\<close>

datatype mp_token = T_Begin | T_Field char | T_Value char | T_Complete | T_Data char | T_End | T_Body_End

fun tokens :: "mp_event \<Rightarrow> mp_token list" where
  "tokens On_Part_Begin = [T_Begin]"
| "tokens (On_Header_Field s) = map T_Field s"
| "tokens (On_Header_Value s) = map T_Value s"
| "tokens On_Headers_Complete = [T_Complete]"
| "tokens (On_Part_Data s) = map T_Data s"
| "tokens On_Part_End = [T_End]"
| "tokens On_Body_End = [T_Body_End]"

definition flat :: "mp_event list \<Rightarrow> mp_token list" where
  "flat es = concat (map tokens es)"

lemma flat_simps [simp]: "flat [] = []" "flat (a @ b) = flat a @ flat b" "flat (e # es) = tokens e @ flat es"
  by (simp_all add: flat_def)

abbreviation accept :: mp_callbacks where
  "accept \<equiv> \<lambda>_ _. True"

text \<open>The bytes behind \<open>mark\<close> that the state will deliver.\<close>

definition pending :: "mp_state \<Rightarrow> string option \<Rightarrow> mp_token list" where
  "pending s m = (if s = MP_STATE_HEADER_FIELD then map T_Field (text_of m)
     else if s = MP_STATE_HEADER_VALUE then map T_Value (text_of m)
     else if s = MP_STATE_PART_DATA then map T_Data (text_of m) else [])"

definition holding :: "mp_state \<Rightarrow> bool" where
  "holding s \<longleftrightarrow> s \<in> {MP_STATE_PART_DATA_CR, MP_STATE_PART_DATA_LF, MP_STATE_PART_DATA_BOUNDARY_START,
     MP_STATE_PART_DATA_BOUNDARY}"

text \<open>Two positions of the loop that differ only in where data callbacks were cut.\<close>

definition same_view :: "mp_parser \<Rightarrow> string option \<Rightarrow> mp_parser \<Rightarrow> string option \<Rightarrow> bool" where
  "same_view ps m ps' m' \<longleftrightarrow> ps' = ps\<lparr>mp_events := mp_events ps'\<rparr> \<and>
     flat (mp_events ps) @ pending (mp_st ps) m = flat (mp_events ps') @ pending (mp_st ps) m' \<and>
     (holding (mp_st ps) \<longrightarrow> m = None \<and> m' = None)"

definition same_outcome :: "mp_outcome \<Rightarrow> mp_outcome \<Rightarrow> bool" where
  "same_outcome x y = (case (x, y) of
     (Inl e, Inl e') \<Rightarrow> e' = e\<lparr>mp_events := mp_events e'\<rparr>
   | (Inr (mv, ps, m), Inr (mv', ps', m')) \<Rightarrow> mv = mv' \<and> same_view ps m ps' m'
   | _ \<Rightarrow> False)"

lemma text_of_simps [simp]: "text_of None = []" "text_of (Some t) = t" "text_of (adv c m) = (if m = None then [] else text_of m @ [c])"
  by (auto simp: text_of_def adv_def)

lemma adv_None [simp]: "adv c None = None" by (simp add: adv_def)

lemma same_view_step:
  assumes "same_view ps m ps' m'"
  shows "same_outcome (mp_step accept ps m c) (mp_step accept ps' m' c)"
proof -
  obtain E where ps': "ps' = ps\<lparr>mp_events := E\<rparr>" using assms by (auto simp: same_view_def)
  have f: "flat (mp_events ps) @ pending (mp_st ps) m = flat E @ pending (mp_st ps) m'"
    and h: "holding (mp_st ps) \<Longrightarrow> m = None \<and> m' = None"
    using assms by (auto simp: same_view_def ps')
  show ?thesis
    using f h unfolding ps'
    by (cases "mp_st ps")
       (auto simp: mp_step_defs same_outcome_def same_view_def pending_def holding_def accumulates_def split: option.splits)
qed

section \<open>Chunks\<close>

definition same_result :: "(mp_parser + (mp_parser \<times> string option)) option \<Rightarrow> (mp_parser + (mp_parser \<times> string option)) option \<Rightarrow> bool" where
  "same_result x y = (case (x, y) of
     (None, None) \<Rightarrow> True
   | (Some (Inl e), Some (Inl e')) \<Rightarrow> e' = e\<lparr>mp_events := mp_events e'\<rparr>
   | (Some (Inr (ps, m)), Some (Inr (ps', m'))) \<Rightarrow> same_view ps m ps' m'
   | _ \<Rightarrow> False)"

lemma same_view_loop:
  "same_view ps m ps' m' \<Longrightarrow> same_result (mp_loop accept n ps m s) (mp_loop accept n ps' m' s)"
proof (induction n arbitrary: ps m ps' m' s)
  case 0 then show ?case by (cases s) (simp_all add: same_result_def)
next
  case (Suc n)
  show ?case
  proof (cases s)
    case (Cons c rest)
    have "same_outcome (mp_step accept ps m c) (mp_step accept ps' m' c)" by (rule same_view_step [OF Suc.prems])
    then consider (fail) e e' where "mp_step accept ps m c = Inl e" "mp_step accept ps' m' c = Inl e'"
        "e' = e\<lparr>mp_events := mp_events e'\<rparr>"
      | (ok) mv p1 m1 p1' m1' where "mp_step accept ps m c = Inr (mv, p1, m1)" "mp_step accept ps' m' c = Inr (mv, p1', m1')"
        "same_view p1 m1 p1' m1'"
      by (cases "mp_step accept ps m c"; cases "mp_step accept ps' m' c") (auto simp: same_outcome_def)
    then show ?thesis by cases (use Suc.IH Cons in \<open>auto simp: same_result_def\<close>)
  qed (use Suc.prems in \<open>simp add: same_result_def\<close>)
qed

lemma same_view_start: "same_view ps None ps None"
  by (simp add: same_view_def)

lemma loop_position:
  assumes "mp_loop accept n ps None s = Some (Inr (ps1, m1))"
  shows "same_view ps1 m1 ps1 m1"
  using same_view_loop [OF same_view_start, of n ps s] assms by (simp add: same_result_def)

lemma flush_accept:
  assumes "same_view ps m ps m"
  shows "\<exists>ps2. mp_flush accept ps m = Inr ps2 \<and> same_view ps m ps2 None \<and> mp_st ps2 = mp_st ps \<and>
    ps2 = ps\<lparr>mp_events := mp_events ps2\<rparr> \<and> flat (mp_events ps2) = flat (mp_events ps) @ pending (mp_st ps) m"
  using assms by (auto simp: mp_flush_def same_view_def pending_def CALLBACK_DATA_def MP_CALLBACK_def Let_def)

lemma loop_at_end:
  "mp_st ps = MP_STATE_END \<Longrightarrow> length s \<le> n \<Longrightarrow> \<exists>m'. mp_loop cb n ps m s = Some (Inr (ps, m'))"
proof (induction s arbitrary: n m)
  case (Cons c s)
  then obtain k where "n = Suc k" by (cases n) auto
  then show ?case using Cons by (simp add: mp_step_def Let_def)
qed simp

text \<open>Parsers that differ only in where data callbacks were cut; on an error the part of a
  name or value read last may be missing.\<close>

definition alike :: "mp_parser \<Rightarrow> mp_parser \<Rightarrow> bool" where
  "alike p q \<longleftrightarrow> p = q\<lparr>mp_events := mp_events p\<rparr> \<and> (mp_st q \<noteq> MP_STATE_ERROR \<longrightarrow> flat (mp_events p) = flat (mp_events q))"

lemma alike_refl: "alike p p" by (simp add: alike_def)

lemma alike_trans: "alike p q \<Longrightarrow> alike q r \<Longrightarrow> alike p r"
  unfolding alike_def by (metis (no_types, lifting) mp_parser.select_convs(2) mp_parser.surjective mp_parser.update_convs(7))

lemma alike_observed:
  assumes "alike p q"
  shows "mp_st p = mp_st q" "mp_error p = mp_error q" "mp_st q \<noteq> MP_STATE_ERROR \<Longrightarrow> flat (mp_events p) = flat (mp_events q)"
proof -
  have "p = q\<lparr>mp_events := mp_events p\<rparr>" using assms unfolding alike_def by blast
  then obtain E where "p = q\<lparr>mp_events := E\<rparr>" by blast
  then show "mp_st p = mp_st q" "mp_error p = mp_error q" by simp_all
  show "mp_st q \<noteq> MP_STATE_ERROR \<Longrightarrow> flat (mp_events p) = flat (mp_events q)" using assms unfolding alike_def by blast
qed

lemma flush_alike:
  assumes "same_view q mq q' mq'"
  shows "\<exists>p p'. mp_flush accept q mq = Inr p \<and> mp_flush accept q' mq' = Inr p' \<and> alike p' p"
proof -
  have "q' = q\<lparr>mp_events := mp_events q'\<rparr>" using assms unfolding same_view_def by blast
  then obtain E where q': "q' = q\<lparr>mp_events := E\<rparr>" by blast
  have "flat (mp_events q) @ pending (mp_st q) mq = flat E @ pending (mp_st q) mq'"
    using assms unfolding same_view_def q' by simp
  then show ?thesis
    unfolding q' by (auto simp: mp_flush_def CALLBACK_DATA_def MP_CALLBACK_def pending_def alike_def Let_def)
qed

abbreviation exec :: "mp_parser \<Rightarrow> string \<Rightarrow> mp_parser" where
  "exec ps data \<equiv> fst (the (multipart_parser_execute accept ps data))"

lemma exec_loop:
  assumes "mp_st ps \<noteq> MP_STATE_ERROR" "mp_st ps \<noteq> MP_STATE_END" "mp_loop accept n ps None data = Some x"
  shows "exec ps data = (case x of Inl e \<Rightarrow> e | Inr (ps1, m1) \<Rightarrow> (case mp_flush accept ps1 m1 of Inl e \<Rightarrow> e | Inr q \<Rightarrow> q))"
proof -
  obtain y where y: "mp_loop accept (2 * length data) ps None data = Some y"
    using mp_loop_enough [of data "2 * length data" ps accept None] by auto
  have "y = x" using mp_loop_more [OF y, of n] mp_loop_more [OF assms(3), of "2 * length data"] by (simp add: add.commute)
  then show ?thesis using assms(1,2) y by (auto simp: multipart_parser_execute_def execute_with_def split: sum.split)
qed

lemma exec_done: "mp_st ps = MP_STATE_ERROR \<or> mp_st ps = MP_STATE_END \<Longrightarrow> exec ps data = ps"
  by (auto simp: multipart_parser_execute_def execute_with_def)

lemma exec_append: "alike (exec (exec ps a) b) (exec ps (a @ b))"
proof (cases "mp_st ps = MP_STATE_ERROR \<or> mp_st ps = MP_STATE_END")
  case True then show ?thesis by (simp only: exec_done alike_refl)
next
  case False
  then have ps: "mp_st ps \<noteq> MP_STATE_ERROR" "mp_st ps \<noteq> MP_STATE_END" by auto
  obtain x where x: "mp_loop accept (2 * length a) ps None a = Some x"
    using mp_loop_enough [of a "2 * length a" ps accept None] by auto
  show ?thesis
  proof (cases x)
    case (Inl e)
    have "exec ps a = e" using exec_loop [OF ps x] Inl by simp
    moreover have "exec ps (a @ b) = e" using exec_loop [OF ps mp_loop_append_fail [OF x [unfolded Inl]]] by simp
    moreover have "exec e b = e" using mp_loop_fail [OF x [unfolded Inl]] exec_done [of e b] by blast
    ultimately show ?thesis by (simp only: alike_refl)
  next
    case (Inr y)
    obtain ps1 m1 where y: "y = (ps1, m1)" by fastforce
    note x1 = x [unfolded Inr y]
    obtain ps2 where fl: "mp_flush accept ps1 m1 = Inr ps2" and v: "same_view ps1 m1 ps2 None" and st: "mp_st ps2 = mp_st ps1"
      using flush_accept [OF loop_position [OF x1]] by blast
    have e1: "exec ps a = ps2" using exec_loop [OF ps x1] fl by simp
    have ne: "mp_st ps2 \<noteq> MP_STATE_ERROR" using mp_loop_state [OF x1 ps(1)] st by simp
    obtain r where r: "mp_loop accept (2 * length b) ps1 m1 b = Some r"
      using mp_loop_enough [of b "2 * length b" ps1 accept m1] by auto
    note ab = exec_loop [OF ps mp_loop_append [OF x1 r]]
    show ?thesis
    proof (cases "mp_st ps2 = MP_STATE_END")
      case True
      then obtain m' where "r = Inr (ps1, m')" using loop_at_end [of ps1 b "2 * length b" accept m1] st r by auto
      moreover have "ps2 = ps1" using fl True st by (simp add: mp_flush_def)
      ultimately have "exec ps (a @ b) = ps2" using ab True by (simp add: mp_flush_def)
      moreover have "exec ps2 b = ps2" using exec_done True by blast
      ultimately show ?thesis by (simp only: e1 alike_refl)
    next
      case False
      obtain r' where r': "mp_loop accept (2 * length b) ps2 None b = Some r'"
        using mp_loop_enough [of b "2 * length b" ps2 accept None] by auto
      have rel: "same_result (Some r) (Some r')" using same_view_loop [OF v, of "2 * length b" b] r r' by simp
      note b' = exec_loop [OF ne False r']
      show ?thesis
      proof (cases r)
        case (Inl e)
        then obtain e' where "r' = Inl e'" "e' = e\<lparr>mp_events := mp_events e'\<rparr>" using rel by (auto simp: same_result_def split: sum.splits)
        moreover have "mp_st e = MP_STATE_ERROR" using mp_loop_fail r Inl by blast
        ultimately show ?thesis using ab b' e1 Inl by (simp add: alike_def)
      next
        case (Inr z)
        then obtain q mq q' mq' where q: "r = Inr (q, mq)" "r' = Inr (q', mq')" "same_view q mq q' mq'"
          using rel by (cases r') (auto simp: same_result_def)
        obtain p p' where p: "mp_flush accept q mq = Inr p" "mp_flush accept q' mq' = Inr p'" "alike p' p"
          using flush_alike [OF q(3)] by blast
        have "exec ps (a @ b) = p" "exec ps2 b = p'" using ab b' q p by simp_all
        then show ?thesis using p(3) by (simp only: e1)
      qed
    qed
  qed
qed

fun feed :: "mp_callbacks \<Rightarrow> mp_parser \<Rightarrow> string list \<Rightarrow> mp_parser option" where
  "feed cb ps [] = Some ps"
| "feed cb ps (d # ds) = (case multipart_parser_execute cb ps d of None \<Rightarrow> None | Some (ps', r) \<Rightarrow> feed cb ps' ds)"

lemma execute_some: "\<exists>r. multipart_parser_execute accept ps d = Some (exec ps d, r)"
  unfolding multipart_parser_execute_def execute_with_def
  using mp_loop_enough [of d "2 * length d" ps accept None] by (auto split: sum.split option.split)

lemma feed_alike: "\<exists>p. feed accept ps ds = Some p \<and> alike p (exec ps (concat ds))"
proof (induction ds arbitrary: ps)
  case Nil
  have "alike ps (exec ps [])"
  proof (cases "mp_st ps = MP_STATE_ERROR \<or> mp_st ps = MP_STATE_END")
    case True then show ?thesis by (simp only: exec_done alike_refl)
  next
    case False
    then show ?thesis
      by (simp add: multipart_parser_execute_def execute_with_def alike_def mp_flush_def CALLBACK_DATA_def)
  qed
  then show ?case by simp
next
  case (Cons d ds)
  define p1 where "p1 = exec ps d"
  obtain r where e: "multipart_parser_execute accept ps d = Some (p1, r)" using execute_some p1_def by blast
  obtain p where p: "feed accept p1 ds = Some p" "alike p (exec p1 (concat ds))" using Cons.IH by blast
  have "alike p (exec ps (d @ concat ds))" by (rule alike_trans [OF p(2) exec_append [of ps d, folded p1_def]])
  moreover have "feed accept ps (d # ds) = Some p" using p(1) by (simp add: e)
  ultimately show ?case unfolding concat.simps by blast
qed

text \<open>
  C36. Cutting the body into chunks changes nothing: from any parser state, feeding the chunks
  one after the other and feeding them in one piece end in the same state, with the same
  error if any; and without an error the callbacks received the same bytes in the same
  order, for names, values and part data alike.
\<close>

theorem multipart_chunks_irrelevant:
  shows "\<exists>p q r. feed (\<lambda>_ _. True) ps chunks = Some p \<and>
    multipart_parser_execute (\<lambda>_ _. True) ps (concat chunks) = Some (q, r) \<and>
    p = q\<lparr>mp_events := mp_events p\<rparr> \<and> multipart_parser_get_error p = multipart_parser_get_error q \<and>
    (multipart_parser_has_error q \<or> flat (mp_events p) = flat (mp_events q))"
proof -
  obtain p where p: "feed accept ps chunks = Some p" "alike p (exec ps (concat chunks))" using feed_alike by blast
  obtain r where q: "multipart_parser_execute accept ps (concat chunks) = Some (exec ps (concat chunks), r)"
    using execute_some by blast
  define q' where "q' = exec ps (concat chunks)"
  have a: "alike p q'" using p(2) by (simp add: q'_def)
  then obtain E where E: "p = q'\<lparr>mp_events := E\<rparr>" by (auto simp: alike_def)
  have "p = q'\<lparr>mp_events := mp_events p\<rparr> \<and> multipart_parser_get_error p = multipart_parser_get_error q' \<and>
    (multipart_parser_has_error q' \<or> flat (mp_events p) = flat (mp_events q'))"
    using a by (auto simp: E alike_def multipart_parser_get_error_def multipart_parser_has_error_def)
  then show ?thesis using p(1) q [folded q'_def] by blast
qed

end
