(* ===== verification/Multipart_Roundtrip.thy ===== *)
theory Multipart_Roundtrip
  imports Multipart_Chunks
begin

text \<open>
  Parsing what an encoder wrote: the callbacks receive the headers and the data of every part
  of a \<open>multipart/form-data\<close> body.  The work is in the data of a part, where the delimiter is
  matched with a look-behind buffer and a mismatch gives the held bytes back.
\<close>

section \<open>Runs\<close>

definition reaches :: "mp_parser \<Rightarrow> string option \<Rightarrow> string \<Rightarrow> mp_parser \<Rightarrow> string option \<Rightarrow> bool" where
  "reaches ps m s ps' m' \<longleftrightarrow> (\<exists>n. mp_loop accept n ps m s = Some (Inr (ps', m')))"

lemma reaches_Nil: "reaches ps m [] ps m"
  by (simp add: reaches_def)

lemma reaches_step: "mp_step accept ps m c = Inr (True, ps', m') \<Longrightarrow> reaches ps m [c] ps' m'"
  unfolding reaches_def by (rule exI [of _ 1]) simp

lemma reaches_again:
  "mp_step accept ps m c = Inr (False, ps1, m1) \<Longrightarrow> reaches ps1 m1 [c] ps' m' \<Longrightarrow> reaches ps m [c] ps' m'"
  unfolding reaches_def by (elim exE, rule exI [of _ "Suc _"]) simp

lemma reaches_append: "reaches ps m a ps1 m1 \<Longrightarrow> reaches ps1 m1 b ps2 m2 \<Longrightarrow> reaches ps m (a @ b) ps2 m2"
  unfolding reaches_def using mp_loop_append by blast

text \<open>A position: state, held bytes, bytes matched, whether a part is open, and everything the
  callbacks have received or will receive from behind \<open>mark\<close>.\<close>

definition pos :: "string \<Rightarrow> mp_state \<Rightarrow> string \<Rightarrow> nat \<Rightarrow> bool \<Rightarrow> mp_token list \<Rightarrow> mp_parser \<Rightarrow> string option \<Rightarrow> bool" where
  "pos B s lb i st T ps m \<longleftrightarrow> mp_boundary ps = B \<and> mp_st ps = s \<and> mp_lookbehind ps = lb \<and>
     (s = MP_STATE_BOUNDARY \<or> s = MP_STATE_PART_DATA_BOUNDARY \<longrightarrow> mp_index ps = i) \<and>
     mp_started ps = st \<and> mp_error ps = None \<and> flat (mp_events ps) @ pending s m = T \<and> (holding s \<longrightarrow> m = None)"

definition leads :: "string \<Rightarrow> mp_state \<Rightarrow> string \<Rightarrow> nat \<Rightarrow> bool \<Rightarrow> mp_token list \<Rightarrow> string \<Rightarrow> mp_state \<Rightarrow> string \<Rightarrow> nat \<Rightarrow> bool \<Rightarrow> mp_token list \<Rightarrow> bool" where
  "leads B s lb i st T inp s' lb' i' st' T' \<longleftrightarrow>
     (\<forall>ps m. pos B s lb i st T ps m \<longrightarrow> (\<exists>ps' m'. reaches ps m inp ps' m' \<and> pos B s' lb' i' st' T' ps' m'))"

lemma leads_append:
  "leads B s lb i st T a s1 lb1 i1 st1 T1 \<Longrightarrow> leads B s1 lb1 i1 st1 T1 b s2 lb2 i2 st2 T2 \<Longrightarrow>
   leads B s lb i st T (a @ b) s2 lb2 i2 st2 T2"
  unfolding leads_def using reaches_append by blast

lemma leads_Cons:
  "leads B s lb i st T [c] s1 lb1 i1 st1 T1 \<Longrightarrow> leads B s1 lb1 i1 st1 T1 b s2 lb2 i2 st2 T2 \<Longrightarrow>
   leads B s lb i st T (c # b) s2 lb2 i2 st2 T2"
  using leads_append [of B s lb i st T "[c]"] by simp

lemma leads_Nil: "leads B s lb i st T [] s lb i st T"
  unfolding leads_def using reaches_Nil by blast

lemma leads_step:
  assumes "\<And>ps m. pos B s lb i st T ps m \<Longrightarrow> \<exists>ps' m'. mp_step accept ps m c = Inr (True, ps', m') \<and> pos B s' lb' i' st' T' ps' m'"
  shows "leads B s lb i st T [c] s' lb' i' st' T'"
  unfolding leads_def using assms reaches_step by blast

lemma leads_again:
  assumes "\<And>ps m. pos B s lb i st T ps m \<Longrightarrow> \<exists>ps' m'. mp_step accept ps m c = Inr (False, ps', m') \<and> pos B s1 lb1 i1 st1 T1 ps' m'"
    and "leads B s1 lb1 i1 st1 T1 [c] s' lb' i' st' T'"
  shows "leads B s lb i st T [c] s' lb' i' st' T'"
  unfolding leads_def using assms(1) assms(2) [unfolded leads_def] reaches_again by meson

lemmas pos_step_defs = pos_def mp_step_defs pending_def holding_def accumulates_def

section \<open>Delimiters and headers\<close>

lemma leads_dashes:
  "leads B MP_STATE_START [] i st T ''--'' MP_STATE_BOUNDARY [] 0 st T"
proof -
  have "leads B MP_STATE_START [] i st T [DASH] MP_STATE_BOUNDARY_START [] 0 st T"
    by (rule leads_step) (auto simp: pos_step_defs)
  moreover have "leads B MP_STATE_BOUNDARY_START [] 0 st T [DASH] MP_STATE_BOUNDARY [] 0 st T"
    by (rule leads_step) (auto simp: pos_step_defs)
  ultimately show ?thesis using leads_append by fastforce
qed

lemma leads_boundary_byte:
  assumes "k < length B"
  shows "leads B MP_STATE_BOUNDARY [] k st T [B ! k]
    (if Suc k = length B then MP_STATE_BOUNDARY_ALMOST_DONE else MP_STATE_BOUNDARY) [] (Suc k) st T"
  using assms by (intro leads_step) (auto simp: pos_step_defs)

lemma leads_boundary:
  assumes "k < length B"
  shows "leads B MP_STATE_BOUNDARY [] k st T (drop k B) MP_STATE_BOUNDARY_ALMOST_DONE [] (length B) st T"
  using assms
proof (induction "length B - k" arbitrary: k)
  case (Suc n)
  have d: "drop k B = B ! k # drop (Suc k) B" using Suc.prems by (simp add: Cons_nth_drop_Suc)
  show ?case
  proof (cases "Suc k = length B")
    case True
    then show ?thesis using leads_boundary_byte [OF Suc.prems, of st T] d by simp
  next
    case False
    then show ?thesis
      using leads_Cons leads_boundary_byte [OF Suc.prems, of st T] Suc.hyps(1) [of "Suc k"] Suc d by simp
  qed
qed simp

lemma leads_begin:
  "leads B MP_STATE_BOUNDARY_ALMOST_DONE [] i st T [CR, LF] MP_STATE_HEADER_FIELD_START [] 0 True (T @ [T_Begin])"
proof -
  have "leads B MP_STATE_BOUNDARY_ALMOST_DONE [] i st T [CR] MP_STATE_BOUNDARY_DONE [] 0 st T"
    by (rule leads_step) (auto simp: pos_step_defs)
  moreover have "leads B MP_STATE_BOUNDARY_DONE [] 0 st T [LF] MP_STATE_HEADER_FIELD_START [] 0 True (T @ [T_Begin])"
    by (rule leads_step) (auto simp: pos_step_defs)
  ultimately show ?thesis using leads_append by fastforce
qed

lemma leads_bytes:
  assumes "\<And>c T. c \<in> set v \<Longrightarrow> leads B s [] 0 st T [c] s [] 0 st (T @ [K c])"
  shows "leads B s [] 0 st T v s [] 0 st (T @ map K v)"
  using assms
proof (induction v arbitrary: T)
  case (Cons c v)
  have "leads B s [] 0 st (T @ [K c]) v s [] 0 st ((T @ [K c]) @ map K v)" by (rule Cons.IH) (use Cons.prems in simp)
  moreover have "leads B s [] 0 st T [c] s [] 0 st (T @ [K c])" using Cons.prems by simp
  ultimately show ?case using leads_Cons by fastforce
qed (simp add: leads_Nil)

definition clean_name :: "string \<Rightarrow> bool" where
  "clean_name n \<longleftrightarrow> n \<noteq> [] \<and> (\<forall>c\<in>set n. c \<noteq> CHR '':'' \<and> c \<noteq> CR \<and> c \<noteq> LF)"

definition clean_value :: "string \<Rightarrow> bool" where
  "clean_value v \<longleftrightarrow> (\<forall>c\<in>set v. c \<noteq> CR \<and> c \<noteq> LF) \<and> (v = [] \<or> hd v \<noteq> CHR '' '' \<and> hd v \<noteq> CHR 0x09)"

definition header_line :: "string \<times> string \<Rightarrow> string" where
  "header_line h = fst h @ '': '' @ snd h @ [CR, LF]"

definition header_tokens :: "string \<times> string \<Rightarrow> mp_token list" where
  "header_tokens h = map T_Field (fst h) @ map T_Value (snd h)"

lemma leads_name:
  assumes "clean_name n"
  shows "leads B MP_STATE_HEADER_FIELD_START [] 0 st T (n @ '': '') MP_STATE_HEADER_VALUE_START [] 0 st (T @ map T_Field n)"
proof -
  obtain c n' where n: "n = c # n'" "c \<noteq> CR" "c \<noteq> LF" "\<And>d. d \<in> set n' \<Longrightarrow> d \<noteq> CHR '':'' \<and> d \<noteq> CR \<and> d \<noteq> LF"
    using assms by (cases n) (auto simp: clean_name_def)
  have 1: "leads B MP_STATE_HEADER_FIELD_START [] 0 st T [c] MP_STATE_HEADER_FIELD [] 0 st (T @ [T_Field c])"
    using n by (intro leads_step) (auto simp: pos_step_defs)
  have 2: "leads B MP_STATE_HEADER_FIELD [] 0 st (T @ [T_Field c]) n' MP_STATE_HEADER_FIELD [] 0 st ((T @ [T_Field c]) @ map T_Field n')"
    by (rule leads_bytes, rule leads_step) (auto simp: pos_step_defs dest: n(4))
  have 3: "leads B MP_STATE_HEADER_FIELD [] 0 st T' [CHR '':''] MP_STATE_HEADER_VALUE_START [] 0 st T'" for T'
    by (rule leads_step) (auto simp: pos_step_defs)
  have 4: "leads B MP_STATE_HEADER_VALUE_START [] 0 st T' [CHR '' ''] MP_STATE_HEADER_VALUE_START [] 0 st T'" for T'
    by (rule leads_step) (auto simp: pos_step_defs)
  show ?thesis using leads_Cons [OF 1 leads_append [OF 2 leads_Cons [OF 3 4]]] n(1) by simp
qed

lemma leads_value:
  assumes "clean_value v"
  shows "leads B MP_STATE_HEADER_VALUE_START [] 0 st T (v @ [CR, LF]) MP_STATE_HEADER_FIELD_START [] 0 st (T @ map T_Value v)"
proof -
  have a: "leads B MP_STATE_HEADER_VALUE_START [] 0 st T [c] s' [] 0 st T'"
    if "c \<noteq> CHR '' ''" "c \<noteq> CHR 0x09" "leads B MP_STATE_HEADER_VALUE [] 0 st T [c] s' [] 0 st T'" for c s' T'
    by (rule leads_again [OF _ that(3)]) (use that(1,2) in \<open>auto simp: pos_step_defs\<close>)
  have b: "leads B MP_STATE_HEADER_VALUE [] 0 st T' [c] MP_STATE_HEADER_VALUE [] 0 st (T' @ [T_Value c])" if "c \<noteq> CR" "c \<noteq> LF" for c T'
    using that by (intro leads_step) (auto simp: pos_step_defs)
  have e: "leads B MP_STATE_HEADER_VALUE [] 0 st T' [CR] MP_STATE_HEADER_VALUE_ALMOST_DONE [] 0 st T'" for T'
    by (rule leads_step) (auto simp: pos_step_defs)
  have f: "leads B MP_STATE_HEADER_VALUE_ALMOST_DONE [] 0 st T' [LF] MP_STATE_HEADER_FIELD_START [] 0 st T'" for T'
    by (rule leads_step) (auto simp: pos_step_defs)
  show ?thesis
  proof (cases v)
    case Nil
    then show ?thesis using leads_Cons [OF a [OF _ _ e] f] by simp
  next
    case (Cons c v')
    have c: "c \<noteq> CR" "c \<noteq> LF" "c \<noteq> CHR '' ''" "c \<noteq> CHR 0x09" "\<And>d. d \<in> set v' \<Longrightarrow> d \<noteq> CR \<and> d \<noteq> LF"
      using assms Cons by (auto simp: clean_value_def)
    have "leads B MP_STATE_HEADER_VALUE [] 0 st (T @ [T_Value c]) v' MP_STATE_HEADER_VALUE [] 0 st ((T @ [T_Value c]) @ map T_Value v')"
      by (rule leads_bytes, rule b) (use c(5) in auto)
    then show ?thesis
      using leads_Cons [OF a [OF c(3,4) b [OF c(1,2)]] leads_append [OF _ leads_Cons [OF e f]]] Cons by simp
  qed
qed

lemma leads_headers:
  assumes "\<forall>(n, v)\<in>set hs. clean_name n \<and> clean_value v"
  shows "leads B MP_STATE_HEADER_FIELD_START [] 0 st T (concat (map header_line hs)) MP_STATE_HEADER_FIELD_START [] 0 st
    (T @ concat (map header_tokens hs))"
  using assms
proof (induction hs arbitrary: T)
  case (Cons h hs)
  obtain n v where h: "h = (n, v)" by fastforce
  have nv: "clean_name n" "clean_value v" using Cons.prems by (auto simp: h)
  have "leads B MP_STATE_HEADER_FIELD_START [] 0 st T (header_line h) MP_STATE_HEADER_FIELD_START [] 0 st (T @ header_tokens h)"
    using leads_append [OF leads_name [OF nv(1)] leads_value [OF nv(2)], of B st T] by (simp add: h header_line_def header_tokens_def)
  moreover have "leads B MP_STATE_HEADER_FIELD_START [] 0 st (T @ header_tokens h) (concat (map header_line hs))
      MP_STATE_HEADER_FIELD_START [] 0 st ((T @ header_tokens h) @ concat (map header_tokens hs))"
    by (rule Cons.IH) (use Cons.prems in simp)
  ultimately show ?case using leads_append by fastforce
qed (simp add: leads_Nil)

lemma leads_blank:
  "leads B MP_STATE_HEADER_FIELD_START [] 0 st T [CR, LF] MP_STATE_PART_DATA [] 0 st (T @ [T_Complete])"
proof -
  have "leads B MP_STATE_HEADER_FIELD_START [] 0 st T [CR] MP_STATE_HEADERS_ALMOST_DONE [] 0 st T"
    by (rule leads_step) (auto simp: pos_step_defs)
  moreover have "leads B MP_STATE_HEADERS_ALMOST_DONE [] 0 st T [LF] MP_STATE_PART_DATA [] 0 st (T @ [T_Complete])"
    by (rule leads_step) (auto simp: pos_step_defs)
  ultimately show ?thesis using leads_append by fastforce
qed

section \<open>Part data\<close>

text \<open>The bytes held back in a state, with or without the CR.\<close>

definition line_ends :: "string set" where
  "line_ends = {[LF], [CR, LF]}"

definition held :: "string \<Rightarrow> mp_state \<Rightarrow> string \<Rightarrow> nat \<Rightarrow> bool" where
  "held B s lb i \<longleftrightarrow>
     s = MP_STATE_PART_DATA \<and> lb = [] \<or> s = MP_STATE_PART_DATA_CR \<and> lb = [CR] \<or>
     s = MP_STATE_PART_DATA_LF \<and> lb \<in> line_ends \<or>
     s = MP_STATE_PART_DATA_BOUNDARY_START \<and> (\<exists>x\<in>line_ends. lb = x @ [DASH]) \<or>
     s = MP_STATE_PART_DATA_BOUNDARY \<and> i < length B \<and> (\<exists>x\<in>line_ends. lb = x @ ''--'' @ take i B)"

lemma data_plain:
  "leads B MP_STATE_PART_DATA [] i st T [CR] MP_STATE_PART_DATA_CR [CR] 0 st T"
  "leads B MP_STATE_PART_DATA [] i st T [LF] MP_STATE_PART_DATA_LF [LF] 0 st T"
  "c \<noteq> CR \<Longrightarrow> c \<noteq> LF \<Longrightarrow> leads B MP_STATE_PART_DATA [] i st T [c] MP_STATE_PART_DATA [] 0 st (T @ [T_Data c])"
  by (rule leads_step; auto simp: pos_step_defs)+

definition mismatch :: "string \<Rightarrow> mp_state \<Rightarrow> nat \<Rightarrow> char \<Rightarrow> bool" where
  "mismatch B s i c \<longleftrightarrow> s = MP_STATE_PART_DATA_CR \<and> c \<noteq> LF \<or> s = MP_STATE_PART_DATA_LF \<and> c \<noteq> DASH \<or>
     s = MP_STATE_PART_DATA_BOUNDARY_START \<and> c \<noteq> DASH \<or> s = MP_STATE_PART_DATA_BOUNDARY \<and> i < length B \<and> c \<noteq> B ! i"

lemma data_give_back_step:
  assumes "mismatch B s i c" "lb \<noteq> []" "pos B s lb i st T ps m"
  shows "\<exists>ps' m'. mp_step accept ps m c = Inr (False, ps', m') \<and> pos B MP_STATE_PART_DATA [] 0 st (T @ map T_Data lb) ps' m'"
proof -
  have m: "m = None" using assms by (auto simp: mismatch_def pos_def holding_def)
  show ?thesis
    using assms unfolding m mismatch_def by (elim disjE conjE) (simp_all add: pos_step_defs)
qed

lemma data_give_back:
  assumes "mismatch B s i c" "lb \<noteq> []"
    and "leads B MP_STATE_PART_DATA [] 0 st (T @ map T_Data lb) [c] s' lb' i' st T'"
  shows "leads B s lb i st T [c] s' lb' i' st T'"
  by (rule leads_again [OF data_give_back_step [OF assms(1,2)] assms(3)])

lemma data_hold:
  "leads B MP_STATE_PART_DATA_CR [CR] i st T [LF] MP_STATE_PART_DATA_LF [CR, LF] 0 st T"
  "leads B MP_STATE_PART_DATA_LF lb i st T [DASH] MP_STATE_PART_DATA_BOUNDARY_START (lb @ [DASH]) 0 st T"
  "leads B MP_STATE_PART_DATA_BOUNDARY_START lb i st T [DASH] MP_STATE_PART_DATA_BOUNDARY (lb @ [DASH]) 0 st T"
  "i < length B \<Longrightarrow> Suc i \<noteq> length B \<Longrightarrow>
     leads B MP_STATE_PART_DATA_BOUNDARY lb i st T [B ! i] MP_STATE_PART_DATA_BOUNDARY (lb @ [B ! i]) (Suc i) st T"
  "i < length B \<Longrightarrow> Suc i = length B \<Longrightarrow>
     leads B MP_STATE_PART_DATA_BOUNDARY lb i st T [B ! i] MP_STATE_PART_DATA_END [] 0 st T"
  by (rule leads_step; auto simp: pos_step_defs)+

text \<open>After one more byte that does not complete a delimiter, every byte is delivered or held.\<close>

lemma data_byte:
  assumes "held B s lb i" "\<forall>x\<in>line_ends. lb @ [c] \<noteq> x @ ''--'' @ B" and B: "B \<noteq> []"
  shows "\<exists>s' lb' i' T' d. leads B s lb i st T [c] s' lb' i' st T' \<and> held B s' lb' i' \<and>
    T' = T @ map T_Data d \<and> lb @ [c] = d @ lb'"
proof -
  have plain: "\<exists>s' lb' d. leads B MP_STATE_PART_DATA [] 0 st T1 [c] s' lb' 0 st (T1 @ map T_Data d) \<and> held B s' lb' 0 \<and> [c] = d @ lb'" for T1
  proof -
    consider "c = CR" | "c = LF" | "c \<noteq> CR" "c \<noteq> LF" by blast
    then show ?thesis
    proof cases
      case 1 then show ?thesis
        using data_plain(1) [of B 0 st T1] by (intro exI [of _ MP_STATE_PART_DATA_CR] exI [of _ "[CR]"] exI [of _ "[]"]) (simp add: held_def)
    next
      case 2 then show ?thesis
        using data_plain(2) [of B 0 st T1] by (intro exI [of _ MP_STATE_PART_DATA_LF] exI [of _ "[LF]"] exI [of _ "[]"]) (simp add: held_def line_ends_def)
    next
      case 3 then show ?thesis
        using data_plain(3) [of c B 0 st T1] by (intro exI [of _ MP_STATE_PART_DATA] exI [of _ "[]"] exI [of _ "[c]"]) (simp add: held_def)
    qed
  qed
  have return: ?thesis if "mismatch B s i c" "lb \<noteq> []"
  proof -
    obtain s' lb' d where p: "leads B MP_STATE_PART_DATA [] 0 st (T @ map T_Data lb) [c] s' lb' 0 st ((T @ map T_Data lb) @ map T_Data d)"
        "held B s' lb' 0" "[c] = d @ lb'" using plain by blast
    show ?thesis
      using data_give_back [OF that p(1)] p(2,3)
      by (intro exI [of _ s'] exI [of _ lb'] exI [of _ 0] exI [of _ "(T @ map T_Data lb) @ map T_Data d"] exI [of _ "lb @ d"]) simp
  qed
  have hold: ?thesis if "leads B s lb i st T [c] s' (lb @ [c]) i' st T" "held B s' (lb @ [c]) i'" for s' i'
    using that by (intro exI [of _ s'] exI [of _ "lb @ [c]"] exI [of _ i'] exI [of _ T] exI [of _ "[]"]) simp
  consider "s = MP_STATE_PART_DATA" "lb = []" | "s = MP_STATE_PART_DATA_CR" "lb = [CR]" | "s = MP_STATE_PART_DATA_LF" "lb \<in> line_ends"
    | x where "s = MP_STATE_PART_DATA_BOUNDARY_START" "x \<in> line_ends" "lb = x @ [DASH]"
    | x where "s = MP_STATE_PART_DATA_BOUNDARY" "i < length B" "x \<in> line_ends" "lb = x @ ''--'' @ take i B"
    using assms(1) by (auto simp: held_def)
  then show ?thesis
  proof cases
    case 1
    have "leads B MP_STATE_PART_DATA [] i st T [c] s' lb' i' st T' = leads B MP_STATE_PART_DATA [] 0 st T [c] s' lb' i' st T'" for s' lb' i' T'
      by (simp add: leads_def pos_def)
    moreover obtain s' lb' d where "leads B MP_STATE_PART_DATA [] 0 st T [c] s' lb' 0 st (T @ map T_Data d)" "held B s' lb' 0" "[c] = d @ lb'"
      using plain by blast
    ultimately show ?thesis using 1
      by (intro exI [of _ s'] exI [of _ lb'] exI [of _ 0] exI [of _ "T @ map T_Data d"] exI [of _ d]) simp
  next
    case 2
    show ?thesis
    proof (cases "c = LF")
      case True
      show ?thesis by (rule hold [of MP_STATE_PART_DATA_LF 0]) (use 2 True data_hold(1) [of B i st T] in \<open>simp_all add: held_def line_ends_def\<close>)
    qed (rule return; use 2 in \<open>auto simp: mismatch_def\<close>)
  next
    case 3
    show ?thesis
    proof (cases "c = DASH")
      case True
      show ?thesis by (rule hold [of MP_STATE_PART_DATA_BOUNDARY_START 0]) (use 3 True data_hold(2) [of B lb i st T] in \<open>auto simp: held_def\<close>)
    qed (rule return; use 3 in \<open>auto simp: mismatch_def line_ends_def\<close>)
  next
    case (4 x)
    show ?thesis
    proof (cases "c = DASH")
      case True
      have "held B MP_STATE_PART_DATA_BOUNDARY (lb @ [c]) 0" using 4 True B by (auto simp: held_def)
      then show ?thesis using hold [of MP_STATE_PART_DATA_BOUNDARY 0] data_hold(3) [of B lb i st T] 4 True by simp
    qed (rule return; use 4 in \<open>auto simp: mismatch_def\<close>)
  next
    case (5 x)
    show ?thesis
    proof (cases "c = B ! i")
      case True
      have e: "lb @ [c] = x @ ''--'' @ take (Suc i) B" using 5 True by (simp add: take_Suc_conv_app_nth)
      then have n: "Suc i \<noteq> length B" using assms(2) 5(3) by auto
      then have "held B MP_STATE_PART_DATA_BOUNDARY (lb @ [c]) (Suc i)" unfolding e using 5 by (auto simp: held_def)
      then show ?thesis using hold [of MP_STATE_PART_DATA_BOUNDARY "Suc i"] data_hold(4) [of i B lb st T] 5 True n by simp
    qed (rule return; use 5 in \<open>auto simp: mismatch_def\<close>)
  qed
qed

lemma data_bytes:
  assumes "B \<noteq> []" "held B s lb i" "\<forall>u v. lb @ d \<noteq> u @ [LF] @ ''--'' @ B @ v"
  shows "\<exists>s' lb' i' e. leads B s lb i st T d s' lb' i' st (T @ map T_Data e) \<and> held B s' lb' i' \<and> lb @ d = e @ lb'"
  using assms(2,3)
proof (induction d arbitrary: s lb i T)
  case Nil
  then show ?case using leads_Nil by (intro exI [of _ s] exI [of _ lb] exI [of _ i] exI [of _ "[]"]) simp
next
  case (Cons c d)
  have "lb @ [c] \<noteq> x @ ''--'' @ B" if "x \<in> line_ends" for x
  proof
    assume "lb @ [c] = x @ ''--'' @ B"
    then have "lb @ c # d = x @ ''--'' @ B @ d" by (metis append.assoc append_Cons append_Nil)
    moreover have "\<exists>u. x = u @ [LF]" using that by (auto simp: line_ends_def)
    ultimately show False using Cons.prems(2) by (metis append.assoc)
  qed
  then obtain s1 lb1 i1 e1 where 1: "leads B s lb i st T [c] s1 lb1 i1 st (T @ map T_Data e1)" "held B s1 lb1 i1" "lb @ [c] = e1 @ lb1"
    using data_byte [OF Cons.prems(1) _ assms(1), of c st T] by blast
  have l: "lb @ c # d = e1 @ lb1 @ d" using 1(3) by (metis append.assoc append_Cons append_Nil)
  have "\<forall>u v. lb1 @ d \<noteq> u @ [LF] @ ''--'' @ B @ v" using Cons.prems(2) unfolding l by (metis append.assoc)
  then obtain s' lb' i' e where 2: "leads B s1 lb1 i1 st (T @ map T_Data e1) d s' lb' i' st ((T @ map T_Data e1) @ map T_Data e)"
      "held B s' lb' i'" "lb1 @ d = e @ lb'"
    using Cons.IH [OF 1(2)] by blast
  have "lb @ c # d = (e1 @ e) @ lb'" using l 2(3) by simp
  then show ?case
    using leads_Cons [OF 1(1) 2(1)] 2(2)
    by (intro exI [of _ s'] exI [of _ lb'] exI [of _ i'] exI [of _ "e1 @ e"]) simp
qed

text \<open>A CR is never part of a delimiter under way, so it gives back what is held.\<close>

lemma data_cr:
  assumes "held B s lb i" "CR \<notin> set B"
  shows "leads B s lb i st T [CR] MP_STATE_PART_DATA_CR [CR] 0 st (T @ map T_Data lb)"
proof (cases "s = MP_STATE_PART_DATA")
  case True
  then show ?thesis using data_plain(1) [of B i st T] assms(1) by (simp add: held_def)
next
  case False
  have "mismatch B s i CR" "lb \<noteq> []"
    using assms False by (auto simp: held_def mismatch_def line_ends_def)
  then show ?thesis by (rule data_give_back) (rule data_plain(1))
qed

lemma data_delimiter:
  assumes "B \<noteq> []"
  shows "leads B MP_STATE_PART_DATA_CR [CR] 0 st T ([LF] @ ''--'' @ B) MP_STATE_PART_DATA_END [] 0 st T"
proof -
  have b: "leads B MP_STATE_PART_DATA_BOUNDARY lb k st T (drop k B) MP_STATE_PART_DATA_END [] 0 st T" if "k < length B" for k lb
    using that
  proof (induction "length B - k" arbitrary: k lb)
    case (Suc n)
    have d: "drop k B = B ! k # drop (Suc k) B" using Suc.prems by (simp add: Cons_nth_drop_Suc)
    show ?case
    proof (cases "Suc k = length B")
      case True then show ?thesis using data_hold(5) [OF Suc.prems] d by simp
    next
      case False
      then show ?thesis using leads_Cons [OF data_hold(4) [OF Suc.prems]] Suc.hyps d Suc.prems by simp
    qed
  qed simp
  have "leads B MP_STATE_PART_DATA_CR [CR] 0 st T [LF, DASH, DASH] MP_STATE_PART_DATA_BOUNDARY ([CR, LF, DASH] @ [DASH]) 0 st T"
    using leads_Cons [OF data_hold(1) leads_Cons [OF data_hold(2) data_hold(3)], of B 0 st T] by simp
  then show ?thesis using leads_append b [of 0] assms by fastforce
qed

lemma leads_data:
  assumes "B \<noteq> []" "CR \<notin> set B" "\<not> sublist ([LF] @ ''--'' @ B) d"
  shows "leads B MP_STATE_PART_DATA [] 0 st T (d @ [CR, LF] @ ''--'' @ B) MP_STATE_PART_DATA_END [] 0 st (T @ map T_Data d)"
proof -
  have "\<forall>u v. [] @ d \<noteq> u @ [LF] @ ''--'' @ B @ v" using assms(3) by (auto simp: sublist_def)
  then obtain s' lb' i' e where 1: "leads B MP_STATE_PART_DATA [] 0 st T d s' lb' i' st (T @ map T_Data e)"
      "held B s' lb' i'" "d = e @ lb'"
    using data_bytes [OF assms(1), of MP_STATE_PART_DATA "[]" 0 d st T] by (auto simp: held_def)
  have "leads B s' lb' i' st (T @ map T_Data e) ([CR] @ ([LF] @ ''--'' @ B)) MP_STATE_PART_DATA_END [] 0 st ((T @ map T_Data e) @ map T_Data lb')"
    by (rule leads_append [OF data_cr [OF 1(2) assms(2)] data_delimiter [OF assms(1)]])
  then show ?thesis using leads_append [OF 1(1)] 1(3) by fastforce
qed

section \<open>Bodies\<close>

type_synonym mp_part = "(string \<times> string) list \<times> string"

text \<open>What follows a delimiter: the parts with their closing delimiters, and the end mark.\<close>

fun parts_text :: "string \<Rightarrow> mp_part list \<Rightarrow> string" where
  "parts_text B [] = ''--'' @ [CR, LF]"
| "parts_text B ((hs, d) # ps) =
     [CR, LF] @ concat (map header_line hs) @ [CR, LF] @ (d @ [CR, LF] @ ''--'' @ B) @ parts_text B ps"

definition multipart_text :: "string \<Rightarrow> mp_part list \<Rightarrow> string" where
  "multipart_text B parts = ''--'' @ B @ parts_text B parts"

definition part_tokens :: "mp_part \<Rightarrow> mp_token list" where
  "part_tokens p = [T_Begin] @ concat (map header_tokens (fst p)) @ [T_Complete] @ map T_Data (snd p) @ [T_End]"

definition clean_part :: "string \<Rightarrow> mp_part \<Rightarrow> bool" where
  "clean_part B p \<longleftrightarrow> (\<forall>(n, v)\<in>set (fst p). clean_name n \<and> clean_value v) \<and> \<not> sublist ([LF] @ ''--'' @ B) (snd p)"

lemma leads_part:
  assumes "B \<noteq> []" "CR \<notin> set B" "clean_part B (hs, d)"
    and "leads B s [] i st T [CR, LF] MP_STATE_HEADER_FIELD_START [] 0 True (T' @ [T_Begin])"
  shows "leads B s [] i st T ([CR, LF] @ concat (map header_line hs) @ [CR, LF] @ (d @ [CR, LF] @ ''--'' @ B))
    MP_STATE_PART_DATA_END [] 0 True (T' @ [T_Begin] @ concat (map header_tokens hs) @ [T_Complete] @ map T_Data d)"
proof -
  have c: "\<forall>(n, v)\<in>set hs. clean_name n \<and> clean_value v" "\<not> sublist ([LF] @ ''--'' @ B) d"
    using assms(3) by (auto simp: clean_part_def)
  show ?thesis
    using leads_append [OF assms(4) leads_append [OF leads_headers [OF c(1)] leads_append [OF leads_blank leads_data [OF assms(1,2) c(2)]]]]
    by simp
qed

lemma leads_next:
  "leads B MP_STATE_PART_DATA_END [] 0 True T [CR, LF] MP_STATE_HEADER_FIELD_START [] 0 True (T @ [T_End, T_Begin])"
proof -
  have "leads B MP_STATE_PART_DATA_END [] 0 True T [CR] MP_STATE_BOUNDARY_DONE [] 0 False (T @ [T_End])"
    by (rule leads_step) (auto simp: pos_step_defs)
  moreover have "leads B MP_STATE_BOUNDARY_DONE [] 0 False (T @ [T_End]) [LF] MP_STATE_HEADER_FIELD_START [] 0 True ((T @ [T_End]) @ [T_Begin])"
    by (rule leads_step) (auto simp: pos_step_defs)
  ultimately show ?thesis using leads_append by fastforce
qed

lemma leads_close:
  assumes "s = MP_STATE_BOUNDARY_ALMOST_DONE \<and> \<not> st \<or> s = MP_STATE_PART_DATA_END \<and> st"
  shows "leads B s [] i st T (''--'' @ [CR, LF]) MP_STATE_END [] 0 False (T @ (if st then [T_End] else []) @ [T_Body_End])"
proof -
  have 1: "leads B s [] i st T [DASH] MP_STATE_BODY_END [] 0 st T"
    using assms by (elim disjE conjE) (rule leads_step, simp add: pos_step_defs)+
  have "leads B MP_STATE_BODY_END [] 0 True T [DASH] MP_STATE_END [] 0 False (T @ [T_End] @ [T_Body_End])"
    "leads B MP_STATE_BODY_END [] 0 False T [DASH] MP_STATE_END [] 0 False (T @ [T_Body_End])"
    by (rule leads_step, simp add: pos_step_defs)+
  then have 2: "leads B MP_STATE_BODY_END [] 0 st T [DASH] MP_STATE_END [] 0 False (T @ (if st then [T_End] else []) @ [T_Body_End])"
    by (cases st) simp_all
  have 3: "leads B MP_STATE_END [] 0 False T' [c] MP_STATE_END [] 0 False T'" for c T'
    by (rule leads_step) (auto simp: pos_step_defs)
  show ?thesis using leads_Cons [OF 1 leads_Cons [OF 2 leads_Cons [OF 3 3]]] by simp
qed

lemma leads_parts:
  assumes "B \<noteq> []" "CR \<notin> set B" "\<forall>p\<in>set parts. clean_part B p"
  shows "leads B MP_STATE_PART_DATA_END [] 0 True T (parts_text B parts) MP_STATE_END [] 0 False
    (T @ [T_End] @ concat (map part_tokens parts) @ [T_Body_End])"
  using assms(3)
proof (induction parts arbitrary: T)
  case Nil then show ?case using leads_close [of MP_STATE_PART_DATA_END True B 0 T] by simp
next
  case (Cons p ps)
  obtain hs d where p: "p = (hs, d)" by fastforce
  have c: "clean_part B (hs, d)" using Cons.prems p by simp
  have n: "leads B MP_STATE_PART_DATA_END [] 0 True T [CR, LF] MP_STATE_HEADER_FIELD_START [] 0 True ((T @ [T_End]) @ [T_Begin])"
    using leads_next by simp
  show ?case
    using leads_append [OF leads_part [OF assms(1,2) c n] Cons.IH] Cons.prems p by (simp add: part_tokens_def)
qed

lemma leads_body:
  assumes "B \<noteq> []" "CR \<notin> set B" "\<forall>p\<in>set parts. clean_part B p"
  shows "leads B MP_STATE_START [] 0 False [] (multipart_text B parts) MP_STATE_END [] 0 False (concat (map part_tokens parts) @ [T_Body_End])"
proof -
  have 0: "leads B MP_STATE_START [] 0 False [] (''--'' @ B) MP_STATE_BOUNDARY_ALMOST_DONE [] (length B) False []"
    using leads_append [OF leads_dashes leads_boundary [of 0]] assms(1) by simp
  show ?thesis
  proof (cases parts)
    case Nil
    then show ?thesis
      using leads_append [OF 0 leads_close [of MP_STATE_BOUNDARY_ALMOST_DONE False B "length B" "[]"]] by (simp add: multipart_text_def)
  next
    case (Cons p ps)
    obtain hs d where p: "p = (hs, d)" by fastforce
    have c: "clean_part B (hs, d)" "\<forall>p\<in>set ps. clean_part B p" using assms(3) Cons p by auto
    have b: "leads B MP_STATE_BOUNDARY_ALMOST_DONE [] (length B) False [] [CR, LF] MP_STATE_HEADER_FIELD_START [] 0 True ([] @ [T_Begin])"
      by (rule leads_begin)
    show ?thesis
      using leads_append [OF 0 leads_append [OF leads_part [OF assms(1,2) c(1) b] leads_parts [OF assms(1,2) c(2)]]] Cons p
      by (simp add: multipart_text_def part_tokens_def)
  qed
qed

text \<open>
  C35. Round trip.  Take any parts whose header names are not empty and free of colons and line
  ends, whose values are free of line ends and start with no blank, and whose data does not
  contain a line starting with the delimiter; encode them, and feed the body in any chunks.
  The parser ends complete, and its callbacks have received exactly the headers and the data
  of every part, in order, and the end of the body.
\<close>

theorem multipart_roundtrip:
  assumes "multipart_parser_create (Some B) = Some ps" "CR \<notin> set B" "NUL \<notin> set B"
    and "\<forall>p\<in>set parts. clean_part B p" "concat chunks = multipart_text B parts"
  shows "\<exists>p. feed (\<lambda>_ _. True) ps chunks = Some p \<and> multipart_parser_is_complete p \<and>
    flat (mp_events p) = concat (map part_tokens parts) @ [T_Body_End]"
proof -
  have B: "B \<noteq> []" "c_string B = B" using assms(1,3)
    by (auto simp: multipart_parser_create_def multipart_parser_init_def Let_def c_string_def NUL_def takeWhile_eq_all_conv split: if_splits)
  have ps: "pos B MP_STATE_START [] 0 False [] ps None" "mp_st ps = MP_STATE_START"
    using assms(1) B by (auto simp: multipart_parser_create_def multipart_parser_init_def Let_def pos_def pending_def holding_def split: if_splits)
  obtain q m where q: "reaches ps None (concat chunks) q m" "pos B MP_STATE_END [] 0 False (concat (map part_tokens parts) @ [T_Body_End]) q m"
    using leads_body [OF B(1) assms(2,4)] ps(1) unfolding assms(5) leads_def by blast
  obtain n where n: "mp_loop accept n ps None (concat chunks) = Some (Inr (q, m))" using q(1) by (auto simp: reaches_def)
  have e: "exec ps (concat chunks) = q"
    using exec_loop [OF _ _ n] ps(2) q(2) by (simp add: mp_flush_def pos_def)
  obtain p where p: "feed accept ps chunks = Some p" "alike p q" using feed_alike [of ps chunks] e by metis
  have q': "mp_st q = MP_STATE_END" "flat (mp_events q) = concat (map part_tokens parts) @ [T_Body_End]"
    using q(2) by (simp_all add: pos_def pending_def)
  have "multipart_parser_is_complete p" "flat (mp_events p) = flat (mp_events q)"
    using alike_observed [OF p(2)] q'(1) by (simp_all add: multipart_parser_is_complete_def)
  then show ?thesis using p(1) q'(2) by simp
qed

theorem multipart_roundtrip_witness:
  "\<exists>ps p. multipart_parser_create (Some ''XyZ'') = Some ps \<and>
    feed (\<lambda>_ _. True) ps [''--Xy'', ''Z'' @ [CR, LF] @ ''a: b'' @ [CR], [LF, CR, LF] @ ''1'' @ [LF] @ ''--2'' @ [CR, LF] @ ''--'',
      ''XyZ--'' @ [CR, LF]] = Some p \<and>
    flat (mp_events p) = [T_Begin, T_Field CHR ''a'', T_Value CHR ''b'', T_Complete, T_Data CHR ''1'', T_Data LF,
      T_Data DASH, T_Data DASH, T_Data CHR ''2'', T_End, T_Body_End]"
proof -
  obtain ps where ps: "multipart_parser_create (Some ''XyZ'') = Some ps"
    by (simp add: multipart_parser_create_def multipart_parser_init_def c_string_def NUL_def MULTIPART_MAX_BOUNDARY_LEN_def)
  have c: "\<forall>p\<in>set [([(''a'', ''b'')], ''1'' @ [LF] @ ''--2'')]. clean_part ''XyZ'' p"
    by code_simp
  have "concat [''--Xy'', ''Z'' @ [CR, LF] @ ''a: b'' @ [CR], [LF, CR, LF] @ ''1'' @ [LF] @ ''--2'' @ [CR, LF] @ ''--'',
      ''XyZ--'' @ [CR, LF]] = multipart_text ''XyZ'' [([(''a'', ''b'')], ''1'' @ [LF] @ ''--2'')]"
    by (simp add: multipart_text_def header_line_def)
  from multipart_roundtrip [OF ps _ _ c this] show ?thesis using ps
    by (auto simp: NUL_def part_tokens_def header_tokens_def)
qed

end
