(* ===== verification/Multipart_Bounds.thy ===== *)
theory Multipart_Bounds
  imports Multipart_Roundtrip
begin

text \<open>
  The fixed arrays of the multipart parser: every position of the loop that any input and any
  callbacks can lead to keeps the boundary and the look-behind bytes inside their arrays and
  the 8-bit counters below their limit.
\<close>

inductive mp_position :: "mp_callbacks \<Rightarrow> mp_parser \<Rightarrow> string option \<Rightarrow> bool" for cb where
  start: "multipart_parser_create b = Some ps \<Longrightarrow> mp_position cb ps None"
| step: "mp_position cb ps m \<Longrightarrow> mp_step cb ps m c = Inr (mv, ps', m') \<Longrightarrow> mp_position cb ps' m'"
| fail: "mp_position cb ps m \<Longrightarrow> mp_step cb ps m c = Inl e \<Longrightarrow> mp_position cb e None"
| chunk: "mp_position cb ps m \<Longrightarrow> mp_flush cb ps m = Inr ps' \<Longrightarrow> mp_position cb ps' None"
| chunk_fail: "mp_position cb ps m \<Longrightarrow> mp_flush cb ps m = Inl e \<Longrightarrow> mp_position cb e None"
| reset: "mp_position cb ps m \<Longrightarrow> mp_position cb (multipart_parser_reset ps) None"

definition holds_room :: "mp_parser \<Rightarrow> bool" where
  "holds_room ps \<longleftrightarrow>
     (let B = mp_boundary ps; s = mp_st ps in
      B \<noteq> [] \<and> length B \<le> MULTIPART_MAX_BOUNDARY_LEN \<and> mp_index ps \<le> length B \<and>
      (s = MP_STATE_BOUNDARY \<longrightarrow> mp_index ps < length B) \<and>
      (if s = MP_STATE_ERROR then length (mp_lookbehind ps) \<le> length B + 4
       else if s = MP_STATE_PART_DATA \<or> holding s then held B s (mp_lookbehind ps) (mp_index ps)
       else mp_lookbehind ps = []))"

lemma held_length: "held B s lb i \<Longrightarrow> length lb \<le> length B + 4"
  by (auto simp: held_def line_ends_def)

lemma held_grow:
  assumes "held B MP_STATE_PART_DATA_BOUNDARY lb i" "Suc i \<noteq> length B"
  shows "held B MP_STATE_PART_DATA_BOUNDARY (lb @ [B ! i]) (Suc i)"
  using assms by (auto simp: held_def take_Suc_conv_app_nth)

lemma and_then_Inr: "and_then x f = Inr y \<longleftrightarrow> (\<exists>a. x = Inr a \<and> f a = Inr y)"
  by (simp add: and_then_def split: sum.split)

lemma callback_frame:
  "MP_CALLBACK cb e ps = Inr ps1 \<Longrightarrow> \<exists>E. ps1 = ps\<lparr>mp_events := E\<rparr>"
  "CALLBACK_DATA cb K t ps = Inr ps1 \<Longrightarrow> \<exists>E. ps1 = ps\<lparr>mp_events := E\<rparr>"
proof -
  show "MP_CALLBACK cb e ps = Inr ps1 \<Longrightarrow> \<exists>E. ps1 = ps\<lparr>mp_events := E\<rparr>" for e
    by (auto simp: MP_CALLBACK_def Let_def split: if_splits)
  moreover have "\<exists>E. ps = ps\<lparr>mp_events := E\<rparr>" by (rule exI [of _ "mp_events ps"]) simp
  ultimately show "CALLBACK_DATA cb K t ps = Inr ps1 \<Longrightarrow> \<exists>E. ps1 = ps\<lparr>mp_events := E\<rparr>"
    by (auto simp: CALLBACK_DATA_def split: if_splits)
qed

lemma room_events [simp]: "holds_room (ps\<lparr>mp_events := E\<rparr>) = holds_room ps"
  by (simp add: holds_room_def Let_def)

text \<open>Whatever the state was, a change that empties the look-behind bytes or keeps them empty
  in a state that holds none is harmless.\<close>

lemma room_plain:
  assumes "holds_room ps" "mp_lookbehind ps' = []" "mp_boundary ps' = mp_boundary ps" "mp_index ps' \<le> length (mp_boundary ps)"
    and "mp_st ps' = MP_STATE_BOUNDARY \<Longrightarrow> mp_index ps' < length (mp_boundary ps)" "\<not> holding (mp_st ps')"
  shows "holds_room ps'"
  using assms by (auto simp: holds_room_def Let_def held_def holding_def)

lemma room_held:
  assumes "holds_room ps" "mp_boundary ps' = mp_boundary ps" "mp_index ps' \<le> length (mp_boundary ps)"
    and "holding (mp_st ps')" "held (mp_boundary ps) (mp_st ps') (mp_lookbehind ps') (mp_index ps')"
  shows "holds_room ps'"
  using assms by (auto simp: holds_room_def Let_def holding_def)

lemma room_get:
  assumes "holds_room ps"
  shows "mp_index ps \<le> length (mp_boundary ps)" "mp_boundary ps \<noteq> []"
    "mp_st ps = MP_STATE_BOUNDARY \<Longrightarrow> mp_index ps < length (mp_boundary ps)"
    "mp_st ps \<noteq> MP_STATE_ERROR \<Longrightarrow> \<not> holding (mp_st ps) \<Longrightarrow> mp_lookbehind ps = []"
    "holding (mp_st ps) \<Longrightarrow> held (mp_boundary ps) (mp_st ps) (mp_lookbehind ps) (mp_index ps)"
  using assms by (auto simp: holds_room_def Let_def held_def holding_def split: if_splits)

lemma not_boundary_room:
  assumes "holds_room ps" "not_boundary cb ps m = Inr (mv, ps', m')"
  shows "holds_room ps'"
proof -
  have "mp_lookbehind ps' = [] \<and> mp_boundary ps' = mp_boundary ps \<and> mp_index ps' = mp_index ps \<and> mp_st ps' = MP_STATE_PART_DATA"
    using assms(2) by (auto simp: not_boundary_def flush_lookbehind_def and_then_Inr dest!: callback_frame split: if_splits)
  then show ?thesis using room_plain [OF assms(1), of ps'] room_get(1) [OF assms(1)] by (simp add: holding_def)
qed

lemma holds_room_holding:
  assumes "holds_room ps" "holding (mp_st ps)" "mp_step cb ps m c = Inr (mv, ps', m')"
  shows "holds_room ps'"
proof (cases "not_boundary cb ps m = Inr (mv, ps', m')")
  case True then show ?thesis by (rule not_boundary_room [OF assms(1)])
next
  case False
  note h = room_get(5) [OF assms(1,2)]
  consider "mp_st ps = MP_STATE_PART_DATA_CR" | "mp_st ps = MP_STATE_PART_DATA_LF" | "mp_st ps = MP_STATE_PART_DATA_BOUNDARY_START"
    | "mp_st ps = MP_STATE_PART_DATA_BOUNDARY" using assms(2) by (auto simp: holding_def)
  then show ?thesis
  proof cases
    case 4
    have i: "mp_index ps < length (mp_boundary ps)" using h 4 by (simp add: held_def)
    have s: "mp_step cb ps m c = (if c \<noteq> mp_boundary ps ! mp_index ps then not_boundary cb ps m
        else let ps1 = (hold c MP_STATE_PART_DATA_BOUNDARY ps)\<lparr>mp_index := mp_index ps + 1\<rparr>
          in Inr (True, if mp_index ps1 = length (mp_boundary ps1) then ps1\<lparr>mp_lookbehind := [], mp_st := MP_STATE_PART_DATA_END\<rparr> else ps1, adv c m))"
      using i by (simp add: mp_step_def 4 accumulates_def Let_def)
    then have c: "c = mp_boundary ps ! mp_index ps" using False assms(3) by (auto split: if_splits)
    have "ps' = (let ps1 = (hold c MP_STATE_PART_DATA_BOUNDARY ps)\<lparr>mp_index := mp_index ps + 1\<rparr>
          in if mp_index ps1 = length (mp_boundary ps1) then ps1\<lparr>mp_lookbehind := [], mp_st := MP_STATE_PART_DATA_END\<rparr> else ps1)"
      using s c assms(3) by (simp add: Let_def split: if_splits)
    then show ?thesis
      using room_plain [OF assms(1), of ps'] room_held [OF assms(1), of ps'] held_grow [of "mp_boundary ps" "mp_lookbehind ps" "mp_index ps"] h 4 c i
      by (cases "Suc (mp_index ps) = length (mp_boundary ps)") (simp_all add: hold_def holding_def)
  qed (use assms(1,3) False h in
      \<open>auto simp: mp_step_def accumulates_def Let_def hold_def held_def line_ends_def holding_def split: if_splits intro!: room_held [OF assms(1)] dest: room_get\<close>)
qed

lemma holds_room_step:
  assumes "holds_room ps" "mp_step cb ps m c = Inr (mv, ps', m')"
  shows "holds_room ps'"
proof (cases "holding (mp_st ps)")
  case True then show ?thesis using holds_room_holding assms by blast
next
  case False
  note g = room_get [OF assms(1)]
  show ?thesis
  proof (cases "mp_st ps = MP_STATE_PART_DATA")
    case True
    have "mp_boundary ps' = mp_boundary ps \<and> mp_index ps' = mp_index ps \<and>
        (ps' = ps \<or> mp_st ps' = MP_STATE_PART_DATA_CR \<and> mp_lookbehind ps' = [CR] \<or> mp_st ps' = MP_STATE_PART_DATA_LF \<and> mp_lookbehind ps' = [LF])"
      using assms(2) True
      by (auto simp: mp_step_def accumulates_def Let_def and_then_Inr dest!: callback_frame split: if_splits)
    then show ?thesis
      using assms(1) g(1) room_held [OF assms(1), of ps'] by (auto simp: held_def line_ends_def holding_def)
  next
    case pd: False
    have "mp_lookbehind ps' = [] \<and> mp_boundary ps' = mp_boundary ps \<and> mp_index ps' \<le> length (mp_boundary ps) \<and> \<not> holding (mp_st ps') \<and>
        (mp_st ps' = MP_STATE_BOUNDARY \<longrightarrow> mp_index ps' < length (mp_boundary ps))"
      using assms(2) False pd g
      by (cases "mp_st ps") (auto simp: mp_step_def begin_part_def accumulates_def Let_def and_then_Inr holding_def dest!: callback_frame split: if_splits)
    then show ?thesis using room_plain [OF assms(1), of ps'] by blast
  qed
qed

lemma room_error:
  assumes "holds_room ps" "mp_st e = MP_STATE_ERROR"
    and "mp_boundary e = mp_boundary ps \<and> mp_index e = mp_index ps \<and> mp_lookbehind e = mp_lookbehind ps"
  shows "holds_room e"
proof -
  have "length (mp_lookbehind ps) \<le> length (mp_boundary ps) + 4"
    using assms(1) held_length by (auto simp: holds_room_def Let_def split: if_splits)
  then show ?thesis using assms by (simp add: holds_room_def Let_def)
qed

lemma holds_room_fail:
  assumes "holds_room ps" "mp_step cb ps m c = Inl e"
  shows "holds_room e"
proof (rule room_error [OF assms(1) mp_step_fail [OF assms(2)]])
  show "mp_boundary e = mp_boundary ps \<and> mp_index e = mp_index ps \<and> mp_lookbehind e = mp_lookbehind ps"
    using assms(2) by (cases "mp_st ps") (auto simp: mp_step_defs split: if_splits)
qed

lemma mp_position_room: "mp_position cb ps m \<Longrightarrow> holds_room ps"
proof (induction rule: mp_position.induct)
  case (start b ps)
  then show ?case
    by (auto simp: multipart_parser_create_def multipart_parser_init_def holds_room_def Let_def holding_def split: option.splits if_splits)
next
  case (chunk_fail ps m e)
  have "mp_st e = MP_STATE_ERROR" by (rule mp_flush_state(1) [OF chunk_fail(2)])
  moreover have "mp_boundary e = mp_boundary ps \<and> mp_index e = mp_index ps \<and> mp_lookbehind e = mp_lookbehind ps"
    using chunk_fail(2) by (auto simp: mp_flush_def CALLBACK_DATA_def MP_CALLBACK_def mp_fail_def Let_def split: if_splits)
  ultimately show ?case by (rule room_error [OF chunk_fail(3)])
next
  case (chunk ps m ps')
  have "\<exists>E. ps = ps\<lparr>mp_events := E\<rparr>" by (rule exI [of _ "mp_events ps"]) simp
  then have "\<exists>E. ps' = ps\<lparr>mp_events := E\<rparr>"
    using chunk(2) by (auto simp: mp_flush_def dest: callback_frame split: if_splits)
  then show ?case using chunk(3) by auto
next
  case (reset ps m)
  then show ?case by (auto simp: multipart_parser_reset_def holds_room_def Let_def holding_def)
qed (blast intro: holds_room_step holds_room_fail)+



end
