(* ===== verification/Multipart_Protocol.thy ===== *)
theory Multipart_Protocol
  imports Multipart_Bounds
begin

text \<open>
  The order of the multipart parser's callbacks: for every part \<open>on_part_begin\<close>, header
  fields and values, \<open>on_headers_complete\<close>, data, \<open>on_part_end\<close>; at the end \<open>on_body_end\<close>.
  It is an automaton over the events, and every state of the parser belongs to one of its
  phases.
\<close>

datatype mp_phase = P_Idle | P_Head | P_Body | P_Done

fun next_phase :: "mp_phase \<Rightarrow> mp_event \<Rightarrow> mp_phase option" where
  "next_phase P_Idle On_Part_Begin = Some P_Head"
| "next_phase P_Idle On_Body_End = Some P_Done"
| "next_phase P_Head (On_Header_Field s) = Some P_Head"
| "next_phase P_Head (On_Header_Value s) = Some P_Head"
| "next_phase P_Head On_Headers_Complete = Some P_Body"
| "next_phase P_Body (On_Part_Data s) = Some P_Body"
| "next_phase P_Body On_Part_End = Some P_Idle"
| "next_phase ph e = None"

fun run_phase :: "mp_phase \<Rightarrow> mp_event list \<Rightarrow> mp_phase option" where
  "run_phase ph [] = Some ph"
| "run_phase ph (e # es) = Option.bind (next_phase ph e) (\<lambda>ph'. run_phase ph' es)"

lemma run_phase_append: "run_phase ph (a @ b) = Option.bind (run_phase ph a) (\<lambda>ph'. run_phase ph' b)"
  by (induction ph a rule: run_phase.induct) (auto split: bind_splits)

fun phase_of :: "mp_state \<Rightarrow> bool \<Rightarrow> mp_phase option" where
  "phase_of MP_STATE_START st = (if st then None else Some P_Idle)"
| "phase_of MP_STATE_BOUNDARY_START st = (if st then None else Some P_Idle)"
| "phase_of MP_STATE_BOUNDARY st = (if st then None else Some P_Idle)"
| "phase_of MP_STATE_BOUNDARY_ALMOST_DONE st = (if st then None else Some P_Idle)"
| "phase_of MP_STATE_BOUNDARY_DONE st = (if st then None else Some P_Idle)"
| "phase_of MP_STATE_HEADER_FIELD_START st = (if st then Some P_Head else None)"
| "phase_of MP_STATE_HEADER_FIELD st = (if st then Some P_Head else None)"
| "phase_of MP_STATE_HEADER_VALUE_START st = (if st then Some P_Head else None)"
| "phase_of MP_STATE_HEADER_VALUE st = (if st then Some P_Head else None)"
| "phase_of MP_STATE_HEADER_VALUE_ALMOST_DONE st = (if st then Some P_Head else None)"
| "phase_of MP_STATE_HEADERS_ALMOST_DONE st = (if st then Some P_Head else None)"
| "phase_of MP_STATE_PART_DATA st = (if st then Some P_Body else None)"
| "phase_of MP_STATE_PART_DATA_CR st = (if st then Some P_Body else None)"
| "phase_of MP_STATE_PART_DATA_LF st = (if st then Some P_Body else None)"
| "phase_of MP_STATE_PART_DATA_BOUNDARY_START st = (if st then Some P_Body else None)"
| "phase_of MP_STATE_PART_DATA_BOUNDARY st = (if st then Some P_Body else None)"
| "phase_of MP_STATE_PART_DATA_END st = (if st then Some P_Body else None)"
| "phase_of MP_STATE_BODY_END st = (if st then Some P_Body else Some P_Idle)"
| "phase_of MP_STATE_END st = Some P_Done"
| "phase_of s st = None"

definition in_phase :: "mp_parser \<Rightarrow> bool" where
  "in_phase ps \<longleftrightarrow> (\<exists>ph. run_phase P_Idle (mp_events ps) = Some ph \<and>
     (mp_st ps = MP_STATE_ERROR \<or> phase_of (mp_st ps) (mp_started ps) = Some ph))"

lemma callback_phase:
  assumes "MP_CALLBACK cb e ps = x" "run_phase P_Idle (mp_events ps) = Some ph" "next_phase ph e = Some ph'"
  shows "\<exists>ps1. (x = Inr ps1 \<or> x = Inl ps1 \<and> mp_st ps1 = MP_STATE_ERROR) \<and> run_phase P_Idle (mp_events ps1) = Some ph' \<and>
    (x = Inr ps1 \<longrightarrow> mp_st ps1 = mp_st ps \<and> mp_started ps1 = mp_started ps)"
  using assms by (auto simp: MP_CALLBACK_def Let_def mp_fail_def run_phase_append)

lemma in_phase_step:
  assumes "in_phase ps"
  shows "case mp_step cb ps m c of Inl e \<Rightarrow> in_phase e | Inr (mv, ps', m') \<Rightarrow> in_phase ps'"
proof -
  obtain ph where ph: "run_phase P_Idle (mp_events ps) = Some ph"
      "mp_st ps = MP_STATE_ERROR \<or> phase_of (mp_st ps) (mp_started ps) = Some ph"
    using assms by (auto simp: in_phase_def)
  show ?thesis
    using ph by (cases "mp_st ps")
      (auto simp: mp_step_defs in_phase_def run_phase_append split: if_splits)
qed

lemma in_phase_flush:
  assumes "in_phase ps"
  shows "case mp_flush cb ps m of Inl e \<Rightarrow> in_phase e | Inr ps' \<Rightarrow> in_phase ps'"
  using assms
  by (auto simp: mp_flush_def CALLBACK_DATA_def MP_CALLBACK_def mp_fail_def Let_def in_phase_def run_phase_append split: if_splits)

lemma in_phase_loop:
  "in_phase ps \<Longrightarrow> mp_loop cb n ps m s = Some r \<Longrightarrow> (case r of Inl e \<Rightarrow> in_phase e | Inr (ps', m') \<Rightarrow> in_phase ps')"
proof (induction cb n ps m s rule: mp_loop.induct)
  case (3 cb n ps m c rest)
  show ?case
  proof (cases "mp_step cb ps m c")
    case (Inl e) then show ?thesis using 3(2,3) in_phase_step [OF 3(2), of cb m c] by auto
  next
    case (Inr x)
    obtain mv ps1 m1 where x: "x = (mv, ps1, m1)" by (metis prod_cases3)
    have "in_phase ps1" using in_phase_step [OF 3(2), of cb m c] Inr x by simp
    then show ?thesis using 3(1) [OF Inr x [symmetric] refl] 3(3) Inr x by simp
  qed
qed auto

lemma in_phase_execute:
  assumes "in_phase ps" "multipart_parser_execute cb ps d = Some (ps', r)"
  shows "in_phase ps'"
proof (cases "mp_st ps = MP_STATE_ERROR \<or> mp_st ps = MP_STATE_END")
  case True
  then show ?thesis using assms by (auto simp: multipart_parser_execute_def execute_with_def)
next
  case False
  obtain x where x: "mp_loop cb (2 * length d) ps None d = Some x"
    using assms(2) False by (auto simp: multipart_parser_execute_def execute_with_def split: option.splits)
  note l = in_phase_loop [OF assms(1) x]
  show ?thesis
  proof (cases x)
    case (Inl e)
    then show ?thesis using assms(2) False x l by (simp add: multipart_parser_execute_def execute_with_def)
  next
    case (Inr y)
    obtain q m where y: "y = (q, m)" by fastforce
    have "in_phase q" using l Inr y by simp
    from in_phase_flush [OF this, of cb m] show ?thesis
      using assms(2) False x Inr y
      by (cases "mp_flush cb q m") (simp_all add: multipart_parser_execute_def execute_with_def)
  qed
qed

lemma in_phase_create: "multipart_parser_create b = Some ps \<Longrightarrow> in_phase ps \<and> mp_events ps = []"
  by (auto simp: multipart_parser_create_def multipart_parser_init_def Let_def in_phase_def split: option.splits if_splits)

lemma in_phase_feed: "in_phase ps \<Longrightarrow> feed cb ps ds = Some ps' \<Longrightarrow> in_phase ps'"
  by (induction ds arbitrary: ps) (auto split: option.splits dest: in_phase_execute)

end
