(* ===== verification/Multipart_Processor.thy ===== *)
theory Multipart_Processor
  imports Multipart_Chunks
begin

text \<open>
  The form processor on top of the multipart parser, \<open>src/formats/multipart_processor.c\<close>:
  the seven callbacks, the results they collect, and the composition with the parser.  The
  parser's callbacks are replayed: the processor after a list of events is a function of it.
  Temporary names (whose generator creates the file), \<open>fopen\<close>, \<open>fwrite\<close> and what closing
  leaves of a file are parameters; the files written are a map from paths to contents.
  Allocation does not fail.
\<close>

section \<open>Buffers\<close>

definition SIZE_MAX :: nat where
  "SIZE_MAX = 2 ^ 64 - 1"

record mp_buf =
  b_text :: string
  b_cap :: nat

definition INITIAL_HEADER_CAP :: nat where "INITIAL_HEADER_CAP = 128"
definition INITIAL_FIELD_VALUE_CAP :: nat where "INITIAL_FIELD_VALUE_CAP = 256"
definition INITIAL_FILES_CAPACITY :: nat where "INITIAL_FILES_CAPACITY = 4"
definition INITIAL_FIELDS_CAPACITY :: nat where "INITIAL_FIELDS_CAPACITY = 8"

text \<open>The doubling loop.  It would not end from capacity 0, which takes a buffer of \<open>2\<^sup>6\<^sup>3\<close>
  bytes to wrap around to.\<close>

function grow_cap :: "nat \<Rightarrow> nat \<Rightarrow> nat option" where
  "grow_cap new_cap need =
     (if need \<le> new_cap then Some new_cap
      else if SIZE_MAX div 2 < new_cap \<or> new_cap = 0 then None
      else grow_cap (2 * new_cap) need)"
  by auto
termination by (relation "measure (\<lambda>(c, n). SIZE_MAX - c)") (auto simp: SIZE_MAX_def)

declare grow_cap.simps [simp del]

definition str_append :: "mp_buf \<Rightarrow> string \<Rightarrow> mp_buf option" where
  "str_append b data =
     (if SIZE_MAX - length (b_text b) - 1 \<le> length data then None
      else let need = length (b_text b) + length data + 1
        in if b_cap b < need
           then (case grow_cap (if b_cap b = 0 then INITIAL_HEADER_CAP else (b_cap b * 2) mod (SIZE_MAX + 1)) need of
               None \<Rightarrow> None | Some c \<Rightarrow> Some \<lparr>b_text = b_text b @ data, b_cap = c\<rparr>)
           else Some (b\<lparr>b_text := b_text b @ data\<rparr>))"

section \<open>State\<close>

definition MP_UPLOAD_ERR_OK :: int where "MP_UPLOAD_ERR_OK = 0"
definition MP_UPLOAD_ERR_NO_FILE :: int where "MP_UPLOAD_ERR_NO_FILE = 4"
definition MP_UPLOAD_ERR_NO_TMP_DIR :: int where "MP_UPLOAD_ERR_NO_TMP_DIR = 6"
definition MP_UPLOAD_ERR_CANT_WRITE :: int where "MP_UPLOAD_ERR_CANT_WRITE = 7"
definition MP_UPLOAD_ERR_TOO_MANY_FILES :: int where "MP_UPLOAD_ERR_TOO_MANY_FILES = 100"
definition MP_UPLOAD_ERR_INVALID_NAME :: int where "MP_UPLOAD_ERR_INVALID_NAME = 101"
definition MP_UPLOAD_ERR_TOO_LARGE :: int where "MP_UPLOAD_ERR_TOO_LARGE = 102"

definition MP_MAX_FILENAME_LEN :: nat where "MP_MAX_FILENAME_LEN = 4096"
definition MP_MAX_FIELD_VALUE_LEN :: nat where "MP_MAX_FIELD_VALUE_LEN = 1048576"
definition MP_MAX_FILE_SIZE :: nat where "MP_MAX_FILE_SIZE = 104857600"
definition MP_MAX_FILES :: nat where "MP_MAX_FILES = 20"
definition MP_MAX_FIELDS :: nat where "MP_MAX_FIELDS = 100"

record mp_config =
  max_file_size :: nat
  max_field_size :: nat
  max_files :: nat
  max_fields :: nat

definition file_limit :: "mp_config \<Rightarrow> nat" where
  "file_limit c = (if 0 < max_file_size c then max_file_size c else MP_MAX_FILE_SIZE)"

definition field_limit :: "mp_config \<Rightarrow> nat" where
  "field_limit c = (if 0 < max_field_size c then max_field_size c else MP_MAX_FIELD_VALUE_LEN)"

definition files_limit :: "mp_config \<Rightarrow> nat" where
  "files_limit c = (if 0 < max_files c then max_files c else MP_MAX_FILES)"

definition fields_limit :: "mp_config \<Rightarrow> nat" where
  "fields_limit c = (if 0 < max_fields c then max_fields c else MP_MAX_FIELDS)"

record mp_file_info =
  mf_field_name :: "string option"
  mf_filename :: "string option"
  mf_media_type :: "string option"
  mf_charset :: "string option"
  mf_tmp_path :: "string option"
  mf_size :: nat
  mf_error :: int
  mf_ready :: bool

text \<open>\<open>fd_value\<close> is what \<open>MP_STRDUP\<close> allocates, without its terminator; \<open>fd_len\<close> is the
  length stored beside it.\<close>

record mp_field_info =
  fd_name :: string
  fd_value :: string
  fd_len :: nat

record mp_processor =
  pr_config :: mp_config
  pr_name :: "mp_buf option"
  pr_value :: "mp_buf option"
  pr_head :: part_head
  pr_open :: bool
  pr_tmp_path :: "string option"
  pr_file_size :: nat
  pr_field_value :: "mp_buf option"
  pr_files :: "mp_file_info list"
  pr_files_cap :: nat
  pr_fields :: "mp_field_info list"
  pr_fields_cap :: nat
  pr_error :: int
  pr_disk :: "string \<rightharpoonup> string"
  pr_fault :: bool

record mp_env =
  me_tmp :: "nat \<Rightarrow> string option"
  me_fopen :: "string \<Rightarrow> bool"
  me_fwrite :: "string \<Rightarrow> string \<Rightarrow> nat"
  me_fclose :: "string \<Rightarrow> string \<Rightarrow> string"

definition empty_head :: part_head where
  "empty_head = \<lparr>ph_field_name = None, ph_filename = None, ph_content_type = None, ph_charset = None\<rparr>"

definition mp_processor_create :: "mp_config option \<Rightarrow> mp_processor" where
  "mp_processor_create config =
     \<lparr>pr_config = (case config of Some c \<Rightarrow> c | None \<Rightarrow> \<lparr>max_file_size = 0, max_field_size = 0, max_files = 0, max_fields = 0\<rparr>),
      pr_name = None, pr_value = None, pr_head = empty_head, pr_open = False, pr_tmp_path = None, pr_file_size = 0,
      pr_field_value = None, pr_files = [], pr_files_cap = 0, pr_fields = [], pr_fields_cap = 0,
      pr_error = MP_UPLOAD_ERR_OK, pr_disk = Map.empty, pr_fault = False\<rparr>"

definition clear_buf :: "mp_buf option \<Rightarrow> mp_buf option" where
  "clear_buf b = map_option (\<lambda>x. x\<lparr>b_text := []\<rparr>) b"

definition len_of :: "mp_buf option \<Rightarrow> nat" where
  "len_of b = (case b of None \<Rightarrow> 0 | Some x \<Rightarrow> length (b_text x))"

section \<open>Callbacks\<close>

text \<open>The result is whether the callback returned 0, and the processor after it.\<close>

definition on_part_begin :: "mp_processor \<Rightarrow> bool \<times> mp_processor" where
  "on_part_begin pr =
     (True, pr\<lparr>pr_name := clear_buf (pr_name pr), pr_value := clear_buf (pr_value pr), pr_head := empty_head,
               pr_open := False, pr_tmp_path := None, pr_file_size := 0, pr_field_value := clear_buf (pr_field_value pr),
               pr_error := MP_UPLOAD_ERR_OK\<rparr>)"

text \<open>The header collected so far, if it is one of the two the processor reads.\<close>

definition take_header :: "mp_processor \<Rightarrow> mp_processor" where
  "take_header pr = (case (pr_name pr, pr_value pr) of
     (Some n, Some v) \<Rightarrow>
        if eq_ci (c_string (b_text n)) ''Content-Disposition''
        then pr\<lparr>pr_head := parse_content_disposition (pr_head pr) (c_string (b_text v))\<rparr>
        else if eq_ci (c_string (b_text n)) ''Content-Type''
        then pr\<lparr>pr_head := parse_content_type (pr_head pr) (c_string (b_text v))\<rparr>
        else pr
   | _ \<Rightarrow> pr\<lparr>pr_fault := True\<rparr>)"

definition on_header_field :: "mp_processor \<Rightarrow> string \<Rightarrow> bool \<times> mp_processor" where
  "on_header_field pr at =
     (let pr1 = (if 0 < len_of (pr_value pr)
                 then (let p = take_header pr in p\<lparr>pr_name := clear_buf (pr_name p), pr_value := clear_buf (pr_value p)\<rparr>)
                 else pr);
          b = (case pr_name pr1 of None \<Rightarrow> \<lparr>b_text = [], b_cap = INITIAL_HEADER_CAP\<rparr> | Some x \<Rightarrow> x)
      in case str_append b at of
           None \<Rightarrow> (False, pr1\<lparr>pr_name := Some b\<rparr>)
         | Some b' \<Rightarrow> (True, pr1\<lparr>pr_name := Some b'\<rparr>))"

definition on_header_value :: "mp_processor \<Rightarrow> string \<Rightarrow> bool \<times> mp_processor" where
  "on_header_value pr at =
     (let b = (case pr_value pr of None \<Rightarrow> \<lparr>b_text = [], b_cap = INITIAL_HEADER_CAP\<rparr> | Some x \<Rightarrow> x)
      in case str_append b at of
           None \<Rightarrow> (False, pr\<lparr>pr_value := Some b\<rparr>)
         | Some b' \<Rightarrow> (True, pr\<lparr>pr_value := Some b'\<rparr>))"

definition open_upload :: "mp_env \<Rightarrow> mp_processor \<Rightarrow> string \<Rightarrow> mp_processor" where
  "open_upload env pr f =
     (if MP_MAX_FILENAME_LEN < length f then pr\<lparr>pr_error := MP_UPLOAD_ERR_INVALID_NAME\<rparr>
      else if has_path_traversal_or_nul (Some f) then pr\<lparr>pr_error := MP_UPLOAD_ERR_INVALID_NAME\<rparr>
      else if files_limit (pr_config pr) \<le> length (pr_files pr) then pr\<lparr>pr_error := MP_UPLOAD_ERR_TOO_MANY_FILES\<rparr>
      else case me_tmp env (length (pr_files pr)) of
        None \<Rightarrow> pr\<lparr>pr_error := MP_UPLOAD_ERR_NO_TMP_DIR\<rparr>
      | Some path \<Rightarrow>
          if \<not> me_fopen env path
          then pr\<lparr>pr_error := MP_UPLOAD_ERR_CANT_WRITE, pr_tmp_path := None, pr_disk := (pr_disk pr)(path \<mapsto> [])\<rparr>
          else pr\<lparr>pr_tmp_path := Some path, pr_open := True, pr_file_size := 0, pr_disk := (pr_disk pr)(path \<mapsto> [])\<rparr>)"

definition on_headers_complete :: "mp_env \<Rightarrow> mp_processor \<Rightarrow> bool \<times> mp_processor" where
  "on_headers_complete env pr =
     (let pr1 = (if 0 < len_of (pr_name pr) \<and> 0 < len_of (pr_value pr) then take_header pr else pr)
      in case map_option c_string (ph_filename (pr_head pr1)) of
           Some f \<Rightarrow> if f \<noteq> [] then (True, open_upload env pr1 f) else (True, pr1\<lparr>pr_error := MP_UPLOAD_ERR_NO_FILE\<rparr>)
         | None \<Rightarrow> (True, pr1\<lparr>pr_field_value := Some (case pr_field_value pr1 of
               None \<Rightarrow> \<lparr>b_text = [], b_cap = INITIAL_FIELD_VALUE_CAP\<rparr> | Some b \<Rightarrow> b\<lparr>b_text := []\<rparr>)\<rparr>))"

text \<open>The results of \<open>fflush\<close> and \<open>fclose\<close> are not looked at; the file is left with what
  they make of the bytes handed to \<open>fwrite\<close>.\<close>

definition close_file :: "mp_env \<Rightarrow> mp_processor \<Rightarrow> mp_processor" where
  "close_file env pr =
     (if pr_open pr
      then pr\<lparr>pr_open := False, pr_disk := (case pr_tmp_path pr of None \<Rightarrow> pr_disk pr
        | Some p \<Rightarrow> (pr_disk pr)(p := map_option (me_fclose env p) (pr_disk pr p)))\<rparr>
      else pr)"

definition on_part_data :: "mp_env \<Rightarrow> mp_processor \<Rightarrow> string \<Rightarrow> bool \<times> mp_processor" where
  "on_part_data env pr at =
     (if pr_open pr
      then (let limit = file_limit (pr_config pr); path = (case pr_tmp_path pr of Some p \<Rightarrow> p | None \<Rightarrow> []);
                old = (case pr_disk pr path of Some x \<Rightarrow> x | None \<Rightarrow> [])
        in if limit < pr_file_size pr \<or> limit - pr_file_size pr < length at
           then (True, pr\<lparr>pr_error := MP_UPLOAD_ERR_TOO_LARGE, pr_open := False,
                  pr_disk := (if pr_tmp_path pr \<noteq> None then (pr_disk pr)(path := None) else pr_disk pr)\<rparr>)
           else let written = me_fwrite env path at
             in if written \<noteq> length at
                then (True, pr\<lparr>pr_error := MP_UPLOAD_ERR_CANT_WRITE, pr_open := False,
                       pr_disk := (pr_disk pr)(path \<mapsto> me_fclose env path (old @ take written at))\<rparr>)
                else (True, pr\<lparr>pr_file_size := pr_file_size pr + length at, pr_disk := (pr_disk pr)(path \<mapsto> old @ at)\<rparr>))
      else if pr_error pr = MP_UPLOAD_ERR_OK \<and> ph_filename (pr_head pr) = None
      then (let limit = field_limit (pr_config pr); n = len_of (pr_field_value pr);
                b = (case pr_field_value pr of None \<Rightarrow> \<lparr>b_text = [], b_cap = 0\<rparr> | Some x \<Rightarrow> x)
        in if limit < n \<or> limit - n < length at then (True, pr)
           else case str_append b at of
             None \<Rightarrow> (False, pr)
           | Some b' \<Rightarrow> (True, pr\<lparr>pr_field_value := Some b'\<rparr>))
      else (True, pr))"

text \<open>The capacity for one more element, unless the size computation would wrap.\<close>

definition array_room :: "nat \<Rightarrow> nat \<Rightarrow> nat \<Rightarrow> nat \<Rightarrow> nat option" where
  "array_room used cap initial elem_size =
     (if cap \<le> used
      then (let new_cap = (if cap = 0 then initial else (cap * 2) mod (SIZE_MAX + 1))
        in if new_cap < cap \<or> SIZE_MAX div elem_size < new_cap then None else Some new_cap)
      else Some cap)"

definition on_part_end :: "mp_env \<Rightarrow> mp_processor \<Rightarrow> bool \<times> mp_processor" where
  "on_part_end env pr0 =
     (let pr = close_file env pr0; h = pr_head pr
      in if ph_filename h \<noteq> None
         then (case array_room (length (pr_files pr)) (pr_files_cap pr) INITIAL_FILES_CAPACITY 56 of
             None \<Rightarrow> (False, pr)
           | Some cap \<Rightarrow>
              let info = \<lparr>mf_field_name = map_option c_string (ph_field_name h), mf_filename = map_option c_string (ph_filename h),
                          mf_media_type = map_option c_string (ph_content_type h), mf_charset = map_option c_string (ph_charset h),
                          mf_tmp_path = pr_tmp_path pr, mf_size = pr_file_size pr, mf_error = pr_error pr,
                          mf_ready = (pr_error pr = MP_UPLOAD_ERR_OK)\<rparr>
              in (True, pr\<lparr>pr_files := pr_files pr @ [info], pr_files_cap := cap, pr_tmp_path := None\<rparr>))
         else case ph_field_name h of
           None \<Rightarrow> (True, pr)
         | Some name \<Rightarrow>
             if fields_limit (pr_config pr) \<le> length (pr_fields pr) then (True, pr)
             else (case array_room (length (pr_fields pr)) (pr_fields_cap pr) INITIAL_FIELDS_CAPACITY 24 of
                 None \<Rightarrow> (False, pr)
               | Some cap \<Rightarrow>
                  let info = \<lparr>fd_name = c_string name,
                              fd_value = (case pr_field_value pr of None \<Rightarrow> [] | Some b \<Rightarrow> c_string (b_text b)),
                              fd_len = len_of (pr_field_value pr)\<rparr>
                  in (True, pr\<lparr>pr_fields := pr_fields pr @ [info], pr_fields_cap := cap\<rparr>)))"

fun on_event :: "mp_env \<Rightarrow> mp_processor \<Rightarrow> mp_event \<Rightarrow> bool \<times> mp_processor" where
  "on_event env pr On_Part_Begin = on_part_begin pr"
| "on_event env pr (On_Header_Field s) = on_header_field pr s"
| "on_event env pr (On_Header_Value s) = on_header_value pr s"
| "on_event env pr On_Headers_Complete = on_headers_complete env pr"
| "on_event env pr (On_Part_Data s) = on_part_data env pr s"
| "on_event env pr On_Part_End = on_part_end env pr"
| "on_event env pr On_Body_End = (True, pr)"

definition replay :: "mp_env \<Rightarrow> mp_processor \<Rightarrow> mp_event list \<Rightarrow> mp_processor" where
  "replay env pr es = foldl (\<lambda>p e. snd (on_event env p e)) pr es"

definition processor_callbacks :: "mp_env \<Rightarrow> mp_processor \<Rightarrow> mp_callbacks" where
  "processor_callbacks env pr hist e = fst (on_event env (replay env pr hist) e)"

text \<open>A processor in use: the parser, and the callbacks' state after the parser's events.\<close>

definition mp_processor_feed :: "mp_env \<Rightarrow> mp_processor \<Rightarrow> mp_parser \<Rightarrow> string \<Rightarrow> (mp_parser \<times> int) option" where
  "mp_processor_feed env pr ps data = multipart_parser_execute (processor_callbacks env pr) ps data"

definition mp_processor_cleanup_temp_files :: "mp_processor \<Rightarrow> mp_processor" where
  "mp_processor_cleanup_temp_files pr =
     pr\<lparr>pr_disk := foldl (\<lambda>d f. case mf_tmp_path f of None \<Rightarrow> d | Some p \<Rightarrow> d(p := None)) (pr_disk pr) (pr_files pr)\<rparr>"

end
