(* ===== verification/Multipart_Callbacks.thy ===== *)
theory Multipart_Callbacks
  imports Multipart_Processor
begin

text \<open>
  The callbacks steer the parser only by refusing: as long as each returns 0, the parser
  reports what it reports to a caller that accepts everything, so that what is proved of the
  accepting run holds of the run the processor sees.
\<close>

fun accepts_from :: "mp_callbacks \<Rightarrow> mp_event list \<Rightarrow> mp_event list \<Rightarrow> bool" where
  "accepts_from cb h [] \<longleftrightarrow> True"
| "accepts_from cb h (e # es) \<longleftrightarrow> cb h e \<and> accepts_from cb (h @ [e]) es"

lemma accepts_from_append: "accepts_from cb h (a @ b) \<longleftrightarrow> accepts_from cb h a \<and> accepts_from cb (h @ a) b"
  by (induction a arbitrary: h) auto

abbreviation outcome :: "mp_outcome \<Rightarrow> mp_parser" where
  "outcome x \<equiv> (case x of Inl e \<Rightarrow> e | Inr (mv, ps, m) \<Rightarrow> ps)"

lemma step_agree:
  assumes "accepts_from cb [] (mp_events (outcome (mp_step (\<lambda>_ _. True) ps m c)))"
  shows "mp_step cb ps m c = mp_step (\<lambda>_ _. True) ps m c"
  using assms by (cases "mp_st ps") (auto simp: mp_step_defs accepts_from_append split: if_splits)

lemma step_grows: "\<exists>es. mp_events (outcome (mp_step cb ps m c)) = mp_events ps @ es"
  by (cases "mp_st ps") (auto simp: mp_step_defs split: if_splits)

lemma flush_agree:
  "accepts_from cb [] (mp_events (case mp_flush (\<lambda>_ _. True) ps m of Inl e \<Rightarrow> e | Inr p \<Rightarrow> p)) \<Longrightarrow>
     mp_flush cb ps m = mp_flush (\<lambda>_ _. True) ps m"
  by (auto simp: mp_flush_def CALLBACK_DATA_def MP_CALLBACK_def Let_def accepts_from_append split: if_splits)

lemma flush_grows: "\<exists>es. mp_events (case mp_flush cb ps m of Inl e \<Rightarrow> e | Inr p \<Rightarrow> p) = mp_events ps @ es"
  by (auto simp: mp_flush_def CALLBACK_DATA_def MP_CALLBACK_def mp_fail_def Let_def split: if_splits)

lemma loop_grows: "mp_loop cb n ps m s = Some r \<Longrightarrow> \<exists>es. mp_events (case r of Inl e \<Rightarrow> e | Inr (p, m') \<Rightarrow> p) = mp_events ps @ es"
proof (induction cb n ps m s rule: mp_loop.induct)
  case (3 cb n ps m c rest)
  show ?case
  proof (cases "mp_step cb ps m c")
    case (Inl e) then show ?thesis using 3(2) step_grows [of cb ps m c] by auto
  next
    case (Inr x)
    obtain mv p1 m1 where x: "x = (mv, p1, m1)" by (metis prod_cases3)
    obtain es where "mp_events (case r of Inl e \<Rightarrow> e | Inr (p, m') \<Rightarrow> p) = mp_events p1 @ es"
      using 3(1) [OF Inr x [symmetric] refl] 3(2) Inr x by auto
    then show ?thesis using step_grows [of cb ps m c] Inr x by auto
  qed
qed auto

lemma loop_agree:
  assumes "mp_loop (\<lambda>_ _. True) n ps m s = Some r" "accepts_from cb [] (mp_events (case r of Inl e \<Rightarrow> e | Inr (p, m') \<Rightarrow> p))"
  shows "mp_loop cb n ps m s = Some r"
  using assms
proof (induction cb n ps m s rule: mp_loop.induct)
  case (3 cb n ps m c rest)
  show ?case
  proof (cases "mp_step (\<lambda>_ _. True) ps m c")
    case (Inl e) then show ?thesis using 3(2,3) step_agree [of cb ps m c] by auto
  next
    case (Inr x)
    obtain mv p1 m1 where x: "x = (mv, p1, m1)" by (metis prod_cases3)
    have l: "mp_loop (\<lambda>_ _. True) n p1 m1 (if mv then rest else c # rest) = Some r" using 3(2) Inr x by simp
    have a: "mp_step cb ps m c = Inr (mv, p1, m1)"
      using step_agree [of cb ps m c] loop_grows [OF l] 3(3) Inr x by (auto simp: accepts_from_append)
    show ?thesis using 3(1) [OF a refl refl l 3(3)] a by simp
  qed
qed auto

lemma execute_agree:
  assumes "multipart_parser_execute (\<lambda>_ _. True) ps d = Some (ps', r)" "accepts_from cb [] (mp_events ps')"
  shows "multipart_parser_execute cb ps d = Some (ps', r)"
proof (cases "mp_st ps = MP_STATE_ERROR \<or> mp_st ps = MP_STATE_END")
  case True then show ?thesis using assms(1) by (auto simp: multipart_parser_execute_def execute_with_def)
next
  case False
  obtain x where x: "mp_loop (\<lambda>_ _. True) (2 * length d) ps None d = Some x"
    using assms(1) False by (auto simp: multipart_parser_execute_def execute_with_def split: option.splits)
  show ?thesis
  proof (cases x)
    case (Inl e)
    then have "ps' = e" using assms(1) x False by (simp add: multipart_parser_execute_def execute_with_def)
    then show ?thesis using loop_agree [OF x, of cb] assms Inl x False by (simp add: multipart_parser_execute_def execute_with_def)
  next
    case (Inr y)
    obtain p1 m1 where y: "y = (p1, m1)" by (metis surj_pair)
    have p: "ps' = (case mp_flush (\<lambda>_ _. True) p1 m1 of Inl e \<Rightarrow> e | Inr p \<Rightarrow> p)"
      using assms(1) x False Inr y by (simp add: multipart_parser_execute_def execute_with_def split: sum.splits)
    have "mp_loop cb (2 * length d) ps None d = Some x" "mp_flush cb p1 m1 = mp_flush (\<lambda>_ _. True) p1 m1"
      using loop_agree [OF x, of cb] flush_agree [of cb p1 m1] flush_grows [of "\<lambda>_ _. True" p1 m1] assms(2) Inr y p
      by (auto simp: accepts_from_append)
    then show ?thesis using assms(1) x False Inr y by (simp add: multipart_parser_execute_def execute_with_def)
  qed
qed

lemma execute_grows:
  assumes "multipart_parser_execute cb ps d = Some (ps', r)"
  shows "\<exists>es. mp_events ps' = mp_events ps @ es"
proof (cases "mp_st ps = MP_STATE_ERROR \<or> mp_st ps = MP_STATE_END")
  case True then show ?thesis using assms by (auto simp: multipart_parser_execute_def execute_with_def)
next
  case False
  obtain x where x: "mp_loop cb (2 * length d) ps None d = Some x"
    using assms False by (auto simp: multipart_parser_execute_def execute_with_def split: option.splits)
  show ?thesis
  proof (cases x)
    case (Inl e)
    then show ?thesis using assms x False loop_grows [OF x] by (simp add: multipart_parser_execute_def execute_with_def)
  next
    case (Inr y)
    obtain p1 m1 where y: "y = (p1, m1)" by (metis surj_pair)
    have "ps' = (case mp_flush cb p1 m1 of Inl e \<Rightarrow> e | Inr p \<Rightarrow> p)"
      using assms x False Inr y by (simp add: multipart_parser_execute_def execute_with_def split: sum.splits)
    then show ?thesis using loop_grows [OF x] flush_grows [of cb p1 m1] Inr y by auto
  qed
qed

lemma feed_grows: "feed cb ps ds = Some ps' \<Longrightarrow> \<exists>es. mp_events ps' = mp_events ps @ es"
  by (induction ds arbitrary: ps) (fastforce split: option.splits dest: execute_grows)+

lemma feed_agree:
  "feed (\<lambda>_ _. True) ps ds = Some ps' \<Longrightarrow> accepts_from cb [] (mp_events ps') \<Longrightarrow> feed cb ps ds = Some ps'"
proof (induction ds arbitrary: ps)
  case (Cons d ds)
  obtain p1 r where p1: "multipart_parser_execute (\<lambda>_ _. True) ps d = Some (p1, r)" "feed (\<lambda>_ _. True) p1 ds = Some ps'"
    using Cons.prems(1) by (auto split: option.splits)
  have "accepts_from cb [] (mp_events p1)" using feed_grows [OF p1(2)] Cons.prems(2) by (auto simp: accepts_from_append)
  then show ?case using execute_agree [OF p1(1)] Cons.IH [OF p1(2) Cons.prems(2)] by simp
qed simp

text \<open>For the processor the callbacks are accepted when each returns 0 in the state the ones
  before it left.\<close>

fun all_return_0 :: "mp_env \<Rightarrow> mp_processor \<Rightarrow> mp_event list \<Rightarrow> bool" where
  "all_return_0 env pr [] \<longleftrightarrow> True"
| "all_return_0 env pr (e # es) \<longleftrightarrow> fst (on_event env pr e) \<and> all_return_0 env (snd (on_event env pr e)) es"

lemma processor_accepts:
  "accepts_from (processor_callbacks env pr) h es \<longleftrightarrow> all_return_0 env (replay env pr h) es"
  by (induction es arbitrary: h) (simp_all add: processor_callbacks_def replay_def)

end
