(* ===== verification/Multipart_Uploads.thy ===== *)
theory Multipart_Uploads
  imports Multipart_Protocol Multipart_Callbacks
begin

text \<open>
  What a form upload can amount to: the limits of the configuration, the name screen and the
  files on disk, for every body, every way to cut it into chunks and every outcome of the
  file operations.  The callback order of the parser is what the processor relies on.
\<close>

section \<open>Results within the limits\<close>

lemma str_append_text: "str_append b d = Some b' \<Longrightarrow> b_text b' = b_text b @ d"
  by (auto simp: str_append_def Let_def split: if_splits option.splits)

definition screened :: "string \<Rightarrow> bool" where
  "screened n \<longleftrightarrow> n \<noteq> [] \<and> length n \<le> MP_MAX_FILENAME_LEN \<and> \<not> has_path_traversal_or_nul (Some n)"

text \<open>An upload that is reported ready: one of the first \<open>max_files\<close> file parts, with a
  screened name, no longer than the limit, and its file is what closing made of as many
  bytes as the entry reports.\<close>

definition good_upload :: "mp_env \<Rightarrow> mp_config \<Rightarrow> (string \<rightharpoonup> string) \<Rightarrow> nat \<Rightarrow> mp_file_info \<Rightarrow> bool" where
  "good_upload env c disk i f \<longleftrightarrow> i < files_limit c \<and> mf_size f \<le> file_limit c \<and>
     (\<exists>n. mf_filename f = Some n \<and> screened n) \<and>
     (\<exists>p d. mf_tmp_path f = Some p \<and> me_tmp env i = Some p \<and> disk p = Some (me_fclose env p d) \<and> length d = mf_size f)"

definition within_limits :: "mp_env \<Rightarrow> mp_processor \<Rightarrow> bool" where
  "within_limits env pr \<longleftrightarrow>
     length (pr_fields pr) \<le> fields_limit (pr_config pr) \<and>
     (\<forall>f\<in>set (pr_fields pr). fd_len f \<le> field_limit (pr_config pr)) \<and>
     len_of (pr_field_value pr) \<le> field_limit (pr_config pr) \<and>
     (\<forall>i<length (pr_files pr). mf_ready (pr_files pr ! i) \<longrightarrow>
        good_upload env (pr_config pr) (pr_disk pr) i (pr_files pr ! i))"

text \<open>The part under way, by phase: after \<open>on_headers_complete\<close> it is an upload being written,
  a failed one, or a field.\<close>

definition writing :: "mp_env \<Rightarrow> mp_processor \<Rightarrow> bool" where
  "writing env pr \<longleftrightarrow> pr_file_size pr \<le> file_limit (pr_config pr) \<and> length (pr_files pr) < files_limit (pr_config pr) \<and>
     (\<exists>n. map_option c_string (ph_filename (pr_head pr)) = Some n \<and> screened n) \<and>
     (\<exists>p d. pr_tmp_path pr = Some p \<and> me_tmp env (length (pr_files pr)) = Some p \<and> pr_disk pr p = Some d \<and>
        length d = pr_file_size pr)"

fun part_ok :: "mp_env \<Rightarrow> mp_phase \<Rightarrow> mp_processor \<Rightarrow> bool" where
  "part_ok env P_Head pr = (\<not> pr_open pr \<and> pr_error pr = MP_UPLOAD_ERR_OK)"
| "part_ok env P_Body pr =
     (if pr_open pr then pr_error pr = MP_UPLOAD_ERR_OK \<and> writing env pr
      else pr_error pr \<noteq> MP_UPLOAD_ERR_OK \<or> ph_filename (pr_head pr) = None)"
| "part_ok env ph pr = True"

definition distinct_names :: "mp_env \<Rightarrow> bool" where
  "distinct_names env \<longleftrightarrow> (\<forall>i j p. me_tmp env i = Some p \<longrightarrow> me_tmp env j = Some p \<longrightarrow> i = j)"

lemmas upload_errors = MP_UPLOAD_ERR_OK_def MP_UPLOAD_ERR_NO_FILE_def MP_UPLOAD_ERR_NO_TMP_DIR_def
  MP_UPLOAD_ERR_CANT_WRITE_def MP_UPLOAD_ERR_TOO_MANY_FILES_def MP_UPLOAD_ERR_INVALID_NAME_def MP_UPLOAD_ERR_TOO_LARGE_def

text \<open>Only the results, the field buffer and the disk count.\<close>

lemma within_updates [simp]:
  "within_limits env (pr\<lparr>pr_error := e\<rparr>) = within_limits env pr"
  "within_limits env (pr\<lparr>pr_open := o'\<rparr>) = within_limits env pr"
  "within_limits env (pr\<lparr>pr_tmp_path := t\<rparr>) = within_limits env pr"
  "within_limits env (pr\<lparr>pr_file_size := n\<rparr>) = within_limits env pr"
  "within_limits env (pr\<lparr>pr_name := b\<rparr>) = within_limits env pr"
  "within_limits env (pr\<lparr>pr_value := b\<rparr>) = within_limits env pr"
  "within_limits env (pr\<lparr>pr_head := h\<rparr>) = within_limits env pr"
  "within_limits env (pr\<lparr>pr_files_cap := n\<rparr>) = within_limits env pr"
  "within_limits env (pr\<lparr>pr_fields_cap := n\<rparr>) = within_limits env pr"
  "within_limits env (pr\<lparr>pr_fault := x\<rparr>) = within_limits env pr"
  by (simp_all add: within_limits_def)

lemma within_field_value:
  "within_limits env pr \<Longrightarrow> len_of b \<le> field_limit (pr_config pr) \<Longrightarrow> within_limits env (pr\<lparr>pr_field_value := b\<rparr>)"
  by (simp add: within_limits_def)

text \<open>Writing the file of the current part leaves the files of the parts before it alone.\<close>

lemma within_disk:
  assumes "within_limits env pr" "distinct_names env" "me_tmp env (length (pr_files pr)) = Some p"
  shows "within_limits env (pr\<lparr>pr_disk := (pr_disk pr)(p := x)\<rparr>)"
proof -
  have "good_upload env (pr_config pr) ((pr_disk pr)(p := x)) i (pr_files pr ! i)"
    if "i < length (pr_files pr)" "mf_ready (pr_files pr ! i)" for i
  proof -
    have g: "good_upload env (pr_config pr) (pr_disk pr) i (pr_files pr ! i)" using assms(1) that by (simp add: within_limits_def)
    then obtain q d where q: "me_tmp env i = Some q" "mf_tmp_path (pr_files pr ! i) = Some q" "pr_disk pr q = Some (me_fclose env q d)"
        "length d = mf_size (pr_files pr ! i)" by (auto simp: good_upload_def)
    have "q \<noteq> p" using assms(2,3) q(1) that(1) unfolding distinct_names_def by (metis less_irrefl_nat)
    then show ?thesis using g q by (auto simp: good_upload_def)
  qed
  then show ?thesis using assms(1) by (simp add: within_limits_def)
qed

section \<open>The callbacks\<close>

lemma begin_ok: "within_limits env pr \<Longrightarrow> within_limits env (snd (on_part_begin pr)) \<and> part_ok env P_Head (snd (on_part_begin pr))"
proof -
  assume w: "within_limits env pr"
  have "len_of (clear_buf b) = 0" for b by (cases b) (simp_all add: clear_buf_def len_of_def)
  then show ?thesis using within_field_value [OF w, of "clear_buf (pr_field_value pr)"]
    by (simp add: on_part_begin_def within_limits_def)
qed

lemma take_header_frame [simp]:
  "within_limits env (take_header pr) = within_limits env pr"
  "pr_open (take_header pr) = pr_open pr" "pr_error (take_header pr) = pr_error pr"
  by (simp_all add: take_header_def split: option.split)

lemma header_field_ok:
  assumes "within_limits env pr" "part_ok env P_Head pr"
  shows "within_limits env (snd (on_header_field pr s)) \<and> part_ok env P_Head (snd (on_header_field pr s))"
  using assms unfolding on_header_field_def Let_def by (simp split: option.split)

lemma header_value_ok:
  assumes "within_limits env pr" "part_ok env P_Head pr"
  shows "within_limits env (snd (on_header_value pr s)) \<and> part_ok env P_Head (snd (on_header_value pr s))"
  using assms unfolding on_header_value_def Let_def by (simp split: option.split)

lemma open_upload_ok:
  assumes "within_limits env pr" "part_ok env P_Head pr" "distinct_names env"
    and "map_option c_string (ph_filename (pr_head pr)) = Some f" "f \<noteq> []"
  shows "within_limits env (open_upload env pr f) \<and> part_ok env P_Body (open_upload env pr f)"
proof (cases "me_tmp env (length (pr_files pr))")
  case None
  then show ?thesis using assms by (simp add: open_upload_def upload_errors)
next
  case (Some p)
  have w: "within_limits env (pr\<lparr>pr_disk := (pr_disk pr)(p \<mapsto> [])\<rparr>)" by (rule within_disk [OF assms(1,3) Some])
  have "within_limits env (pr\<lparr>pr_error := e, pr_tmp_path := t, pr_disk := (pr_disk pr)(p \<mapsto> [])\<rparr>)"
    "within_limits env (pr\<lparr>pr_tmp_path := t, pr_open := True, pr_file_size := 0, pr_disk := (pr_disk pr)(p \<mapsto> [])\<rparr>)" for e t
    using w by (simp_all add: within_limits_def)
  then show ?thesis using assms Some by (auto simp: open_upload_def upload_errors writing_def screened_def)
qed

lemma complete_ok:
  assumes "within_limits env pr" "part_ok env P_Head pr" "distinct_names env"
  shows "within_limits env (snd (on_headers_complete env pr)) \<and> part_ok env P_Body (snd (on_headers_complete env pr))"
proof -
  define pr1 where "pr1 = (if 0 < len_of (pr_name pr) \<and> 0 < len_of (pr_value pr) then take_header pr else pr)"
  have p1: "within_limits env pr1" "part_ok env P_Head pr1" using assms(1,2) by (simp_all add: pr1_def)
  show ?thesis
  proof (cases "ph_filename (pr_head pr1)")
    case None
    define b where "b = (case pr_field_value pr1 of
      None \<Rightarrow> \<lparr>b_text = [], b_cap = INITIAL_FIELD_VALUE_CAP\<rparr> | Some b \<Rightarrow> b\<lparr>b_text := []\<rparr>)"
    have "len_of (Some b) = 0" by (simp add: b_def len_of_def split: option.split)
    then have "within_limits env (pr1\<lparr>pr_field_value := Some b\<rparr>)" using within_field_value [OF p1(1), of "Some b"] by simp
    then show ?thesis using None p1(2) unfolding on_headers_complete_def pr1_def [symmetric] Let_def by (simp add: b_def)
  next
    case (Some f)
    show ?thesis
    proof (cases "c_string f = []")
      case True
      then show ?thesis using Some p1 unfolding on_headers_complete_def pr1_def [symmetric] Let_def by (simp add: upload_errors)
    next
      case False
      then have "on_headers_complete env pr = (True, open_upload env pr1 (c_string f))"
        using Some unfolding on_headers_complete_def pr1_def [symmetric] Let_def by simp
      then show ?thesis using open_upload_ok [OF p1 assms(3), of "c_string f"] Some False by (simp only: snd_conv option.map simp_thms)
    qed
  qed
qed

lemma field_data_ok:
  assumes "within_limits env pr" "part_ok env P_Body pr" "\<not> pr_open pr"
  shows "within_limits env (snd (on_part_data env pr s)) \<and> part_ok env P_Body (snd (on_part_data env pr s))"
proof (cases "on_part_data env pr s = (True, pr) \<or> on_part_data env pr s = (False, pr)")
  case True
  then show ?thesis using assms by auto
next
  case False
  define b where "b = (case pr_field_value pr of None \<Rightarrow> \<lparr>b_text = [], b_cap = 0\<rparr> | Some x \<Rightarrow> x)"
  have n: "len_of (pr_field_value pr) = length (b_text b)" by (simp add: b_def len_of_def split: option.split)
  have fit: "length (b_text b) + length s \<le> field_limit (pr_config pr)"
    using False assms(3) unfolding on_part_data_def Let_def b_def [symmetric] n by (auto split: if_splits)
  obtain b' where b': "str_append b s = Some b'" "on_part_data env pr s = (True, pr\<lparr>pr_field_value := Some b'\<rparr>)"
    using False assms(3) unfolding on_part_data_def Let_def b_def [symmetric] n
    by (cases "str_append b s") (auto split: if_splits)
  have "len_of (Some b') \<le> field_limit (pr_config pr)" using str_append_text [OF b'(1)] fit by (simp add: len_of_def)
  then show ?thesis using assms b'(2) within_field_value [OF assms(1), of "Some b'"] by simp
qed

lemma upload_data_ok:
  assumes "within_limits env pr" "part_ok env P_Body pr" "pr_open pr" "distinct_names env"
  shows "within_limits env (snd (on_part_data env pr s)) \<and> part_ok env P_Body (snd (on_part_data env pr s))"
proof -
  have wr: "writing env pr" and ok: "pr_error pr = MP_UPLOAD_ERR_OK" using assms(2,3) by simp_all
  obtain p d where p: "pr_tmp_path pr = Some p" "me_tmp env (length (pr_files pr)) = Some p" "pr_disk pr p = Some d"
      "length d = pr_file_size pr" using wr by (auto simp: writing_def)
  have w: "within_limits env (pr\<lparr>pr_disk := (pr_disk pr)(p := x)\<rparr>)" for x by (rule within_disk [OF assms(1,4) p(2)])
  have "within_limits env (pr\<lparr>pr_error := e, pr_open := False, pr_disk := (pr_disk pr)(p := x)\<rparr>)"
    "within_limits env (pr\<lparr>pr_file_size := n, pr_disk := (pr_disk pr)(p := x)\<rparr>)" for e n x
    using w [of x] by (simp_all add: within_limits_def)
  then show ?thesis using assms(3) p wr ok by (auto simp: on_part_data_def Let_def upload_errors writing_def)
qed

lemma data_ok:
  assumes "within_limits env pr" "part_ok env P_Body pr" "distinct_names env"
  shows "within_limits env (snd (on_part_data env pr s)) \<and> part_ok env P_Body (snd (on_part_data env pr s))"
  using assms upload_data_ok field_data_ok by (cases "pr_open pr") blast+

lemma close_file_ok:
  assumes "within_limits env pr" "part_ok env P_Body pr" "distinct_names env"
  shows "within_limits env (close_file env pr)"
proof (cases "pr_open pr")
  case True
  then obtain p where p: "pr_tmp_path pr = Some p" "me_tmp env (length (pr_files pr)) = Some p"
    using assms(2) by (auto simp: writing_def)
  have "within_limits env (pr\<lparr>pr_disk := (pr_disk pr)(p := map_option (me_fclose env p) (pr_disk pr p))\<rparr>)"
    by (rule within_disk [OF assms(1,3) p(2)])
  then show ?thesis using True p(1) by (simp add: close_file_def within_limits_def)
qed (use assms(1) in \<open>simp add: close_file_def\<close>)

lemma close_file_frame [simp]:
  "pr_head (close_file env pr) = pr_head pr" "pr_files (close_file env pr) = pr_files pr"
  "pr_config (close_file env pr) = pr_config pr" "pr_error (close_file env pr) = pr_error pr"
  "pr_tmp_path (close_file env pr) = pr_tmp_path pr" "pr_file_size (close_file env pr) = pr_file_size pr"
  "pr_fields (close_file env pr) = pr_fields pr" "pr_field_value (close_file env pr) = pr_field_value pr"
  "pr_files_cap (close_file env pr) = pr_files_cap pr" "pr_fields_cap (close_file env pr) = pr_fields_cap pr"
  by (simp_all add: close_file_def)

lemma closed_upload:
  assumes "part_ok env P_Body pr" "pr_error pr = MP_UPLOAD_ERR_OK" "ph_filename (pr_head pr) = Some n"
    and "mf_filename i = Some (c_string n)" "mf_tmp_path i = pr_tmp_path pr" "mf_size i = pr_file_size pr"
  shows "good_upload env (pr_config pr) (pr_disk (close_file env pr)) (length (pr_files pr)) i"
  using assms by (auto simp: writing_def good_upload_def close_file_def split: if_splits)

lemma end_ok:
  assumes "within_limits env pr" "part_ok env P_Body pr" "distinct_names env"
  shows "within_limits env (snd (on_part_end env pr))"
proof (cases "ph_filename (pr_head pr)")
  case None
  then show ?thesis using close_file_ok [OF assms]
    by (auto simp: on_part_end_def Let_def within_limits_def split: option.split)
next
  case (Some n)
  show ?thesis using close_file_ok [OF assms] Some
    by (auto simp: on_part_end_def Let_def within_limits_def nth_append less_Suc_eq
      intro!: closed_upload [OF assms(2) _ Some] split: option.split)
qed

lemma event_ok:
  assumes "within_limits env pr" "part_ok env ph pr" "distinct_names env" "next_phase ph e = Some ph'"
  shows "within_limits env (snd (on_event env pr e)) \<and> part_ok env ph' (snd (on_event env pr e))"
  using assms
  by (cases "(ph, e)" rule: next_phase.cases)
    (auto simp only: next_phase.simps on_event.simps option.inject option.distinct part_ok.simps(3,4) snd_conv
      dest: begin_ok header_field_ok header_value_ok complete_ok data_ok end_ok)

lemma replay_ok:
  "within_limits env pr \<Longrightarrow> part_ok env ph pr \<Longrightarrow> distinct_names env \<Longrightarrow> run_phase ph es = Some ph' \<Longrightarrow>
    within_limits env (replay env pr es)"
proof (induction es arbitrary: ph pr)
  case (Cons e es)
  obtain ph1 where 1: "next_phase ph e = Some ph1" "run_phase ph1 es = Some ph'" using Cons.prems(4) by (auto split: bind_splits)
  show ?case using Cons.IH [OF _ _ Cons.prems(3) 1(2)] event_ok [OF Cons.prems(1-3) 1(1)] by (simp add: replay_def)
qed (simp add: replay_def)

lemma create_within: "within_limits env (mp_processor_create c)"
  by (simp add: within_limits_def mp_processor_create_def len_of_def)

lemma feed_within:
  assumes "distinct_names env" "multipart_parser_create b = Some ps"
    and "feed (processor_callbacks env (mp_processor_create c)) ps chunks = Some ps'"
  shows "within_limits env (replay env (mp_processor_create c) (mp_events ps'))"
proof -
  obtain ph where "run_phase P_Idle (mp_events ps') = Some ph"
    using in_phase_feed [OF conjunct1 [OF in_phase_create [OF assms(2)]] assms(3)] by (auto simp: in_phase_def)
  then show ?thesis using replay_ok [OF create_within, of env P_Idle c] assms(1) by simp
qed

lemma config_kept [simp]:
  "pr_config (snd (on_part_begin pr)) = pr_config pr"
  "pr_config (take_header pr) = pr_config pr"
  "pr_config (snd (on_header_value pr s)) = pr_config pr"
  "pr_config (open_upload env pr f) = pr_config pr"
  "pr_config (snd (on_part_end env pr)) = pr_config pr"
  by (simp_all add: on_part_begin_def take_header_def on_header_value_def open_upload_def on_part_end_def Let_def split: option.split)

lemma config_header_field [simp]: "pr_config (snd (on_header_field pr s)) = pr_config pr"
  unfolding on_header_field_def Let_def by (simp split: option.split)

lemma config_complete [simp]: "pr_config (snd (on_headers_complete env pr)) = pr_config pr"
  unfolding on_headers_complete_def Let_def
  by (cases "0 < len_of (pr_name pr) \<and> 0 < len_of (pr_value pr)") (simp_all split: option.split)

lemma config_data [simp]: "pr_config (snd (on_part_data env pr s)) = pr_config pr"
  by (cases "pr_open pr"; cases "pr_field_value pr") (simp_all add: on_part_data_def Let_def split: option.split)

lemma replay_config: "pr_config (replay env pr es) = pr_config pr"
proof (induction es arbitrary: pr)
  case (Cons e es)
  have "pr_config (snd (on_event env pr e)) = pr_config pr" by (cases e) simp_all
  then show ?case using Cons [of "snd (on_event env pr e)"] by (simp add: replay_def)
qed (simp add: replay_def)

section \<open>A small form\<close>

definition small_env :: mp_env where
  "small_env = \<lparr>me_tmp = (\<lambda>i. Some (replicate i CHR ''x'')), me_fopen = (\<lambda>_. True), me_fwrite = (\<lambda>_ s. length s), me_fclose = (\<lambda>_ s. s)\<rparr>"

definition small_config :: mp_config where
  "small_config = \<lparr>max_file_size = 5, max_field_size = 5, max_files = 1, max_fields = 1\<rparr>"

definition small_chunks :: "string list" where
  "small_chunks = [''--b'' @ [CR, LF] @ ''Conte'', ''nt-Dispo'', ''sition:;'', ''filename'', ''=a'' @ [CR, LF, CR, LF],
     ''hi'' @ [CR, LF] @ ''--b--'']"

definition small_events :: "mp_event list" where
  "small_events = [On_Part_Begin, On_Header_Field ''Conte'', On_Header_Field ''nt-Dispo'', On_Header_Field ''sition'',
     On_Header_Value '';'', On_Header_Value ''filename'', On_Header_Value ''=a'', On_Headers_Complete, On_Part_Data ''hi'',
     On_Part_End, On_Body_End]"

definition small_file :: mp_file_info where
  "small_file = \<lparr>mf_field_name = None, mf_filename = Some ''a'', mf_media_type = None, mf_charset = None,
     mf_tmp_path = Some [], mf_size = 2, mf_error = 0, mf_ready = True\<rparr>"

lemma small_form_events:
  "\<exists>ps p. multipart_parser_create (Some ''b'') = Some ps \<and> feed (\<lambda>_ _. True) ps small_chunks = Some p \<and> mp_events p = small_events"
proof -
  have "(case multipart_parser_create (Some ''b'') of Some ps \<Rightarrow>
      (case feed (\<lambda>_ _. True) ps small_chunks of Some p \<Rightarrow> mp_events p = small_events | None \<Rightarrow> False) | None \<Rightarrow> False)"
    by code_simp
  then show ?thesis by (auto split: option.splits)
qed

lemma small_form_head:
  "parse_content_disposition empty_head '';filename=a'' =
     \<lparr>ph_field_name = None, ph_filename = Some ''a'', ph_content_type = None, ph_charset = None\<rparr>"
  "eq_ci ''Content-Disposition'' ''Content-Disposition''" "\<not> has_path_traversal_or_nul (Some ''a'')"
  by code_simp+

lemma small_form_files:
  "all_return_0 small_env (mp_processor_create (Some small_config)) small_events"
  "pr_files (replay small_env (mp_processor_create (Some small_config)) small_events) = [small_file]"
  by (simp_all add: small_env_def small_config_def small_events_def small_file_def replay_def mp_processor_create_def
    on_part_begin_def clear_buf_def on_header_field_def len_of_def str_append_def SIZE_MAX_def INITIAL_HEADER_CAP_def
    on_header_value_def on_headers_complete_def take_header_def c_string_def NUL_def small_form_head open_upload_def
    MP_MAX_FILENAME_LEN_def files_limit_def on_part_data_def file_limit_def on_part_end_def close_file_def array_room_def
    MP_UPLOAD_ERR_OK_def INITIAL_FILES_CAPACITY_def Let_def)

section \<open>Properties\<close>

text \<open>
  C39.  Whatever a client sends as a form body, however it is cut into chunks and whichever
  file operations fail, the processor keeps to its configuration, provided the generator of
  temporary names does not repeat itself: no more than \<open>max_fields\<close> fields, no field value over
  \<open>max_field_size\<close>, and an upload reported ready is among the first \<open>max_files\<close> file parts,
  carries a name that passed the traversal screen, is at most \<open>max_file_size\<close> long, and its
  temporary file exists and is what \<open>fflush\<close> and \<open>fclose\<close> left of exactly as many bytes as are
  reported.
\<close>

theorem uploads_within_limits:
  fixes env c
  defines "start \<equiv> mp_processor_create (Some c)"
  assumes "\<forall>i j p. me_tmp env i = Some p \<longrightarrow> me_tmp env j = Some p \<longrightarrow> i = j"
    and "multipart_parser_create b = Some ps" "feed (processor_callbacks env start) ps chunks = Some ps'"
  shows "let pr = replay env start (mp_events ps') in
    length (pr_fields pr) \<le> fields_limit c \<and> (\<forall>f\<in>set (pr_fields pr). fd_len f \<le> field_limit c) \<and>
    (\<forall>i<length (pr_files pr). mf_ready (pr_files pr ! i) \<longrightarrow> good_upload env c (pr_disk pr) i (pr_files pr ! i))"
proof -
  have "pr_config (replay env start (mp_events ps')) = c" by (simp add: start_def replay_config mp_processor_create_def)
  moreover have "distinct_names env" using assms(2) by (simp add: distinct_names_def)
  ultimately show ?thesis
    using feed_within [OF _ assms(3,4) [unfolded start_def]] unfolding start_def by (simp add: within_limits_def Let_def)
qed

theorem uploads_within_limits_witness:
  "\<exists>ps p. multipart_parser_create (Some ''b'') = Some ps \<and>
    feed (processor_callbacks small_env (mp_processor_create (Some small_config))) ps small_chunks = Some p \<and>
    (let pr = replay small_env (mp_processor_create (Some small_config)) (mp_events p) in
      pr_files pr = [small_file] \<and> good_upload small_env small_config (pr_disk pr) 0 small_file)"
proof -
  obtain ps p where p: "multipart_parser_create (Some ''b'') = Some ps" "feed (\<lambda>_ _. True) ps small_chunks = Some p"
      "mp_events p = small_events" using small_form_events by blast
  have r: "replay small_env (mp_processor_create (Some small_config)) [] = mp_processor_create (Some small_config)"
    by (simp add: replay_def)
  have f: "feed (processor_callbacks small_env (mp_processor_create (Some small_config))) ps small_chunks = Some p"
    by (rule feed_agree [OF p(2)]) (simp only: p(3) processor_accepts r small_form_files(1))
  have "\<forall>i j q. me_tmp small_env i = Some q \<longrightarrow> me_tmp small_env j = Some q \<longrightarrow> i = j"
    by (auto simp: small_env_def dest: arg_cong [of _ _ length])
  from uploads_within_limits [OF this p(1) f] have "good_upload small_env small_config
      (pr_disk (replay small_env (mp_processor_create (Some small_config)) (mp_events p))) 0 small_file"
    by (simp add: Let_def p(3) small_form_files(2) small_file_def)
  then show ?thesis using p f small_form_files(2) by (auto simp: Let_def)
qed

text \<open>
  C40.  A field whose value contains a NUL byte is stored with a copy that ends at the NUL and
  a length that counts the bytes after it as well: the recorded length exceeds the copy,
  terminator included, by the length of the rest.
\<close>

theorem nul_field_len_past_copy:
  assumes "ph_filename (pr_head pr) = None" "ph_field_name (pr_head pr) = Some n"
    and "pr_field_value pr = Some v" "b_text v = a @ NUL # rest" "NUL \<notin> set a"
    and "length (pr_fields pr) < fields_limit (pr_config pr)"
    and "array_room (length (pr_fields pr)) (pr_fields_cap pr) INITIAL_FIELDS_CAPACITY 24 = Some cap"
  shows "\<exists>f. pr_fields (snd (on_part_end env pr)) = pr_fields pr @ [f] \<and> fd_value f = a \<and>
    fd_len f = length (fd_value f @ [NUL]) + length rest"
proof -
  have "c_string (b_text v) = a" using assms(4,5) by (simp add: c_string_def takeWhile_append)
  then show ?thesis using assms by (simp add: on_part_end_def Let_def len_of_def)
qed

theorem nul_field_len_past_copy_witness:
  "\<exists>f. pr_fields (snd (on_part_end small_env ((mp_processor_create None)\<lparr>pr_head := empty_head\<lparr>ph_field_name := Some ''n''\<rparr>,
      pr_field_value := Some \<lparr>b_text = ''a'' @ NUL # ''secret'', b_cap = 256\<rparr>\<rparr>))) = [f] \<and> fd_value f = ''a'' \<and> fd_len f = 8"
  using nul_field_len_past_copy [where env = small_env, of "(mp_processor_create None)\<lparr>pr_head := empty_head\<lparr>ph_field_name := Some ''n''\<rparr>,
      pr_field_value := Some \<lparr>b_text = ''a'' @ NUL # ''secret'', b_cap = 256\<rparr>\<rparr>"
      "''n''" "\<lparr>b_text = ''a'' @ NUL # ''secret'', b_cap = 256\<rparr>" "''a''" "''secret''" INITIAL_FIELDS_CAPACITY]
  by (auto simp: mp_processor_create_def empty_head_def NUL_def fields_limit_def MP_MAX_FIELDS_def array_room_def SIZE_MAX_def
    INITIAL_FIELDS_CAPACITY_def)

section \<open>Corner cases of the callbacks\<close>

text \<open>A header with an empty value is not taken: the next name is appended to its name.\<close>

lemma empty_value_joins_names:
  assumes "pr_name pr = Some b" "len_of (pr_value pr) = 0" "str_append b s = Some b'"
  shows "snd (on_header_field pr s) = pr\<lparr>pr_name := Some b'\<rparr> \<and> b_text b' = b_text b @ s"
  using assms str_append_text [OF assms(3)] by (simp add: on_header_field_def Let_def)

text \<open>A chunk of a field value that does not fit is skipped, and a later one that fits is
  appended after the gap.\<close>

lemma oversized_chunk_leaves_gap:
  assumes "\<not> pr_open pr" "pr_error pr = MP_UPLOAD_ERR_OK" "ph_filename (pr_head pr) = None" "pr_field_value pr = Some v"
    and "field_limit (pr_config pr) < length (b_text v) + length s"
    and "length (b_text v) + length t \<le> field_limit (pr_config pr)" "str_append v t = Some v'"
  shows "pr_field_value (snd (on_part_data env (snd (on_part_data env pr s)) t)) = Some v' \<and> b_text v' = b_text v @ t"
proof -
  have "on_part_data env pr s = (True, pr)" using assms by (simp add: on_part_data_def Let_def len_of_def) linarith
  then show ?thesis using assms str_append_text [OF assms(7)] by (simp add: on_part_data_def Let_def len_of_def)
qed

text \<open>A close that loses bytes goes unnoticed: the upload is ready with its full size.\<close>

lemma lost_bytes_still_ready:
  assumes "pr_open pr" "pr_error pr = MP_UPLOAD_ERR_OK" "ph_filename (pr_head pr) = Some n" "pr_tmp_path pr = Some p"
    and "pr_disk pr p = Some d" "length d = pr_file_size pr" "length (me_fclose env p d) < length d"
    and "array_room (length (pr_files pr)) (pr_files_cap pr) INITIAL_FILES_CAPACITY 56 = Some cap"
  shows "\<exists>f d'. pr_files (snd (on_part_end env pr)) = pr_files pr @ [f] \<and> mf_ready f \<and> mf_tmp_path f = Some p \<and>
    pr_disk (snd (on_part_end env pr)) p = Some d' \<and> length d' < mf_size f"
  using assms by (simp add: on_part_end_def close_file_def Let_def)

text \<open>A temporary file that cannot be reopened for writing stays behind, and no entry of the
  result names it.\<close>

lemma failed_fopen_leaves_file:
  assumes "me_tmp env (length (pr_files pr)) = Some p" "\<not> me_fopen env p" "screened f"
    and "length (pr_files pr) < files_limit (pr_config pr)"
  shows "pr_disk (open_upload env pr f) p = Some [] \<and> pr_tmp_path (open_upload env pr f) = None"
  using assms by (simp add: open_upload_def screened_def)

end
