(* ===== verification/Spec2Isabelle.thy ===== *)
theory Spec2Isabelle
  imports Topic_Worker Topic_Hub_Props Http_Range Http_Mime Http_Precompressed Http_Date Static_Confined Multipart_Roundtrip Multipart_Uploads
begin

text \<open>
  Verification of the TrueAsync server extension.
\<close>

end
